(* ===== verification/Cervus_Prelude.thy ===== *)
theory Cervus_Prelude
  imports Main "HOL-Library.Word"
begin

text \<open>
  Shared vocabulary of the development: the machine integers of the kernel, the error numbers
  of \<^verbatim>\<open>kernel/include/syscall/errno.h\<close> that the modelled code returns, and the generic
  facts about tables of slots.  Nearly every kernel table (lock table, wait queue, IPC
  namespace, fragment cache) is a fixed array that is searched front to back for the first
  entry with some property; \<open>find_slot\<close> is that loop.
\<close>

type_synonym u8 = "8 word"
type_synonym u16 = "16 word"
type_synonym u32 = "32 word"
type_synonym u64 = "64 word"

datatype (plugins only: code size) errno =
    EPERM | ENOENT | ESRCH | EINTR | EIO | ENXIO | E2BIG | EBADF | EAGAIN | ENOMEM | EACCES
  | EFAULT | EBUSY | EEXIST | EINVAL | EMFILE | ENOTTY | EFBIG | ENOSPC | EPIPE | ERANGE
  | ENOLCK | ENOMSG | EIDRM | ETIMEDOUT | ENODEV

text \<open>A C function that returns a negative error number or a value.\<close>

type_synonym 'a result = "errno + 'a"

abbreviation ok :: "unit result" where
  "ok \<equiv> Inr ()"

text \<open>A kernel function that can also stop the machine or never return.\<close>

datatype 'a outcome = Done 'a | Panic string | Hang

fun and_then :: "'a outcome \<Rightarrow> ('a \<Rightarrow> 'b outcome) \<Rightarrow> 'b outcome" where
  "and_then (Done x) f = f x"
| "and_then (Panic m) f = Panic m"
| "and_then Hang f = Hang"

section \<open>First slot with a property\<close>

text \<open>\<^verbatim>\<open>for (i = 0; i < N; i++) if (P(tab[i])) return i;\<close>\<close>

fun find_slot :: "('a \<Rightarrow> bool) \<Rightarrow> 'a list \<Rightarrow> nat option" where
  "find_slot P [] = None"
| "find_slot P (x # xs) = (if P x then Some 0 else map_option Suc (find_slot P xs))"

lemma find_slot_SomeD:
  "find_slot P xs = Some i \<Longrightarrow> i < length xs \<and> P (xs ! i) \<and> (\<forall>j<i. \<not> P (xs ! j))"
proof (induction xs arbitrary: i)
  case (Cons x xs)
  show ?case
  proof (cases "P x")
    case False
    with Cons.prems obtain j where "find_slot P xs = Some j" "i = Suc j" by auto
    with Cons.IH False show ?thesis by (auto simp: less_Suc_eq_0_disj)
  qed (use Cons.prems in auto)
qed simp

lemma find_slot_length: "find_slot P xs = Some i \<Longrightarrow> i < length xs"
  by (simp add: find_slot_SomeD)

lemma find_slot_holds: "find_slot P xs = Some i \<Longrightarrow> P (xs ! i)"
  by (simp add: find_slot_SomeD)

lemma find_slot_first: "find_slot P xs = Some i \<Longrightarrow> j < i \<Longrightarrow> \<not> P (xs ! j)"
  by (simp add: find_slot_SomeD)

lemma find_slot_None_iff: "find_slot P xs = None \<longleftrightarrow> (\<forall>x \<in> set xs. \<not> P x)"
  by (induction xs) auto

lemma find_slot_ex: "x \<in> set xs \<Longrightarrow> P x \<Longrightarrow> \<exists>i. find_slot P xs = Some i"
  using find_slot_None_iff [of P xs] by (cases "find_slot P xs") auto

lemma find_slot_eqI:
  "i < length xs \<Longrightarrow> P (xs ! i) \<Longrightarrow> (\<And>j. j < i \<Longrightarrow> \<not> P (xs ! j)) \<Longrightarrow> find_slot P xs = Some i"
proof (induction xs arbitrary: i)
  case (Cons x xs)
  show ?case
  proof (cases i)
    case (Suc k)
    have "\<not> P x" using Cons.prems(3) [of 0] Suc by simp
    moreover have "find_slot P xs = Some k"
      using Cons.prems Suc by (intro Cons.IH) fastforce+
    ultimately show ?thesis using Suc by simp
  qed (use Cons.prems in simp)
qed simp

lemma find_slot_cong: "(\<And>x. x \<in> set xs \<Longrightarrow> P x = Q x) \<Longrightarrow> find_slot P xs = find_slot Q xs"
  by (induction xs) auto

lemma find_slot_replicate [simp]:
  "find_slot P (replicate n x) = (if 0 < n \<and> P x then Some 0 else None)"
  by (induction n) auto

section \<open>Updating one slot of a table\<close>

lemma set_list_update_iff:
  "i < length xs \<Longrightarrow> y \<in> set (xs[i := x]) \<longleftrightarrow> y = x \<or> (\<exists>j<length xs. j \<noteq> i \<and> xs ! j = y)"
  by (auto simp: in_set_conv_nth nth_list_update split: if_splits)

lemma set_fill_slot:
  assumes "i < length xs" "xs ! i = None"
  shows "Some u \<in> set (xs[i := Some t]) \<longleftrightarrow> Some u \<in> set xs \<or> u = t"
proof -
  have "Some u \<in> set xs \<longleftrightarrow> (\<exists>j<length xs. j \<noteq> i \<and> xs ! j = Some u)"
    using assms by (metis in_set_conv_nth option.distinct(1))
  with set_list_update_iff [OF assms(1), of "Some u" "Some t"] show ?thesis by auto
qed

lemma ex_slot_update_iff:
  "i < length xs \<Longrightarrow>
   (\<exists>j<length xs. P j (xs[i := x] ! j)) \<longleftrightarrow> P i x \<or> (\<exists>j<length xs. j \<noteq> i \<and> P j (xs ! j))"
  by (auto simp: nth_list_update split: if_splits)

section \<open>Singly linked lists with a tail pointer\<close>

text \<open>
  \<^verbatim>\<open>if (tail) tail->next = n; else head = n; tail = n;\<close> on the list of the nodes reachable from the
  head: a stale tail that is on the list cuts off what follows it, and one that is not on the list
  loses the new node.  \<open>key\<close> gives the address of a node.
\<close>

definition link_tail :: "('n \<Rightarrow> 'k) \<Rightarrow> 'k option \<Rightarrow> 'n \<Rightarrow> 'n list \<Rightarrow> 'n list" where
  "link_tail key tail n xs =
     (case tail of
        None \<Rightarrow> [n]
      | Some t \<Rightarrow> if t \<in> set (map key xs)
                 then takeWhile (\<lambda>x. key x \<noteq> t) xs @ [the (List.find (\<lambda>x. key x = t) xs), n]
                 else xs)"

definition tail_ok :: "('n \<Rightarrow> 'k) \<Rightarrow> 'k option \<Rightarrow> 'n list \<Rightarrow> bool" where
  "tail_ok key tail xs \<longleftrightarrow>
     distinct (map key xs) \<and> tail = (if xs = [] then None else Some (key (last xs)))"

lemma link_tail_append: "tail_ok key tail xs \<Longrightarrow> link_tail key tail n xs = xs @ [n]"
proof (cases xs rule: rev_cases)
  case (snoc ys y)
  assume "tail_ok key tail xs"
  then have d: "key y \<notin> key ` set ys" and "tail = Some (key y)" by (auto simp: tail_ok_def snoc)
  moreover have "takeWhile (\<lambda>x. key x \<noteq> key y) (ys @ [y]) = ys"
    using d by (subst takeWhile_append2) (auto simp: image_iff)
  moreover have "List.find (\<lambda>x. key x = key y) (ys @ [y]) = Some y"
    using d by (induction ys) auto
  ultimately show ?thesis by (auto simp: link_tail_def snoc)
qed (simp add: tail_ok_def link_tail_def)

lemma tail_ok_append:
  "tail_ok key tail xs \<Longrightarrow> key n \<notin> key ` set xs \<Longrightarrow> tail_ok key (Some (key n)) (xs @ [n])"
  by (auto simp: tail_ok_def)

lemma tail_ok_Nil [simp]: "tail_ok key tail [] \<longleftrightarrow> tail = None"
  by (auto simp: tail_ok_def)

section \<open>Successor and predecessor on machine words\<close>

text \<open>Without a word that witnesses that there is no wrap-around, neither equivalence holds.\<close>

lemma word_pred_le: "(a :: 'a::len word) < s \<Longrightarrow> b \<le> s - 1 \<longleftrightarrow> b < s"
  by (metis less_imp_less_eq_dec interval_class.less_eq_dec_imp_less)

lemma word_succ_le: "(e :: 'a::len word) < a \<Longrightarrow> e + 1 \<le> b \<longleftrightarrow> e < b"
  by (metis inc_le interval_class.inc_less_eq_imp_less)

section \<open>64-bit two's complement\<close>

lemma sint_inj: "sint (a :: 'a::len word) = sint b \<Longrightarrow> a = b"
  by (simp add: signed_word_eqI)

lemma unat_pow2: "k < 64 \<Longrightarrow> unat (2 ^ k :: u64) = 2 ^ k"
  using unat_of_nat [where 'a = 64 and x = "2 ^ k"] power_strict_increasing [of k 64 "2 :: nat"]
  by simp

lemma uint_sint_mod: "uint (x :: u64) = sint x mod 2 ^ 64"
  by (simp add: uint_sint take_bit_eq_mod)

lemma sint_u64_range: "- (2 ^ 63) \<le> sint (x :: u64)" "sint (x :: u64) < 2 ^ 63"
  using sint_ge [of x] sint_lt [of x] by simp_all

lemma sint_nonneg_bound: "0 \<le> sint (x :: u64) \<Longrightarrow> unat x < 2 ^ 63"
  using sint_u64_range [of x] by (simp flip: nat_uint_eq add: uint_sint_mod nat_less_iff)

lemma abs_len_bound: "unat (if sint l < 0 then - l else (l :: u64)) \<le> 2 ^ 63"
proof (cases "sint l < 0")
  case True
  have "uint (- l) = (- sint l) mod 2 ^ 64"
    using uint_word_ariths(4) [of l] by (simp add: uint_sint_mod [of l] mod_minus_eq)
  also have "\<dots> = - sint l" using True sint_u64_range [of l] by (intro mod_pos_pos_trivial) auto
  finally have "unat (- l) \<le> 2 ^ 63" using sint_u64_range [of l] by (simp flip: nat_uint_eq)
  with True show ?thesis by simp
qed (use sint_nonneg_bound [of l] in auto)

lemma range_end_no_wrap:
  assumes "unat (s :: u64) < 2 ^ 63" "unat len \<le> 2 ^ 63" "0 < unat len"
  shows "s \<le> s + len - 1"
proof -
  have "unat (s + (len - 1)) = unat s + (unat len - 1)"
  proof -
    have "unat (len - 1) = unat len - 1" using assms(3) by (simp add: unat_minus_one unat_gt_0)
    then show ?thesis using assms by (subst unat_add_lem [THEN iffD1]) auto
  qed
  then show ?thesis by (simp add: word_le_nat_alt add_diff_eq)
qed

end
