(* ===== verification/Buddy.thy ===== *)
theory Buddy
  imports Cervus_Prelude
begin

unbundle bit_operations_syntax

text \<open>
  The physical page allocator: the buddy half of \<^verbatim>\<open>kernel/src/memory/pmm.c\<close>.

  A free block is an address and an order; the free list of an order is the list of the
  addresses of its blocks, front first (the code threads it through the blocks with a
  sentinel head).  Physical addresses are \<open>nat\<close>: the architecture limits them to 52 bits, so
  the sums below never reach \<open>2 ^ 64\<close>; virtual pointers, which arrive from arbitrary callers,
  are 64-bit words and wrap.  Clearing the low bits of an address, \<^verbatim>\<open>p & ~(2^k - 1)\<close>, is
  written \<open>p div 2 ^ k * 2 ^ k\<close>.  Each function is one critical section of \<^verbatim>\<open>g_pmm_lock\<close>.
\<close>

section \<open>State\<close>

definition PAGE_SIZE :: nat where "PAGE_SIZE = 4096"

definition PMM_MAX_ORDER :: nat where "PMM_MAX_ORDER = 13"

definition PMM_MAX_ORDER_NR :: nat where "PMM_MAX_ORDER_NR = PMM_MAX_ORDER + 1"

definition PMM_FREE_MIN_PHYS :: nat where "PMM_FREE_MIN_PHYS = 0x100000"

record pmm_free_list =
  fl_blocks :: "nat list"
  fl_count :: int

text \<open>
  \<open>g_fstate\<close> is the array of frame states (\<open>None\<close> when \<open>pmm_init\<close> found no room for it), and
  \<open>block_order\<close> the \<^verbatim>\<open>order\<close> field stored in the first bytes of a free block.
\<close>

record pmm_state =
  hhdm_offset :: u64
  mem_start :: nat
  mem_end :: nat
  total_pages :: nat
  usable_pages :: nat
  free_pages :: int
  orders :: "pmm_free_list list"
  g_fstate :: "(nat \<Rightarrow> nat) option"
  block_order :: "nat \<Rightarrow> int"
  alloc_count :: u64
  free_count :: u64

section \<open>Orders\<close>

partial_function (option) pages_to_order_loop :: "u64 \<Rightarrow> u64 \<Rightarrow> nat \<Rightarrow> nat option" where
  "pages_to_order_loop pages cap order =
     (if cap < pages then pages_to_order_loop pages (push_bit 1 cap) (order + 1) else Some order)"

declare pages_to_order_loop.simps [code]

text \<open>\<open>None\<close>: the loop never ends.\<close>

definition pages_to_order :: "u64 \<Rightarrow> int option" where
  "pages_to_order pages =
     map_option (\<lambda>order. if order > PMM_MAX_ORDER then - 1 else int order)
       (pages_to_order_loop pages 1 0)"

section \<open>Free lists\<close>

definition fl_empty :: pmm_free_list where
  "fl_empty = \<lparr>fl_blocks = [], fl_count = 0\<rparr>"

definition set_fstate :: "nat \<Rightarrow> nat \<Rightarrow> pmm_state \<Rightarrow> pmm_state" where
  "set_fstate phys v s = s\<lparr>g_fstate := map_option (\<lambda>f. f(phys div PAGE_SIZE := v)) (g_fstate s)\<rparr>"

definition fl_push :: "nat \<Rightarrow> nat \<Rightarrow> pmm_state \<Rightarrow> pmm_state" where
  "fl_push ord b s =
     (let fl = orders s ! ord in
      (set_fstate b (ord + 1) s)\<lparr>
        block_order := (block_order s)(b := int ord),
        orders := (orders s)[ord := \<lparr>fl_blocks = b # fl_blocks fl, fl_count = fl_count fl + 1\<rparr>]\<rparr>)"

definition fl_del :: "nat \<Rightarrow> nat \<Rightarrow> pmm_state \<Rightarrow> pmm_state" where
  "fl_del ord b s =
     (let fl = orders s ! ord in
      (set_fstate b 0 s)\<lparr>
        block_order := (block_order s)(b := - 1),
        orders := (orders s)[ord := \<lparr>fl_blocks = remove1 b (fl_blocks fl), fl_count = fl_count fl - 1\<rparr>]\<rparr>)"

text \<open>A list pointer is the sentinel or a page-aligned block inside the managed range.\<close>

definition block_ptr_valid :: "pmm_state \<Rightarrow> nat \<Rightarrow> bool" where
  "block_ptr_valid s phys \<longleftrightarrow> \<not> (phys < mem_start s \<or> phys \<ge> mem_end s) \<and> phys mod PAGE_SIZE = 0"

fun fl_walk :: "pmm_state \<Rightarrow> nat \<Rightarrow> nat \<Rightarrow> nat list \<Rightarrow> nat option" where
  "fl_walk s phys limit [] = None"
| "fl_walk s phys limit (b # bs) =
     (if \<not> block_ptr_valid s b then None
      else if b = phys then Some b
      else if bs \<noteq> [] \<and> \<not> block_ptr_valid s (hd bs) then None
      else if limit = 0 then None
      else fl_walk s phys (limit - 1) bs)"

definition fl_find :: "nat \<Rightarrow> nat \<Rightarrow> pmm_state \<Rightarrow> nat option" where
  "fl_find ord phys s =
     (case g_fstate s of
        Some f \<Rightarrow>
          if phys < mem_start s \<or> phys \<ge> mem_end s then None
          else if f (phys div PAGE_SIZE) = ord + 1 then Some phys else None
      | None \<Rightarrow> fl_walk s phys (total_pages s + 16) (fl_blocks (orders s ! ord)))"

section \<open>Splitting and coalescing\<close>

text \<open>The loop that gives back the upper halves of a block that is too large.\<close>

fun split_block :: "nat \<Rightarrow> nat \<Rightarrow> nat \<Rightarrow> pmm_state \<Rightarrow> pmm_state" where
  "split_block phys 0 ord s = s"
| "split_block phys (Suc found) ord s =
     (if Suc found > ord
      then split_block phys found ord (fl_push found (phys + PAGE_SIZE * 2 ^ found) s)
      else s)"

text \<open>The result is the block's address, or 0 when there is none.\<close>

definition buddy_alloc_order :: "nat \<Rightarrow> pmm_state \<Rightarrow> nat \<times> pmm_state" where
  "buddy_alloc_order ord s =
     (case List.find (\<lambda>k. fl_blocks (orders s ! k) \<noteq> []) [ord..<PMM_MAX_ORDER_NR] of
        None \<Rightarrow> (0, s)
      | Some found \<Rightarrow>
          (case fl_blocks (orders s ! found) of
             [] \<Rightarrow> (0, s)
           | b # bs \<Rightarrow>
               if bs \<noteq> [] \<and> \<not> block_ptr_valid s (hd bs)
               then (0, s\<lparr>orders := (orders s)[found := fl_empty]\<rparr>)
               else
                 let s1 = split_block b found ord (fl_del found b s)
                 in (b, s1\<lparr>free_pages := free_pages s1 - 2 ^ ord\<rparr>)))"

definition clamp_free_pages :: "int \<Rightarrow> pmm_state \<Rightarrow> pmm_state" where
  "clamp_free_pages n s =
     (let fp = free_pages s + n in
      s\<lparr>free_pages := (if fp > int (usable_pages s) then int (usable_pages s) else fp)\<rparr>)"

function buddy_coalesce :: "nat \<Rightarrow> nat \<Rightarrow> pmm_state \<Rightarrow> nat \<times> nat \<times> pmm_state" where
  "buddy_coalesce phys ord s =
     (if ord < PMM_MAX_ORDER then
        let buddy_phys = phys XOR (PAGE_SIZE * 2 ^ ord) in
        if buddy_phys < PMM_FREE_MIN_PHYS then (phys, ord, s)
        else if buddy_phys < mem_start s \<or> buddy_phys \<ge> mem_end s then (phys, ord, s)
        else (case fl_find ord buddy_phys s of
                None \<Rightarrow> (phys, ord, s)
              | Some b \<Rightarrow>
                  if block_order s b \<noteq> int ord then (phys, ord, s)
                  else buddy_coalesce (if buddy_phys < phys then buddy_phys else phys) (ord + 1)
                         (fl_del ord b s))
      else (phys, ord, s))"
  by pat_completeness auto
termination
  by (relation "measure (\<lambda>(phys, ord, s). PMM_MAX_ORDER - ord)") auto

declare buddy_coalesce.simps [simp del]

definition buddy_free_order :: "nat \<Rightarrow> nat \<Rightarrow> pmm_state \<Rightarrow> pmm_state" where
  "buddy_free_order phys ord s =
     (if phys < PMM_FREE_MIN_PHYS then s
      else case buddy_coalesce phys ord s of
             (p, k, s1) \<Rightarrow> clamp_free_pages (2 ^ k) (fl_push k p s1))"

definition page_is_free :: "nat \<Rightarrow> pmm_state \<Rightarrow> bool" where
  "page_is_free phys s =
     (case g_fstate s of
        None \<Rightarrow> False
      | Some f \<Rightarrow> list_ex (\<lambda>k. let head = phys div (PAGE_SIZE * 2 ^ k) * (PAGE_SIZE * 2 ^ k) in
                    \<not> (head < mem_start s \<or> head \<ge> mem_end s) \<and> f (head div PAGE_SIZE) = k + 1)
                  [0..<PMM_MAX_ORDER_NR])"

definition buddy_free_nocoalesce :: "nat \<Rightarrow> pmm_state \<Rightarrow> pmm_state" where
  "buddy_free_nocoalesce phys s = clamp_free_pages 1 (fl_push 0 phys s)"

section \<open>Boot\<close>

record boot_mmap_entry =
  me_base :: nat
  me_length :: nat
  me_usable :: bool

definition align_up :: "nat \<Rightarrow> nat \<Rightarrow> nat" where
  "align_up v a = (v + a - 1) div a * a"

text \<open>The usable page range of a memory map entry, above the first megabyte.\<close>

definition entry_base :: "boot_mmap_entry \<Rightarrow> nat" where
  "entry_base e = max (align_up (me_base e) PAGE_SIZE) PMM_FREE_MIN_PHYS"

definition entry_end :: "boot_mmap_entry \<Rightarrow> nat" where
  "entry_end e = (me_base e + me_length e) div PAGE_SIZE * PAGE_SIZE"

text \<open>The largest order whose block starts at \<open>base\<close> and fits into \<open>rem\<close> pages.\<close>

fun carve_order :: "nat \<Rightarrow> nat \<Rightarrow> nat \<Rightarrow> nat" where
  "carve_order base rem 0 = 0"
| "carve_order base rem (Suc k) =
     (if base mod (2 ^ Suc k * PAGE_SIZE) = 0 \<and> rem \<ge> 2 ^ Suc k then Suc k
      else carve_order base rem k)"

function carve_region :: "nat \<Rightarrow> nat \<Rightarrow> pmm_state \<Rightarrow> pmm_state" where
  "carve_region base bound s =
     (if base < bound then
        let ord = carve_order base ((bound - base) div PAGE_SIZE) PMM_MAX_ORDER;
            s1 = fl_push ord base s
        in carve_region (base + PAGE_SIZE * 2 ^ ord) bound
             (s1\<lparr>free_pages := free_pages s1 + 2 ^ ord\<rparr>)
      else s)"
  by pat_completeness auto
termination
  by (relation "measure (\<lambda>(base, bound, s). bound - base)") (auto simp: PAGE_SIZE_def intro!: diff_less_mono2)

declare carve_region.simps [simp del]

definition init_entry :: "nat \<Rightarrow> nat \<Rightarrow> boot_mmap_entry \<Rightarrow> pmm_state \<Rightarrow> pmm_state" where
  "init_entry fstate_phys fstate_bytes e s =
     (if \<not> me_usable e then s
      else
        let base0 = align_up (me_base e) PAGE_SIZE;
            bound = entry_end e;
            base1 = (if base0 < PMM_FREE_MIN_PHYS then PMM_FREE_MIN_PHYS else base0)
        in if base0 < PMM_FREE_MIN_PHYS \<and> base1 \<ge> bound then s
           else
             let base2 = (if fstate_phys \<noteq> 0 \<and> base1 = fstate_phys then base1 + fstate_bytes else base1)
             in if fstate_phys \<noteq> 0 \<and> base1 = fstate_phys \<and> base2 \<ge> bound then s
                else carve_region base2 bound s)"

text \<open>Where the frame-state array goes: the first usable entry with room for it, or 0.\<close>

fun find_fstate :: "nat \<Rightarrow> boot_mmap_entry list \<Rightarrow> nat" where
  "find_fstate bytes [] = 0"
| "find_fstate bytes (e # es) =
     (if me_usable e \<and> entry_end e > entry_base e \<and> entry_end e - entry_base e \<ge> bytes
      then entry_base e else find_fstate bytes es)"

definition max_usable :: "boot_mmap_entry list \<Rightarrow> nat" where
  "max_usable es = foldl (\<lambda>m e. if me_usable e \<and> me_base e + me_length e > m then me_base e + me_length e else m) 0 es"

definition count_usable :: "boot_mmap_entry list \<Rightarrow> nat" where
  "count_usable es = foldl (\<lambda>n e. if me_usable e then n + me_length e div PAGE_SIZE else n) 0 es"

definition pmm_init :: "u64 \<Rightarrow> boot_mmap_entry list \<Rightarrow> pmm_state" where
  "pmm_init hhdm es =
     (let max_phys = align_up (max_usable es) PAGE_SIZE;
          pages = max_phys div PAGE_SIZE;
          fstate_bytes = align_up pages PAGE_SIZE;
          fstate_phys = find_fstate fstate_bytes es;
          s0 = \<lparr>hhdm_offset = hhdm, mem_start = 0, mem_end = max_phys, total_pages = pages,
                usable_pages = count_usable es, free_pages = 0,
                orders = replicate PMM_MAX_ORDER_NR fl_empty,
                g_fstate = (if fstate_phys \<noteq> 0 then Some (\<lambda>_. 0) else None),
                block_order = (\<lambda>_. 0), alloc_count = 0, free_count = 0\<rparr>
      in foldl (\<lambda>s e. init_entry fstate_phys fstate_bytes e s) s0 es)"

section \<open>The allocation interface\<close>

definition phys_to_virt :: "pmm_state \<Rightarrow> nat \<Rightarrow> u64" where
  "phys_to_virt s phys = of_nat phys + hhdm_offset s"

definition virt_to_phys :: "pmm_state \<Rightarrow> u64 \<Rightarrow> nat" where
  "virt_to_phys s vaddr = unat (vaddr - hhdm_offset s)"

text \<open>A null pointer is 0.\<close>

definition pmm_alloc :: "u64 \<Rightarrow> pmm_state \<Rightarrow> (u64 \<times> pmm_state) outcome" where
  "pmm_alloc pages s =
     (if pages = 0 then Done (0, s)
      else case pages_to_order pages of
             None \<Rightarrow> Hang
           | Some ord \<Rightarrow>
               if ord < 0 then Done (0, s)
               else
                 (case buddy_alloc_order (nat ord) s of
                    (phys, s1) \<Rightarrow>
                      if phys = 0 then Done (0, s1)
                      else if phys < PMM_FREE_MIN_PHYS then Done (0, s1)
                      else Done (phys_to_virt s1 phys,
                                 s1\<lparr>alloc_count := alloc_count s1 + 2 ^ nat ord\<rparr>)))"

text \<open>
  An alignment that is not a power of two is rounded up by the same doubling loop as the number
  of pages; the test \<^verbatim>\<open>phys & (alignment - 1)\<close> is a remainder by that power of two.
\<close>

definition round_alignment :: "u64 \<Rightarrow> u64 option" where
  "round_alignment alignment =
     (let a = (if alignment < of_nat PAGE_SIZE then of_nat PAGE_SIZE else alignment)
      in if a AND (a - 1) \<noteq> 0
         then map_option (\<lambda>k. push_bit k 1) (pages_to_order_loop a 1 0)
         else Some a)"

definition pmm_alloc_aligned :: "u64 \<Rightarrow> u64 \<Rightarrow> pmm_state \<Rightarrow> (u64 \<times> pmm_state) outcome" where
  "pmm_alloc_aligned pages alignment s =
     (if pages = 0 then Done (0, s)
      else case round_alignment alignment of
        None \<Rightarrow> Hang
      | Some a \<Rightarrow>
          let align_pages = a div of_nat PAGE_SIZE;
              req = (if pages > align_pages then pages else align_pages)
          in case pages_to_order req of
               None \<Rightarrow> Hang
             | Some ord \<Rightarrow>
                 if ord < 0 then Done (0, s)
                 else
                   (case buddy_alloc_order (nat ord) s of
                      (phys, s1) \<Rightarrow>
                        if phys = 0 then Done (0, s1)
                        else if phys mod unat a \<noteq> 0 then Done (0, buddy_free_order phys (nat ord) s1)
                        else Done (phys_to_virt s1 phys, s1)))"

text \<open>The first free block, smallest order first, that fits below the limit.\<close>

fun find_below :: "nat \<Rightarrow> nat \<Rightarrow> nat list \<Rightarrow> pmm_state \<Rightarrow> (nat \<times> nat) option" where
  "find_below span max_phys [] s = None"
| "find_below span max_phys (k # ks) s =
     (case List.find (\<lambda>bp. \<not> bp < PMM_FREE_MIN_PHYS \<and> \<not> bp + span > max_phys) (fl_blocks (orders s ! k)) of
        Some bp \<Rightarrow> Some (k, bp)
      | None \<Rightarrow> find_below span max_phys ks s)"

definition pmm_alloc_below :: "u64 \<Rightarrow> nat \<Rightarrow> pmm_state \<Rightarrow> (u64 \<times> pmm_state) outcome" where
  "pmm_alloc_below pages max_phys s =
     (if pages = 0 then Done (0, s)
      else case pages_to_order pages of
             None \<Rightarrow> Hang
           | Some ord \<Rightarrow>
               if ord < 0 then Done (0, s)
               else
                 (case find_below (PAGE_SIZE * 2 ^ nat ord) max_phys [nat ord..<PMM_MAX_ORDER_NR] s of
                    None \<Rightarrow> Done (0, s)
                  | Some (k, bp) \<Rightarrow>
                      let s1 = split_block bp k (nat ord) (fl_del k bp s)
                      in Done (phys_to_virt s1 bp, s1\<lparr>free_pages := free_pages s1 - 2 ^ nat ord\<rparr>)))"

text \<open>\<open>memset(addr, 0, 64)\<close> overwrites the list links and the order field of the block.\<close>

definition pmm_free :: "u64 \<Rightarrow> u64 \<Rightarrow> pmm_state \<Rightarrow> pmm_state outcome" where
  "pmm_free addr pages s =
     (if addr = 0 \<or> pages = 0 then Done s
      else
        let phys = virt_to_phys s addr in
        if phys < mem_start s \<or> phys \<ge> mem_end s then Done s
        else if phys < 0x100000 then Done s
        else case pages_to_order pages of
               None \<Rightarrow> Hang
             | Some ord \<Rightarrow>
                 if ord < 0 then Done s
                 else
                   let last = phys + (2 ^ nat ord - 1) * PAGE_SIZE in
                   if page_is_free phys s \<or> page_is_free last s
                   then Panic ''pmm: page freed twice''
                   else
                     let s1 = buddy_free_order phys (nat ord) (s\<lparr>block_order := (block_order s)(phys := 0)\<rparr>)
                     in Done (s1\<lparr>free_count := free_count s1 + 2 ^ nat ord\<rparr>))"

definition pmm_free_single :: "u64 \<Rightarrow> pmm_state \<Rightarrow> pmm_state outcome" where
  "pmm_free_single addr s =
     (if addr = 0 then Done s
      else
        let phys = virt_to_phys s addr in
        if phys < mem_start s \<or> phys \<ge> mem_end s then Done s
        else if page_is_free phys s then Panic ''pmm: page freed twice''
        else Done (buddy_free_nocoalesce phys s))"

definition pmm_get_free_pages :: "pmm_state \<Rightarrow> int" where
  "pmm_get_free_pages s = sum_list (map (\<lambda>k. fl_count (orders s ! k) * 2 ^ k) [0..<PMM_MAX_ORDER_NR])"

definition pmm_get_used_pages :: "pmm_state \<Rightarrow> int" where
  "pmm_get_used_pages s =
     (let fp = pmm_get_free_pages s in
      if fp < int (usable_pages s) then int (usable_pages s) - fp else 0)"

end
