(* ===== verification/Page_Allocator.thy ===== *)
theory Page_Allocator
  imports Cervus_Prelude
begin

text \<open>
  The contract between the page allocator and its clients (the slab cache, user pages, shared
  memory, the frame reference counts): \<open>alloc pages\<close> returns a null pointer or the address of a
  region that was free, \<open>release\<close> gives a region back.  The client-side consequence is proved
  once, in the locale: along any sequence of allocations and releases the regions handed out are
  pairwise disjoint, disjoint from the free memory, and nothing is lost.
\<close>

text \<open>A client that keeps the list of the regions (pointer and page count) it holds.\<close>

inductive alloc_run ::
  "(u64 \<Rightarrow> 's \<Rightarrow> (u64 \<times> 's) outcome) \<Rightarrow> (u64 \<Rightarrow> u64 \<Rightarrow> 's \<Rightarrow> 's outcome) \<Rightarrow> 's \<Rightarrow>
   's \<times> (u64 \<times> u64) list \<Rightarrow> bool"
  for alloc release s0 where
  start: "alloc_run alloc release s0 (s0, [])"
| got: "alloc_run alloc release s0 (s, held) \<Longrightarrow> 0 < n \<Longrightarrow> unat n \<le> 2 ^ 63 \<Longrightarrow>
    alloc n s = Done (p, s') \<Longrightarrow> p \<noteq> 0 \<Longrightarrow> alloc_run alloc release s0 (s', (p, n) # held)"
| denied: "alloc_run alloc release s0 (s, held) \<Longrightarrow> 0 < n \<Longrightarrow> unat n \<le> 2 ^ 63 \<Longrightarrow>
    alloc n s = Done (0, s') \<Longrightarrow> alloc_run alloc release s0 (s', held)"
| gave: "alloc_run alloc release s0 (s, xs @ (p, n) # ys) \<Longrightarrow>
    release p n s = Done s' \<Longrightarrow> alloc_run alloc release s0 (s', xs @ ys)"

definition pairwise_disjoint :: "'a set list \<Rightarrow> bool" where
  "pairwise_disjoint As \<longleftrightarrow> (\<forall>i<length As. \<forall>j<length As. i \<noteq> j \<longrightarrow> As ! i \<inter> As ! j = {})"

lemma pairwise_disjoint_Cons:
  "pairwise_disjoint (A # As) \<longleftrightarrow> (\<forall>B\<in>set As. A \<inter> B = {}) \<and> pairwise_disjoint As"
proof
  assume h: "pairwise_disjoint (A # As)"
  have "A \<inter> As ! i = {}" if "i < length As" for i
    using h [unfolded pairwise_disjoint_def, rule_format, of 0 "Suc i"] that by simp
  moreover have "As ! i \<inter> As ! j = {}" if "i < length As" "j < length As" "i \<noteq> j" for i j
    using h [unfolded pairwise_disjoint_def, rule_format, of "Suc i" "Suc j"] that by simp
  ultimately show "(\<forall>B\<in>set As. A \<inter> B = {}) \<and> pairwise_disjoint As"
    unfolding pairwise_disjoint_def by (metis in_set_conv_nth)
next
  assume "(\<forall>B\<in>set As. A \<inter> B = {}) \<and> pairwise_disjoint As"
  then show "pairwise_disjoint (A # As)"
    by (auto simp: pairwise_disjoint_def nth_Cons Int_commute split: nat.splits)
qed

lemma pairwise_disjoint_remove:
  "pairwise_disjoint (As @ A # Bs) \<Longrightarrow> pairwise_disjoint (As @ Bs) \<and> (\<forall>B\<in>set (As @ Bs). A \<inter> B = {})"
  by (induction As) (auto simp: pairwise_disjoint_Cons)

locale page_allocator =
  fixes alloc :: "u64 \<Rightarrow> 's \<Rightarrow> (u64 \<times> 's) outcome"
    and release :: "u64 \<Rightarrow> u64 \<Rightarrow> 's \<Rightarrow> 's outcome"
    and wf :: "'s \<Rightarrow> bool"
    and free :: "'s \<Rightarrow> nat set"
    and region :: "'s \<Rightarrow> u64 \<Rightarrow> u64 \<Rightarrow> nat set"
    and owned :: "'s \<Rightarrow> u64 \<Rightarrow> u64 \<Rightarrow> bool"
  assumes alloc_law: "wf s \<Longrightarrow> 0 < n \<Longrightarrow> unat n \<le> 2 ^ 63 \<Longrightarrow> alloc n s = Done (p, s') \<Longrightarrow>
      wf s' \<and> region s' = region s \<and> owned s' = owned s \<and>
      (p = 0 \<and> free s' = free s \<or>
       p \<noteq> 0 \<and> owned s p n \<and> region s p n \<subseteq> free s \<and> free s' = free s - region s p n)"
    and release_law: "wf s \<Longrightarrow> owned s p n \<Longrightarrow> region s p n \<inter> free s = {} \<Longrightarrow>
      \<exists>s'. release p n s = Done s' \<and> wf s' \<and> region s' = region s \<and> owned s' = owned s \<and>
        free s' = region s p n \<union> free s"
begin

abbreviation regions :: "'s \<Rightarrow> (u64 \<times> u64) list \<Rightarrow> nat set list" where
  "regions s held \<equiv> map (\<lambda>(p, n). region s p n) held"

lemma run_invariant:
  assumes "alloc_run alloc release s0 (s, held)" "wf s0"
  shows "wf s \<and> region s = region s0 \<and> owned s = owned s0 \<and>
    (\<forall>(p, n)\<in>set held. owned s0 p n) \<and> pairwise_disjoint (regions s0 held) \<and>
    free s \<inter> \<Union> (set (regions s0 held)) = {} \<and> free s \<union> \<Union> (set (regions s0 held)) = free s0"
  using assms
proof (induction "(s, held)" arbitrary: s held rule: alloc_run.induct)
  case start
  then show ?case by (simp add: pairwise_disjoint_def)
next
  case (got s held n p s')
  then have IH: "wf s" "region s = region s0" "owned s = owned s0" "\<forall>(p, n)\<in>set held. owned s0 p n"
    "pairwise_disjoint (regions s0 held)" "free s \<inter> \<Union> (set (regions s0 held)) = {}"
    "free s \<union> \<Union> (set (regions s0 held)) = free s0" by auto
  from alloc_law [OF IH(1) got.hyps(3-5)] got.hyps(6)
  have "wf s'" "region s' = region s0" "owned s' = owned s0" "owned s0 p n" "region s0 p n \<subseteq> free s"
    "free s' = free s - region s0 p n" using IH(2,3) by auto
  with IH(4-7) show ?case by (auto simp: pairwise_disjoint_Cons)
next
  case (denied s held n s')
  then have IH: "wf s" "region s = region s0" "owned s = owned s0" by auto
  from alloc_law [OF IH(1) denied.hyps(3-5)] denied show ?case by auto
next
  case (gave s xs p n ys s')
  then have IH: "wf s" "region s = region s0" "owned s = owned s0" "\<forall>(p, n)\<in>set (xs @ (p, n) # ys). owned s0 p n"
    "pairwise_disjoint (regions s0 xs @ region s0 p n # regions s0 ys)"
    "free s \<inter> \<Union> (set (regions s0 (xs @ (p, n) # ys))) = {}"
    "free s \<union> \<Union> (set (regions s0 (xs @ (p, n) # ys))) = free s0" by auto
  note pd = pairwise_disjoint_remove [OF IH(5)]
  from IH(1-4,6) release_law [of s p n] gave.hyps(3)
  have "wf s'" "region s' = region s0" "owned s' = owned s0" "free s' = region s0 p n \<union> free s" by auto
  with IH(4,6,7) pd show ?case by auto
qed

end

end
