(* ===== verification/Buddy_Correct.thy ===== *)
theory Buddy_Correct
  imports Buddy Page_Allocator
begin

unbundle bit_operations_syntax

text \<open>
  Correctness of the page allocator.  The abstract state is a set of free frames
  (\<open>free_frames\<close>); the invariant \<open>buddy_inv\<close> says that the free lists, the block headers and
  the frame-state array describe one set of pairwise disjoint, naturally aligned blocks above
  the first megabyte.  Pushing and deleting a block are the only two ways the code changes the
  lists, so everything rests on \<open>fl_push_inv\<close> and \<open>fl_del_inv\<close>.
\<close>

section \<open>Blocks and frames\<close>

abbreviation fblocks :: "pmm_state \<Rightarrow> nat \<Rightarrow> nat list" where
  "fblocks s k \<equiv> fl_blocks (orders s ! k)"

definition block_size :: "nat \<Rightarrow> nat" where
  "block_size k = PAGE_SIZE * 2 ^ k"

definition frames :: "nat \<Rightarrow> nat \<Rightarrow> nat set" where
  "frames b k = {b div PAGE_SIZE ..< b div PAGE_SIZE + 2 ^ k}"

definition block_ok :: "pmm_state \<Rightarrow> nat \<Rightarrow> nat \<Rightarrow> bool" where
  "block_ok s k b \<longleftrightarrow> block_size k dvd b \<and> PMM_FREE_MIN_PHYS \<le> b \<and> b + block_size k \<le> mem_end s"

definition free_frames :: "pmm_state \<Rightarrow> nat set" where
  "free_frames s = (\<Union>k<PMM_MAX_ORDER_NR. \<Union>b\<in>set (fblocks s k). frames b k)"

definition buddy_inv :: "pmm_state \<Rightarrow> bool" where
  "buddy_inv s \<longleftrightarrow>
     length (orders s) = PMM_MAX_ORDER_NR \<and> mem_start s = 0 \<and>
     (\<forall>k<PMM_MAX_ORDER_NR. distinct (fblocks s k) \<and> fl_count (orders s ! k) = int (length (fblocks s k))) \<and>
     (\<forall>k<PMM_MAX_ORDER_NR. \<forall>b\<in>set (fblocks s k). block_ok s k b \<and> block_order s b = int k) \<and>
     (\<forall>k<PMM_MAX_ORDER_NR. \<forall>j<PMM_MAX_ORDER_NR. \<forall>b\<in>set (fblocks s k). \<forall>c\<in>set (fblocks s j).
        (k, b) \<noteq> (j, c) \<longrightarrow> frames b k \<inter> frames c j = {}) \<and>
     (\<forall>f. g_fstate s = Some f \<longrightarrow>
        (\<forall>n. \<forall>k<PMM_MAX_ORDER_NR. f n = k + 1 \<longleftrightarrow> n * PAGE_SIZE \<in> set (fblocks s k)))"

lemma PAGE_SIZE_pos [simp]: "0 < PAGE_SIZE" by (simp add: PAGE_SIZE_def)

lemma block_size_pos [simp]: "0 < block_size k" by (simp add: block_size_def)

lemma block_size_Suc: "block_size (Suc k) = 2 * block_size k" by (simp add: block_size_def)

lemma block_size_div [simp]: "block_size k div PAGE_SIZE = 2 ^ k" by (simp add: block_size_def)

lemma PAGE_SIZE_dvd_block: "block_size k dvd b \<Longrightarrow> PAGE_SIZE dvd b"
  by (auto simp: block_size_def)

lemma frames_not_empty [simp]: "frames b k \<noteq> {}" by (simp add: frames_def)

lemma first_frame: "b div PAGE_SIZE \<in> frames b k" by (simp add: frames_def)

lemma card_frames [simp]: "card (frames b k) = 2 ^ k" by (simp add: frames_def)

lemma finite_frames [simp]: "finite (frames b k)" by (simp add: frames_def)

lemma add_block_div:
  "block_size k dvd n \<Longrightarrow> (b + n) div PAGE_SIZE = b div PAGE_SIZE + n div PAGE_SIZE"
  by (rule div_plus_div_distrib_dvd_right) (rule PAGE_SIZE_dvd_block)

text \<open>A block of order \<open>k + 1\<close> is its two halves.\<close>

lemma frames_split: "frames b (Suc k) = frames b k \<union> frames (b + block_size k) k"
  by (auto simp: frames_def add_block_div [of k])

lemma frames_halves_disjoint: "frames b k \<inter> frames (b + block_size k) k = {}"
  by (auto simp: frames_def add_block_div [of k])

lemma frames_mono: "j \<le> k \<Longrightarrow> frames b j \<subseteq> frames b k"
  by (auto simp: frames_def intro: less_le_trans)

text \<open>Aligned blocks: the frames of a block are those whose index has the same quotient.\<close>

lemma frames_iff_div:
  assumes "block_size k dvd b"
  shows "n \<in> frames b k \<longleftrightarrow> n div 2 ^ k = b div block_size k"
proof -
  from assms obtain c where c: "b = block_size k * c" ..
  then have "b div PAGE_SIZE = c * 2 ^ k" by (simp add: block_size_def mult.assoc)
  then have "n \<in> frames b k \<longleftrightarrow> c * 2 ^ k \<le> n \<and> n < c * 2 ^ k + 2 ^ k" by (simp add: frames_def)
  also have "\<dots> \<longleftrightarrow> n div 2 ^ k = c"
    by (metis add.commute dividend_less_times_div div_nat_eqI mult.commute mult_Suc times_div_less_eq_dividend
        zero_less_numeral zero_less_power)
  finally show ?thesis using c by simp
qed

section \<open>Buddies\<close>

lemma buddy_xor:
  assumes "block_size k dvd b"
  shows "b XOR block_size k =
    (if even (b div block_size k) then b + block_size k else b - block_size k)"
proof -
  have sz: "block_size k = push_bit (12 + k) 1"
    by (simp add: block_size_def PAGE_SIZE_def push_bit_eq_mult power_add)
  from assms obtain c where c: "b = block_size k * c" ..
  have "b = push_bit (12 + k) c" by (simp add: c sz push_bit_eq_mult)
  then have "b XOR block_size k = push_bit (12 + k) (c XOR 1)" by (simp only: sz push_bit_xor)
  also have "c XOR 1 = (if even c then c + 1 else c - 1)"
    using xor_Suc_0_eq [of c] by simp
  also have "push_bit (12 + k) \<dots> = (if even c then b + block_size k else b - block_size k)"
    by (auto simp: push_bit_eq_mult c sz algebra_simps)
  finally show ?thesis using c by simp
qed

lemma buddy_min_aligned:
  assumes "block_size k dvd b"
  shows "block_size (Suc k) dvd min b (b XOR block_size k)"
    and "frames (min b (b XOR block_size k)) (Suc k) = frames b k \<union> frames (b XOR block_size k) k"
    and "block_size k dvd b XOR block_size k"
proof -
  from assms obtain c where c: "b = block_size k * c" ..
  have x: "b XOR block_size k = (if even c then b + block_size k else b - block_size k)"
    using buddy_xor [OF assms] c by simp
  show "block_size k dvd b XOR block_size k" unfolding x using assms by (auto intro: dvd_diff_nat)
  have m: "min b (b XOR block_size k) = (if even c then b else b - block_size k)" by (simp add: x)
  show "block_size (Suc k) dvd min b (b XOR block_size k)"
  proof (cases "even c")
    case True
    then show ?thesis unfolding m using c by (auto simp: block_size_Suc elim!: evenE)
  next
    case False
    then obtain d where "c = 2 * d + 1" by (auto elim: oddE)
    then have "b - block_size k = block_size (Suc k) * d" by (simp add: c block_size_Suc algebra_simps)
    with False show ?thesis unfolding m by simp
  qed
  show "frames (min b (b XOR block_size k)) (Suc k) = frames b k \<union> frames (b XOR block_size k) k"
  proof (cases "even c")
    case True
    then show ?thesis unfolding m x by (simp add: frames_split)
  next
    case False
    then have "block_size k \<le> b" using c by (cases c) auto
    with False show ?thesis unfolding m x by (simp add: frames_split Un_commute)
  qed
qed

section \<open>Reading the invariant\<close>

lemma inv_length: "buddy_inv s \<Longrightarrow> length (orders s) = PMM_MAX_ORDER_NR"
  by (simp add: buddy_inv_def)

lemma inv_mem_start: "buddy_inv s \<Longrightarrow> mem_start s = 0"
  by (simp add: buddy_inv_def)

lemma inv_distinct: "buddy_inv s \<Longrightarrow> k < PMM_MAX_ORDER_NR \<Longrightarrow> distinct (fblocks s k)"
  by (simp add: buddy_inv_def)

lemma inv_count:
  "buddy_inv s \<Longrightarrow> k < PMM_MAX_ORDER_NR \<Longrightarrow> fl_count (orders s ! k) = int (length (fblocks s k))"
  by (simp add: buddy_inv_def)

lemma inv_block_ok: "buddy_inv s \<Longrightarrow> k < PMM_MAX_ORDER_NR \<Longrightarrow> b \<in> set (fblocks s k) \<Longrightarrow> block_ok s k b"
  by (simp add: buddy_inv_def)

lemma inv_block_order:
  "buddy_inv s \<Longrightarrow> k < PMM_MAX_ORDER_NR \<Longrightarrow> b \<in> set (fblocks s k) \<Longrightarrow> block_order s b = int k"
  by (simp add: buddy_inv_def)

lemma inv_disjoint:
  "buddy_inv s \<Longrightarrow> k < PMM_MAX_ORDER_NR \<Longrightarrow> j < PMM_MAX_ORDER_NR \<Longrightarrow> b \<in> set (fblocks s k) \<Longrightarrow>
   c \<in> set (fblocks s j) \<Longrightarrow> (k, b) \<noteq> (j, c) \<Longrightarrow> frames b k \<inter> frames c j = {}"
  unfolding buddy_inv_def by blast

lemma inv_fstate:
  "buddy_inv s \<Longrightarrow> g_fstate s = Some f \<Longrightarrow> k < PMM_MAX_ORDER_NR \<Longrightarrow>
   f n = k + 1 \<longleftrightarrow> n * PAGE_SIZE \<in> set (fblocks s k)"
  unfolding buddy_inv_def by blast

lemma in_free_frames:
  "n \<in> free_frames s \<longleftrightarrow> (\<exists>k b. k < PMM_MAX_ORDER_NR \<and> b \<in> set (fblocks s k) \<and> n \<in> frames b k)"
  unfolding free_frames_def by blast

lemma listed_frames: "k < PMM_MAX_ORDER_NR \<Longrightarrow> b \<in> set (fblocks s k) \<Longrightarrow> frames b k \<subseteq> free_frames s"
  by (auto simp: free_frames_def)

lemma fresh_not_listed:
  assumes "frames b k \<inter> free_frames s = {}" "j < PMM_MAX_ORDER_NR"
  shows "b \<notin> set (fblocks s j)"
  using assms listed_frames [of j b s] first_frame [of b] by blast

lemma block_ok_dvd: "block_ok s k b \<Longrightarrow> block_size k dvd b"
  by (simp add: block_ok_def)

lemma block_ok_page: "block_ok s k b \<Longrightarrow> b div PAGE_SIZE * PAGE_SIZE = b"
  by (auto simp: block_ok_def dest: PAGE_SIZE_dvd_block)

section \<open>Pushing and deleting a block\<close>

lemma fl_push_fields [simp]:
  "mem_end (fl_push k b s) = mem_end s" "mem_start (fl_push k b s) = mem_start s"
  "usable_pages (fl_push k b s) = usable_pages s" "free_pages (fl_push k b s) = free_pages s"
  "total_pages (fl_push k b s) = total_pages s" "hhdm_offset (fl_push k b s) = hhdm_offset s"
  "length (orders (fl_push k b s)) = length (orders s)"
  "block_order (fl_push k b s) = (block_order s)(b := int k)"
  "g_fstate (fl_push k b s) = map_option (\<lambda>f. f(b div PAGE_SIZE := k + 1)) (g_fstate s)"
  by (simp_all add: fl_push_def set_fstate_def Let_def)

lemma fl_del_fields [simp]:
  "mem_end (fl_del k b s) = mem_end s" "mem_start (fl_del k b s) = mem_start s"
  "usable_pages (fl_del k b s) = usable_pages s" "free_pages (fl_del k b s) = free_pages s"
  "total_pages (fl_del k b s) = total_pages s" "hhdm_offset (fl_del k b s) = hhdm_offset s"
  "length (orders (fl_del k b s)) = length (orders s)"
  "block_order (fl_del k b s) = (block_order s)(b := - 1)"
  "g_fstate (fl_del k b s) = map_option (\<lambda>f. f(b div PAGE_SIZE := 0)) (g_fstate s)"
  by (simp_all add: fl_del_def set_fstate_def Let_def)

lemma fl_push_blocks:
  "k < length (orders s) \<Longrightarrow> fblocks (fl_push k b s) j = (if j = k then b # fblocks s k else fblocks s j)"
  by (simp add: fl_push_def set_fstate_def Let_def)

lemma fl_push_count:
  "k < length (orders s) \<Longrightarrow> fl_count (orders (fl_push k b s) ! j) =
    (if j = k then fl_count (orders s ! k) + 1 else fl_count (orders s ! j))"
  by (simp add: fl_push_def set_fstate_def Let_def)

lemma fl_del_blocks:
  "k < length (orders s) \<Longrightarrow> fblocks (fl_del k b s) j = (if j = k then remove1 b (fblocks s k) else fblocks s j)"
  by (simp add: fl_del_def set_fstate_def Let_def)

lemma fl_del_count:
  "k < length (orders s) \<Longrightarrow> fl_count (orders (fl_del k b s) ! j) =
    (if j = k then fl_count (orders s ! k) - 1 else fl_count (orders s ! j))"
  by (simp add: fl_del_def set_fstate_def Let_def)

lemma block_ok_cong [simp]:
  "block_ok (fl_push j c s) k b = block_ok s k b" "block_ok (fl_del j c s) k b = block_ok s k b"
  by (simp_all add: block_ok_def)

lemma fl_push_listed:
  "k < length (orders s) \<Longrightarrow>
   c \<in> set (fblocks (fl_push k b s) j) \<longleftrightarrow> (j = k \<and> c = b) \<or> c \<in> set (fblocks s j)"
  by (auto simp: fl_push_blocks)

lemma fl_push_free_frames:
  assumes "k < PMM_MAX_ORDER_NR" "length (orders s) = PMM_MAX_ORDER_NR"
  shows "free_frames (fl_push k b s) = frames b k \<union> free_frames s"
proof -
  have "k < length (orders s)" using assms by simp
  note li = fl_push_listed [OF this]
  show ?thesis unfolding set_eq_iff Un_iff in_free_frames li using assms(1) by blast
qed

lemma fl_push_inv:
  assumes inv: "buddy_inv s" and k: "k < PMM_MAX_ORDER_NR" and okb: "block_ok s k b"
    and fresh: "frames b k \<inter> free_frames s = {}"
  shows "buddy_inv (fl_push k b s)"
proof -
  have len: "k < length (orders s)" using inv k by (simp add: inv_length)
  note bl = fl_push_blocks [OF len] and co = fl_push_count [OF len]
  have new: "b \<notin> set (fblocks s j)" if "j < PMM_MAX_ORDER_NR" for j
    using fresh_not_listed [OF fresh that] .
  have dis: "frames b k \<inter> frames c j = {}" if "j < PMM_MAX_ORDER_NR" "c \<in> set (fblocks s j)" for c j
    using listed_frames [OF that] fresh by blast
  have old: "frames c i \<inter> frames d j = {}"
    if "i < PMM_MAX_ORDER_NR" "j < PMM_MAX_ORDER_NR" "c \<in> set (fblocks s i)" "d \<in> set (fblocks s j)" "(i, c) \<noteq> (j, d)"
    for i j c d using inv_disjoint [OF inv that] .
  have fs: "(f(b div PAGE_SIZE := k + 1)) n = j + 1 \<longleftrightarrow> n * PAGE_SIZE \<in> set (fblocks (fl_push k b s) j)"
    if "g_fstate s = Some f" "j < PMM_MAX_ORDER_NR" for f n j
  proof (cases "n = b div PAGE_SIZE")
    case True
    with block_ok_page [OF okb] new [OF that(2)] show ?thesis by (auto simp: bl)
  next
    case False
    then have "n * PAGE_SIZE \<noteq> b" by auto
    with False inv_fstate [OF inv that] show ?thesis by (auto simp: bl)
  qed
  show ?thesis
    unfolding buddy_inv_def
  proof (intro conjI allI impI ballI)
    fix i j c d
    assume i: "i < PMM_MAX_ORDER_NR" and j: "j < PMM_MAX_ORDER_NR"
      and c: "c \<in> set (fblocks (fl_push k b s) i)" and d: "d \<in> set (fblocks (fl_push k b s) j)"
      and ne: "(i, c) \<noteq> (j, d)"
    from c d have "(i = k \<and> c = b) \<or> c \<in> set (fblocks s i)" "(j = k \<and> d = b) \<or> d \<in> set (fblocks s j)"
      by (auto simp: bl split: if_splits)
    with ne old [OF i j _ _ ne] dis [OF j] dis [OF i] show "frames c i \<inter> frames d j = {}"
      by blast
  next
    fix f n j assume "g_fstate (fl_push k b s) = Some f" "j < PMM_MAX_ORDER_NR"
    then show "f n = j + 1 \<longleftrightarrow> n * PAGE_SIZE \<in> set (fblocks (fl_push k b s) j)"
      using fs by auto
  next
    fix j c assume j: "j < PMM_MAX_ORDER_NR" and c: "c \<in> set (fblocks (fl_push k b s) j)"
    show "block_ok (fl_push k b s) j c"
      using c okb inv_block_ok [OF inv j] by (auto simp: bl split: if_splits)
    show "block_order (fl_push k b s) c = int j"
      using c new [OF j] inv_block_order [OF inv j] by (auto simp: bl split: if_splits)
  qed (use inv new in \<open>auto simp: bl co inv_length inv_mem_start inv_distinct inv_count\<close>)
qed

lemma fl_del_listed:
  assumes inv: "buddy_inv s" and k: "k < PMM_MAX_ORDER_NR" and b: "b \<in> set (fblocks s k)"
    and j: "j < PMM_MAX_ORDER_NR"
  shows "c \<in> set (fblocks (fl_del k b s) j) \<longleftrightarrow> c \<in> set (fblocks s j) \<and> c \<noteq> b"
proof (cases "j = k")
  case True
  with inv k show ?thesis by (auto simp: fl_del_blocks inv_length inv_distinct)
next
  case False
  then have "b \<notin> set (fblocks s j)"
    using inv_disjoint [OF inv k j b, of b] first_frame [of b k] first_frame [of b j] by blast
  with False inv k show ?thesis by (auto simp: fl_del_blocks inv_length)
qed

lemma fl_del_free_frames:
  assumes inv: "buddy_inv s" and k: "k < PMM_MAX_ORDER_NR" and b: "b \<in> set (fblocks s k)"
  shows "free_frames (fl_del k b s) = free_frames s - frames b k"
proof -
  have dis: "frames c j \<inter> frames b k = {}"
    if "j < PMM_MAX_ORDER_NR" "c \<in> set (fblocks s j)" "c \<noteq> b" for c j
    using inv_disjoint [OF inv that(1) k that(2) b] that(3) by blast
  have eq: "j = k" if "j < PMM_MAX_ORDER_NR" "b \<in> set (fblocks s j)" for j
    using inv_disjoint [OF inv that(1) k that(2) b] first_frame [of b k] first_frame [of b j] by blast
  show ?thesis
  proof (rule set_eqI)
    fix n
    have "n \<in> free_frames (fl_del k b s) \<longleftrightarrow>
        (\<exists>j c. j < PMM_MAX_ORDER_NR \<and> c \<in> set (fblocks s j) \<and> c \<noteq> b \<and> n \<in> frames c j)"
      unfolding in_free_frames using fl_del_listed [OF inv k b] by blast
    also have "\<dots> \<longleftrightarrow> n \<in> free_frames s \<and> n \<notin> frames b k"
      unfolding in_free_frames using dis eq by (metis disjoint_iff)
    finally show "n \<in> free_frames (fl_del k b s) \<longleftrightarrow> n \<in> free_frames s - frames b k" by simp
  qed
qed

lemma fl_del_inv:
  assumes inv: "buddy_inv s" and k: "k < PMM_MAX_ORDER_NR" and b: "b \<in> set (fblocks s k)"
  shows "buddy_inv (fl_del k b s)"
proof -
  note li = fl_del_listed [OF inv k b]
  have len: "k < length (orders s)" using inv k by (simp add: inv_length)
  have okb: "block_ok s k b" using inv_block_ok [OF inv k b] .
  have dis: "distinct (fblocks (fl_del k b s) j)" if "j < PMM_MAX_ORDER_NR" for j
    using inv_distinct [OF inv that] by (auto simp: fl_del_blocks [OF len] distinct_remove1)
  have cnt: "fl_count (orders (fl_del k b s) ! j) = int (length (fblocks (fl_del k b s) j))"
    if "j < PMM_MAX_ORDER_NR" for j
    using inv_count [OF inv that] b length_pos_if_in_set [OF b]
    by (auto simp: fl_del_blocks [OF len] fl_del_count [OF len] length_remove1 of_nat_diff Suc_le_eq)
  have fs: "(f(b div PAGE_SIZE := 0)) n = j + 1 \<longleftrightarrow> n * PAGE_SIZE \<in> set (fblocks (fl_del k b s) j)"
    if "g_fstate s = Some f" "j < PMM_MAX_ORDER_NR" for f n j
  proof (cases "n = b div PAGE_SIZE")
    case True
    with block_ok_page [OF okb] show ?thesis by (simp add: li [OF that(2)])
  next
    case False
    then have "n * PAGE_SIZE \<noteq> b" by auto
    with False inv_fstate [OF inv that] show ?thesis by (simp add: li [OF that(2)])
  qed
  show ?thesis
    unfolding buddy_inv_def
  proof (intro conjI allI impI ballI)
    fix i j c d
    assume i: "i < PMM_MAX_ORDER_NR" and j: "j < PMM_MAX_ORDER_NR"
      and "c \<in> set (fblocks (fl_del k b s) i)" "d \<in> set (fblocks (fl_del k b s) j)" "(i, c) \<noteq> (j, d)"
    then show "frames c i \<inter> frames d j = {}"
      using inv_disjoint [OF inv i j] by (simp add: li [OF i] li [OF j])
  next
    fix f n j assume "g_fstate (fl_del k b s) = Some f" "j < PMM_MAX_ORDER_NR"
    then show "f n = j + 1 \<longleftrightarrow> n * PAGE_SIZE \<in> set (fblocks (fl_del k b s) j)"
      using fs by auto
  next
    fix j c assume j: "j < PMM_MAX_ORDER_NR" and c: "c \<in> set (fblocks (fl_del k b s) j)"
    show "block_ok (fl_del k b s) j c" "block_order (fl_del k b s) c = int j"
      using c inv_block_ok [OF inv j] inv_block_order [OF inv j] by (simp_all add: li [OF j])
  qed (use inv dis cnt in \<open>simp_all add: inv_length inv_mem_start\<close>)
qed

text \<open>The invariant does not read the counters, and only reads the headers of listed blocks.\<close>

lemma buddy_inv_counters [simp]:
  "buddy_inv (s\<lparr>free_pages := x\<rparr>) = buddy_inv s"
  "buddy_inv (s\<lparr>alloc_count := y\<rparr>) = buddy_inv s"
  "buddy_inv (s\<lparr>free_count := y\<rparr>) = buddy_inv s"
  by (simp_all add: buddy_inv_def block_ok_def)

lemma free_frames_counters [simp]:
  "free_frames (s\<lparr>free_pages := x\<rparr>) = free_frames s"
  "free_frames (s\<lparr>alloc_count := y\<rparr>) = free_frames s"
  "free_frames (s\<lparr>free_count := y\<rparr>) = free_frames s"
  "free_frames (s\<lparr>block_order := z\<rparr>) = free_frames s"
  by (simp_all add: free_frames_def)

lemma buddy_inv_header:
  assumes "buddy_inv s" "\<And>k. k < PMM_MAX_ORDER_NR \<Longrightarrow> b \<notin> set (fblocks s k)"
  shows "buddy_inv (s\<lparr>block_order := (block_order s)(b := x)\<rparr>)"
  using assms unfolding buddy_inv_def block_ok_def by (auto simp: fun_upd_def)

section \<open>Splitting\<close>

lemma split_block_fields [simp]:
  "mem_end (split_block b found ord s) = mem_end s"
  "usable_pages (split_block b found ord s) = usable_pages s"
  "free_pages (split_block b found ord s) = free_pages s"
  "hhdm_offset (split_block b found ord s) = hhdm_offset s"
  by (induction b found ord s rule: split_block.induct) simp_all

lemma block_ok_half:
  assumes "block_ok s (Suc k) b"
  shows "block_ok s k b" "block_ok s k (b + block_size k)"
  using assms by (auto simp: block_ok_def block_size_Suc intro: dvd_mult_right dvd_add)

text \<open>
  Splitting a block that is not in the lists down to order \<open>ord\<close> adds every frame of it except
  those of the part that is kept.
\<close>

lemma split_block_correct:
  assumes "buddy_inv s" "found < PMM_MAX_ORDER_NR" "ord \<le> found" "block_ok s found b"
    and "frames b found \<inter> free_frames s = {}"
  shows "buddy_inv (split_block b found ord s) \<and>
    free_frames (split_block b found ord s) = free_frames s \<union> (frames b found - frames b ord)"
  using assms
proof (induction b found ord s rule: split_block.induct)
  case (2 b k ord s)
  show ?case
  proof (cases "Suc k > ord")
    case True
    let ?h = "b + block_size k"
    let ?s1 = "fl_push k ?h s"
    note half = block_ok_half [OF "2.prems"(4)]
    have k: "k < PMM_MAX_ORDER_NR" using "2.prems"(2) by simp
    have h: "frames ?h k \<inter> free_frames s = {}" and b: "frames b k \<inter> free_frames s = {}"
      using "2.prems"(5) by (auto simp: frames_split)
    have inv1: "buddy_inv ?s1" by (rule fl_push_inv [OF "2.prems"(1) k half(2) h])
    have ff1: "free_frames ?s1 = frames ?h k \<union> free_frames s"
      using fl_push_free_frames [OF k] "2.prems"(1) by (simp add: inv_length)
    have "buddy_inv (split_block b k ord ?s1) \<and>
        free_frames (split_block b k ord ?s1) = free_frames ?s1 \<union> (frames b k - frames b ord)"
    proof (rule "2.IH" [unfolded block_size_def [symmetric], OF True inv1 k])
      show "ord \<le> k" using True by simp
      show "block_ok ?s1 k b" using half by simp
      show "frames b k \<inter> free_frames ?s1 = {}"
        using b frames_halves_disjoint [of b k] by (auto simp: ff1)
    qed
    moreover have "frames ?h k \<inter> frames b ord = {}"
      using frames_mono [of ord k b] frames_halves_disjoint [of b k] True by auto
    moreover have "split_block b (Suc k) ord s = split_block b k ord ?s1"
      using True by (simp add: block_size_def)
    ultimately show ?thesis unfolding frames_split ff1 by auto
  next
    case False
    with "2.prems" show ?thesis by (simp add: le_less_Suc_eq)
  qed
qed simp

section \<open>Allocation\<close>

lemma find_order_SomeD:
  assumes "List.find (\<lambda>k. fblocks s k \<noteq> []) [ord..<PMM_MAX_ORDER_NR] = Some found"
  shows "ord \<le> found" "found < PMM_MAX_ORDER_NR" "fblocks s found \<noteq> []"
  using assms by (auto simp: find_Some_iff)

text \<open>Taking a listed block of order \<open>found\<close> and giving back what is above order \<open>ord\<close>.\<close>

lemma take_block_correct:
  assumes inv: "buddy_inv s" and found: "found < PMM_MAX_ORDER_NR" and "ord \<le> found"
    and b: "b \<in> set (fblocks s found)"
  shows "buddy_inv (split_block b found ord (fl_del found b s))"
    and "free_frames (split_block b found ord (fl_del found b s)) = free_frames s - frames b ord"
    and "frames b ord \<subseteq> free_frames s" "block_ok s ord b"
proof -
  let ?s1 = "fl_del found b s"
  have okb: "block_ok s found b" by (rule inv_block_ok [OF inv found b])
  have ff: "free_frames ?s1 = free_frames s - frames b found" by (rule fl_del_free_frames [OF inv found b])
  have sub: "frames b found \<subseteq> free_frames s" by (rule listed_frames [OF found b])
  have "frames b ord \<subseteq> frames b found" by (rule frames_mono [OF assms(3)])
  moreover have "buddy_inv (split_block b found ord ?s1) \<and>
      free_frames (split_block b found ord ?s1) = free_frames ?s1 \<union> (frames b found - frames b ord)"
    by (rule split_block_correct [OF fl_del_inv [OF inv found b] found assms(3)]) (use okb ff in auto)
  ultimately show "buddy_inv (split_block b found ord ?s1)" "frames b ord \<subseteq> free_frames s"
    "free_frames (split_block b found ord ?s1) = free_frames s - frames b ord"
    using sub ff by auto
  have "block_size ord dvd block_size found" using assms(3) by (simp add: block_size_def le_imp_power_dvd)
  moreover have "block_size ord \<le> block_size found" using assms(3) by (simp add: block_size_def)
  ultimately show "block_ok s ord b" using okb by (auto simp: block_ok_def intro: dvd_trans)
qed

lemma block_ok_bounds: "block_ok s k b \<Longrightarrow> 0 < b \<and> b < mem_end s"
  using block_size_pos [of k] unfolding block_ok_def PMM_FREE_MIN_PHYS_def by linarith

lemma valid_listed: "buddy_inv s \<Longrightarrow> k < PMM_MAX_ORDER_NR \<Longrightarrow> b \<in> set (fblocks s k) \<Longrightarrow> block_ptr_valid s b"
  using inv_block_ok [of s k b] block_ok_bounds [of s k b] PAGE_SIZE_dvd_block [of k b]
  by (auto simp: block_ptr_valid_def block_ok_def inv_mem_start)

text \<open>The corruption branch is dead under the invariant; the result is found or there is nothing.\<close>

lemma buddy_alloc_order_cases:
  assumes inv: "buddy_inv s"
  obtains (none) "buddy_alloc_order ord s = (0, s)" "\<forall>k\<in>{ord..<PMM_MAX_ORDER_NR}. fblocks s k = []"
  | (some) found b where "ord \<le> found" "found < PMM_MAX_ORDER_NR" "b \<in> set (fblocks s found)"
      "buddy_alloc_order ord s = (let s1 = split_block b found ord (fl_del found b s)
         in (b, s1\<lparr>free_pages := free_pages s1 - 2 ^ ord\<rparr>))"
proof (cases "List.find (\<lambda>k. fblocks s k \<noteq> []) [ord..<PMM_MAX_ORDER_NR]")
  case None
  with none show thesis by (simp add: buddy_alloc_order_def find_None_iff)
next
  case (Some found)
  note f = find_order_SomeD [OF Some]
  then obtain b bs where bs: "fblocks s found = b # bs" by (cases "fblocks s found") auto
  have "block_ptr_valid s (hd bs)" if "bs \<noteq> []"
    using valid_listed [OF inv f(2)] bs that by simp
  then have "buddy_alloc_order ord s = (let s1 = split_block b found ord (fl_del found b s)
      in (b, s1\<lparr>free_pages := free_pages s1 - 2 ^ ord\<rparr>))"
    using bs Some by (auto simp: buddy_alloc_order_def)
  with some [OF f(1,2)] bs show thesis by simp
qed

lemma buddy_alloc_order_correct:
  assumes inv: "buddy_inv s" and al: "buddy_alloc_order ord s = (b, s')"
  shows "buddy_inv s' \<and> mem_end s' = mem_end s \<and> hhdm_offset s' = hhdm_offset s \<and>
    usable_pages s' = usable_pages s \<and>
    (if b = 0 then s' = s \<and> (\<forall>k\<in>{ord..<PMM_MAX_ORDER_NR}. fblocks s k = [])
     else block_ok s ord b \<and> frames b ord \<subseteq> free_frames s \<and>
          free_frames s' = free_frames s - frames b ord \<and> free_pages s' = free_pages s - 2 ^ ord)"
  using inv
proof (cases rule: buddy_alloc_order_cases [of s ord])
  case none
  with al inv show ?thesis by simp
next
  case (some found c)
  let ?s1 = "split_block c found ord (fl_del found c s)"
  note t = take_block_correct [OF inv some(2,1,3)]
  from some(4) al have "b = c" and "s' = ?s1\<lparr>free_pages := free_pages ?s1 - 2 ^ ord\<rparr>"
    by (simp_all add: Let_def)
  with t block_ok_bounds [OF t(4)] show ?thesis by simp
qed

section \<open>Freeing\<close>

lemma fl_walk_SomeD: "fl_walk s phys limit bs = Some b \<Longrightarrow> b = phys \<and> phys \<in> set bs"
  by (induction s phys limit bs rule: fl_walk.induct) (auto split: if_splits)

lemma fl_find_SomeD:
  assumes inv: "buddy_inv s" and k: "k < PMM_MAX_ORDER_NR" and "PAGE_SIZE dvd phys"
    and "fl_find k phys s = Some b"
  shows "b = phys \<and> phys \<in> set (fblocks s k)"
proof (cases "g_fstate s")
  case None
  with assms(4) show ?thesis by (auto simp: fl_find_def dest: fl_walk_SomeD)
next
  case (Some f)
  with assms(4) have "b = phys" "f (phys div PAGE_SIZE) = k + 1"
    by (auto simp: fl_find_def split: if_splits)
  with inv_fstate [OF inv Some k, of "phys div PAGE_SIZE"] assms(3) show ?thesis by simp
qed

lemma buddy_coalesce_step:
  "ord < PMM_MAX_ORDER \<Longrightarrow> fl_find ord (b XOR block_size ord) s = Some (b XOR block_size ord) \<Longrightarrow>
   PMM_FREE_MIN_PHYS \<le> b XOR block_size ord \<Longrightarrow> b XOR block_size ord < mem_end s \<Longrightarrow> mem_start s = 0 \<Longrightarrow>
   block_order s (b XOR block_size ord) = int ord \<Longrightarrow>
   buddy_coalesce b ord s = buddy_coalesce (min b (b XOR block_size ord)) (Suc ord) (fl_del ord (b XOR block_size ord) s)"
  by (subst buddy_coalesce.simps) (simp add: Let_def min_def not_le block_size_def)

text \<open>One round of the loop either stops or merges the block with its free buddy.\<close>

lemma buddy_coalesce_cases:
  assumes inv: "buddy_inv s" and "block_size ord dvd b"
  obtains (stop) "buddy_coalesce b ord s = (b, ord, s)"
  | (merge) "ord < PMM_MAX_ORDER" "b XOR block_size ord \<in> set (fblocks s ord)"
      "buddy_coalesce b ord s =
         buddy_coalesce (min b (b XOR block_size ord)) (Suc ord) (fl_del ord (b XOR block_size ord) s)"
proof (cases "buddy_coalesce b ord s = (b, ord, s)")
  case False
  let ?c = "b XOR block_size ord"
  from False have ord: "ord < PMM_MAX_ORDER" and bnd: "PMM_FREE_MIN_PHYS \<le> ?c" "?c < mem_end s"
    and ex: "\<exists>d. fl_find ord ?c s = Some d \<and> block_order s d = int ord"
    by (subst (asm) buddy_coalesce.simps;
        simp add: Let_def block_size_def split: if_splits option.splits)+
  from ex obtain d where d: "fl_find ord ?c s = Some d" "block_order s d = int ord" by blast
  have "PAGE_SIZE dvd ?c"
    using buddy_min_aligned(3) [OF assms(2)] by (rule PAGE_SIZE_dvd_block)
  moreover have "ord < PMM_MAX_ORDER_NR" using ord by (simp add: PMM_MAX_ORDER_NR_def)
  ultimately have c: "d = ?c" "?c \<in> set (fblocks s ord)" using fl_find_SomeD [OF inv _ _ d(1)] by blast+
  show thesis
    using merge [OF ord c(2)] buddy_coalesce_step [of ord b s] ord bnd d inv
    by (simp add: inv_mem_start c)
qed (rule stop)

text \<open>Merging with a listed buddy gives an allowed block of the next order.\<close>

lemma block_ok_merge:
  assumes b: "block_ok s k b" and c: "block_ok s k (b XOR block_size k)"
  shows "block_ok s (Suc k) (min b (b XOR block_size k))"
proof -
  note x = buddy_xor [OF block_ok_dvd [OF b]]
  have "min b (b XOR block_size k) + block_size (Suc k) \<le> mem_end s"
  proof (cases "even (b div block_size k)")
    case True
    with x c show ?thesis by (simp add: block_ok_def block_size_Suc)
  next
    case False
    then have "block_size k \<le> b" by (metis div_less even_zero not_le)
    with False x b show ?thesis by (simp add: block_ok_def block_size_Suc)
  qed
  with b c buddy_min_aligned(1) [OF block_ok_dvd [OF b]] show ?thesis by (simp add: block_ok_def)
qed

definition same_counters :: "pmm_state \<Rightarrow> pmm_state \<Rightarrow> bool" where
  "same_counters s s' \<longleftrightarrow> mem_end s' = mem_end s \<and> hhdm_offset s' = hhdm_offset s \<and>
     usable_pages s' = usable_pages s \<and> free_pages s' = free_pages s"

lemma buddy_coalesce_correct:
  assumes "buddy_inv s" "block_ok s ord b" "frames b ord \<inter> free_frames s = {}"
    and "ord < PMM_MAX_ORDER_NR" "buddy_coalesce b ord s = (p, k, s1)"
  shows "buddy_inv s1 \<and> ord \<le> k \<and> k < PMM_MAX_ORDER_NR \<and> block_ok s1 k p \<and>
    frames p k \<inter> free_frames s1 = {} \<and>
    frames p k \<union> free_frames s1 = frames b ord \<union> free_frames s \<and> same_counters s s1"
  using assms
proof (induction "PMM_MAX_ORDER - ord" arbitrary: b ord s)
  case (0 ord b s)
  then have "buddy_coalesce b ord s = (b, ord, s)" by (subst buddy_coalesce.simps) simp
  with 0 show ?case by (auto simp: same_counters_def)
next
  case (Suc m ord b s)
  note inv = Suc.prems(1) and okb = Suc.prems(2) and fresh = Suc.prems(3) and ord = Suc.prems(4)
  show ?case
  proof (cases rule: buddy_coalesce_cases [OF inv block_ok_dvd [OF okb]])
    case 1
    with Suc.prems show ?thesis by (auto simp: same_counters_def)
  next
    case 2
    let ?c = "b XOR block_size ord"
    let ?m = "min b ?c"
    let ?s2 = "fl_del ord ?c s"
    note c = "2"(2) and al = buddy_min_aligned [OF block_ok_dvd [OF okb]]
    have ff: "free_frames ?s2 = free_frames s - frames ?c ord" by (rule fl_del_free_frames [OF inv ord c])
    have sub: "frames ?c ord \<subseteq> free_frames s" by (rule listed_frames [OF ord c])
    have "buddy_inv s1 \<and> Suc ord \<le> k \<and> k < PMM_MAX_ORDER_NR \<and> block_ok s1 k p \<and>
      frames p k \<inter> free_frames s1 = {} \<and>
      frames p k \<union> free_frames s1 = frames ?m (Suc ord) \<union> free_frames ?s2 \<and> same_counters ?s2 s1"
    proof (rule Suc.hyps(1))
      show "m = PMM_MAX_ORDER - Suc ord" using Suc.hyps(2) by simp
      show "buddy_inv ?s2" by (rule fl_del_inv [OF inv ord c])
      show "block_ok ?s2 (Suc ord) ?m"
        using block_ok_merge [OF okb inv_block_ok [OF inv ord c]] by simp
      show "frames ?m (Suc ord) \<inter> free_frames ?s2 = {}" using fresh by (auto simp: al(2) ff)
      show "Suc ord < PMM_MAX_ORDER_NR" using "2"(1) by (simp add: PMM_MAX_ORDER_NR_def)
      show "buddy_coalesce ?m (Suc ord) ?s2 = (p, k, s1)" using "2"(3) Suc.prems(5) by simp
    qed
    moreover have "frames ?m (Suc ord) \<union> free_frames ?s2 = frames b ord \<union> free_frames s"
      using sub by (auto simp: al(2) ff)
    ultimately show ?thesis by (simp add: same_counters_def)
  qed
qed

lemma clamp_free_pages_simps [simp]:
  "buddy_inv (clamp_free_pages n s) = buddy_inv s"
  "free_frames (clamp_free_pages n s) = free_frames s"
  "mem_end (clamp_free_pages n s) = mem_end s" "hhdm_offset (clamp_free_pages n s) = hhdm_offset s"
  "usable_pages (clamp_free_pages n s) = usable_pages s"
  "free_pages (clamp_free_pages n s) = min (int (usable_pages s)) (free_pages s + n)"
  by (simp_all add: clamp_free_pages_def Let_def min_def)

lemma buddy_free_order_correct:
  assumes inv: "buddy_inv s" and okb: "block_ok s ord b" and fresh: "frames b ord \<inter> free_frames s = {}"
    and ord: "ord < PMM_MAX_ORDER_NR"
  shows "buddy_inv (buddy_free_order b ord s) \<and>
    free_frames (buddy_free_order b ord s) = frames b ord \<union> free_frames s \<and>
    mem_end (buddy_free_order b ord s) = mem_end s \<and>
    hhdm_offset (buddy_free_order b ord s) = hhdm_offset s \<and>
    usable_pages (buddy_free_order b ord s) = usable_pages s \<and>
    (\<exists>k\<ge>ord. free_pages (buddy_free_order b ord s) = min (int (usable_pages s)) (free_pages s + 2 ^ k))"
proof -
  obtain p k s1 where co: "buddy_coalesce b ord s = (p, k, s1)" by (metis prod_cases3)
  note c = buddy_coalesce_correct [OF inv okb fresh ord co]
  then have "buddy_inv (fl_push k p s1)" by (intro fl_push_inv) auto
  moreover have "free_frames (fl_push k p s1) = frames p k \<union> free_frames s1"
    using c by (intro fl_push_free_frames) (auto simp: inv_length)
  moreover have "buddy_free_order b ord s = clamp_free_pages (2 ^ k) (fl_push k p s1)"
    using okb co by (simp add: buddy_free_order_def block_ok_def)
  ultimately show ?thesis using c by (auto simp: same_counters_def)
qed

text \<open>When the buddy is free the counter is raised by the size of the merged block.\<close>

lemma buddy_coalesce_ge: "buddy_coalesce b ord s = (p, k, s1) \<Longrightarrow> ord \<le> k"
proof (induction b ord s rule: buddy_coalesce.induct)
  case (1 phys ord s)
  show ?case
    using "1.prems" by (subst (asm) buddy_coalesce.simps)
      (auto simp: Let_def split: if_splits option.splits dest!: "1.IH" [OF _ refl, rotated 3])
qed

lemma buddy_free_order_merge:
  assumes inv: "buddy_inv s" and okb: "block_ok s ord b" and fresh: "frames b ord \<inter> free_frames s = {}"
    and ord: "ord < PMM_MAX_ORDER" and fs: "g_fstate s = Some f"
    and buddy: "b XOR block_size ord \<in> set (fblocks s ord)"
  shows "\<exists>k>ord. free_pages (buddy_free_order b ord s) = min (int (usable_pages s)) (free_pages s + 2 ^ k)"
proof -
  let ?c = "b XOR block_size ord"
  have ord': "ord < PMM_MAX_ORDER_NR" using ord by (simp add: PMM_MAX_ORDER_NR_def)
  note okc = inv_block_ok [OF inv ord' buddy] and bo = inv_block_order [OF inv ord' buddy]
  have "?c div PAGE_SIZE * PAGE_SIZE = ?c" using PAGE_SIZE_dvd_block [OF block_ok_dvd [OF okc]] by simp
  then have "fl_find ord ?c s = Some ?c"
    using inv_fstate [OF inv fs ord', of "?c div PAGE_SIZE"] buddy block_ok_bounds [OF okc] fs inv
    by (simp add: fl_find_def inv_mem_start)
  then have st: "buddy_coalesce b ord s = buddy_coalesce (min b ?c) (Suc ord) (fl_del ord ?c s)"
    using ord okc bo block_ok_bounds [OF okc] inv
    by (intro buddy_coalesce_step) (auto simp: block_ok_def inv_mem_start)
  obtain p k s1 where co: "buddy_coalesce b ord s = (p, k, s1)" by (metis prod_cases3)
  then have "Suc ord \<le> k" using buddy_coalesce_ge st by metis
  moreover have "buddy_free_order b ord s = clamp_free_pages (2 ^ k) (fl_push k p s1)"
    using okb co by (simp add: buddy_free_order_def block_ok_def)
  ultimately show ?thesis
    using buddy_coalesce_correct [OF inv okb fresh ord' co]
    by (intro exI [of _ k]) (auto simp: same_counters_def)
qed

section \<open>The frame-state array\<close>

lemma page_is_free_iff:
  assumes inv: "buddy_inv s" and fs: "g_fstate s = Some f" and lt: "phys < mem_end s"
  shows "page_is_free phys s \<longleftrightarrow> phys div PAGE_SIZE \<in> free_frames s"
proof -
  let ?head = "\<lambda>k. phys div block_size k * block_size k"
  have head: "f (?head k div PAGE_SIZE) = k + 1 \<longleftrightarrow> ?head k \<in> set (fblocks s k)"
    if "k < PMM_MAX_ORDER_NR" for k
  proof -
    have "?head k div PAGE_SIZE * PAGE_SIZE = ?head k"
      by (simp add: PAGE_SIZE_dvd_block [of k])
    with inv_fstate [OF inv fs that, of "?head k div PAGE_SIZE"] show ?thesis by simp
  qed
  have in_head: "phys div PAGE_SIZE \<in> frames b k \<longleftrightarrow> b = ?head k"
    if "k < PMM_MAX_ORDER_NR" "b \<in> set (fblocks s k)" for b k
  proof -
    have d: "block_size k dvd b" using inv_block_ok [OF inv that] by (rule block_ok_dvd)
    then have "phys div PAGE_SIZE \<in> frames b k \<longleftrightarrow> phys div block_size k = b div block_size k"
      by (simp add: frames_iff_div block_size_def div_mult2_eq)
    also have "\<dots> \<longleftrightarrow> b = ?head k" using d by auto
    finally show ?thesis .
  qed
  have "page_is_free phys s \<longleftrightarrow> (\<exists>k<PMM_MAX_ORDER_NR. ?head k < mem_end s \<and> ?head k \<in> set (fblocks s k))"
    using head inv fs
    by (auto simp: page_is_free_def list_ex_iff inv_mem_start Let_def block_size_def not_le)
  also have "\<dots> \<longleftrightarrow> (\<exists>k<PMM_MAX_ORDER_NR. ?head k \<in> set (fblocks s k))"
    using lt by (meson div_times_less_eq_dividend le_less_trans)
  also have "\<dots> \<longleftrightarrow> phys div PAGE_SIZE \<in> free_frames s"
    unfolding in_free_frames using in_head by blast
  finally show ?thesis .
qed

lemma page_is_free_sub:
  assumes "buddy_inv s" "phys < mem_end s" "phys div PAGE_SIZE \<notin> free_frames s"
  shows "\<not> page_is_free phys s"
proof (cases "g_fstate s")
  case (Some f)
  with assms page_is_free_iff show ?thesis by blast
qed (simp add: page_is_free_def)

section \<open>Counting free pages\<close>

lemma finite_free_frames [simp]: "finite (free_frames s)"
  by (simp add: free_frames_def)

lemma card_free_frames:
  assumes inv: "buddy_inv s"
  shows "int (card (free_frames s)) = pmm_get_free_pages s"
proof -
  let ?B = "SIGMA k:{..<PMM_MAX_ORDER_NR}. set (fblocks s k)"
  have "free_frames s = (\<Union>(k, b)\<in>?B. frames b k)" by (auto simp: free_frames_def)
  moreover have "card (\<Union>x\<in>?B. case x of (k, b) \<Rightarrow> frames b k) =
      (\<Sum>x\<in>?B. card (case x of (k, b) \<Rightarrow> frames b k))"
    using inv_disjoint [OF inv] by (intro card_UN_disjoint) auto
  moreover have "\<dots> = (\<Sum>(k, b)\<in>?B. 2 ^ k)" by (rule sum.cong) auto
  moreover have "\<dots> = (\<Sum>k<PMM_MAX_ORDER_NR. \<Sum>b\<in>set (fblocks s k). 2 ^ k)"
    by (subst sum.Sigma) auto
  moreover have "\<dots> = (\<Sum>k<PMM_MAX_ORDER_NR. length (fblocks s k) * 2 ^ k)"
    by (rule sum.cong) (auto simp: distinct_card inv_distinct [OF inv])
  moreover have "int \<dots> = pmm_get_free_pages s"
    by (simp add: pmm_get_free_pages_def sum_list_distinct_conv_sum_set lessThan_atLeast0 inv_count [OF inv])
  ultimately show ?thesis by simp
qed

section \<open>Orders from page counts\<close>

lemma word_pow2_less: "k < 64 \<Longrightarrow> (2 ^ k :: u64) < n \<longleftrightarrow> 2 ^ k < unat n"
  by (simp add: word_less_nat_alt unat_pow2)

lemma push_bit_pow2: "push_bit 1 (2 ^ k :: u64) = 2 ^ Suc k"
  by (simp add: push_bit_eq_mult)

text \<open>Up to \<open>2 ^ 63\<close> pages the doubling loop stops at the first sufficient power of two.\<close>

lemma pages_to_order_loop_Some:
  assumes "unat pages \<le> 2 ^ 63" "k \<le> 63" "\<forall>i<k. 2 ^ i < unat pages"
  shows "\<exists>j\<ge>k. pages_to_order_loop pages (2 ^ k) k = Some j \<and> unat pages \<le> 2 ^ j \<and>
    (\<forall>i<j. 2 ^ i < unat pages)"
  using assms(2,3)
proof (induction "63 - k" arbitrary: k)
  case 0
  then have k: "k = 63" by simp
  with assms(1) have "\<not> (2 ^ k :: u64) < pages" by (simp add: word_less_nat_alt not_less)
  with 0 k assms(1) show ?case by (subst pages_to_order_loop.simps) simp
next
  case (Suc m)
  show ?case
  proof (cases "2 ^ k < unat pages")
    case True
    have "\<exists>j\<ge>Suc k. pages_to_order_loop pages (2 ^ Suc k) (Suc k) = Some j \<and> unat pages \<le> 2 ^ j \<and>
        (\<forall>i<j. 2 ^ i < unat pages)"
      using Suc.hyps(2) Suc.prems True by (intro Suc.hyps(1)) (auto simp: less_Suc_eq)
    moreover have "pages_to_order_loop pages (2 ^ k) k = pages_to_order_loop pages (2 ^ Suc k) (Suc k)"
      using True Suc.prems by (subst pages_to_order_loop.simps) (simp add: word_pow2_less push_bit_eq_mult mult.commute)
    ultimately show ?thesis by auto
  next
    case False
    with Suc.prems show ?thesis
      by (subst pages_to_order_loop.simps) (auto simp: word_pow2_less not_less)
  qed
qed

lemma pages_to_order_Some:
  assumes "unat pages \<le> 2 ^ 63"
  shows "\<exists>j. pages_to_order pages = Some (if j > PMM_MAX_ORDER then - 1 else int j) \<and>
    unat pages \<le> 2 ^ j \<and> (\<forall>i<j. 2 ^ i < unat pages)"
  using pages_to_order_loop_Some [OF assms, of 0] by (auto simp: pages_to_order_def)

lemma pages_to_order_ge0:
  assumes "unat pages \<le> 2 ^ 63" "pages_to_order pages = Some ord" "0 \<le> ord"
  shows "nat ord < PMM_MAX_ORDER_NR" "unat pages \<le> 2 ^ nat ord"
  using pages_to_order_Some [OF assms(1)] assms(2,3)
  by (auto simp: PMM_MAX_ORDER_NR_def split: if_splits)

text \<open>Above \<open>2 ^ 63\<close> pages the doubled capacity wraps to 0 and the loop never ends.\<close>

lemma pages_to_order_loop_bound:
  assumes "pages_to_order_loop pages cap k = Some r" "cap = 0 \<or> (\<exists>i<64. cap = 2 ^ i)"
  shows "unat pages \<le> 2 ^ 63"
proof (rule pages_to_order_loop.raw_induct [OF _ assms(1),
      where P = "\<lambda>pages cap k r. (cap = 0 \<or> (\<exists>i<64. cap = 2 ^ i)) \<longrightarrow> unat pages \<le> 2 ^ 63",
      THEN mp, OF _ assms(2)], intro impI)
  fix f and pages cap :: u64 and k r
  assume IH: "\<And>pages cap k r. f pages cap k = Some r \<Longrightarrow>
      (cap = 0 \<or> (\<exists>i<64. cap = 2 ^ i)) \<longrightarrow> unat pages \<le> 2 ^ 63"
    and eq: "(if cap < pages then f pages (push_bit 1 cap) (k + 1) else Some k) = Some r"
    and cap: "cap = 0 \<or> (\<exists>i<64. cap = 2 ^ i)"
  show "unat pages \<le> 2 ^ 63"
  proof (cases "cap < pages")
    case True
    have "push_bit 1 cap = 0 \<or> (\<exists>i<64. push_bit 1 cap = (2 ^ i :: u64))"
    proof (cases "cap = 0")
      case False
      with cap obtain i where i: "i < 64" "cap = 2 ^ i" by blast
      show ?thesis
      proof (cases "i = 63")
        case True
        with i show ?thesis by (simp add: push_bit_eq_mult)
      next
        case False
        with i show ?thesis by (intro disjI2 exI [of _ "Suc i"]) (simp add: push_bit_pow2)
      qed
    qed simp
    moreover from eq True have "f pages (push_bit 1 cap) (k + 1) = Some r" by simp
    ultimately show ?thesis using IH by blast
  next
    case False
    then have "unat pages \<le> unat cap" by (simp add: word_le_nat_alt not_less)
    also have "unat cap \<le> 2 ^ 63"
    proof (cases "cap = 0")
      case nz: False
      with cap obtain i where i: "i < 64" "cap = 2 ^ i" by blast
      then have "unat cap = 2 ^ i" by (simp add: unat_pow2)
      moreover have "(2 :: nat) ^ i \<le> 2 ^ 63" using i(1) by (intro power_increasing) auto
      ultimately show ?thesis by simp
    qed simp
    finally show ?thesis .
  qed
qed

lemma pages_to_order_hang_iff: "pages_to_order pages = None \<longleftrightarrow> 2 ^ 63 < unat pages"
proof
  assume "pages_to_order pages = None"
  then have "\<not> unat pages \<le> 2 ^ 63" using pages_to_order_Some [of pages] by force
  then show "2 ^ 63 < unat pages" by (rule not_le_imp_less)
next
  assume "2 ^ 63 < unat pages"
  then have "pages_to_order_loop pages 1 0 \<noteq> Some r" for r
    using pages_to_order_loop_bound [of pages 1 0 r] power_0 [of "2 :: u64"] by (metis not_le zero_less_numeral)
  then show "pages_to_order pages = None" by (cases "pages_to_order_loop pages 1 0") (auto simp: pages_to_order_def)
qed

section \<open>The allocation interface\<close>

text \<open>
  A successful \<open>pmm_alloc\<close> hands out a block of at least the requested number of pages that was
  free, and removes exactly its frames from the free set; a null result leaves them alone.
\<close>

lemma pmm_alloc_correct:
  assumes inv: "buddy_inv s" and al: "pmm_alloc pages s = Done (p, s')"
    and pos: "pages \<noteq> 0" and sz: "unat pages \<le> 2 ^ 63"
  shows "buddy_inv s' \<and> mem_end s' = mem_end s \<and> hhdm_offset s' = hhdm_offset s \<and>
    usable_pages s' = usable_pages s \<and>
    ((p = 0 \<and> free_frames s' = free_frames s) \<or>
     (\<exists>ord b. pages_to_order pages = Some (int ord) \<and> ord < PMM_MAX_ORDER_NR \<and> unat pages \<le> 2 ^ ord \<and>
        p = phys_to_virt s b \<and> block_ok s ord b \<and> frames b ord \<subseteq> free_frames s \<and>
        free_frames s' = free_frames s - frames b ord))"
proof -
  from pages_to_order_Some [OF sz] obtain ord where ord: "pages_to_order pages = Some ord" by blast
  show ?thesis
  proof (cases "ord < 0")
    case True
    with al pos ord inv show ?thesis by (simp add: pmm_alloc_def)
  next
    case False
    then have o: "nat ord < PMM_MAX_ORDER_NR" "unat pages \<le> 2 ^ nat ord" "int (nat ord) = ord"
      using pages_to_order_ge0 [OF sz ord] by simp_all
    obtain b s1 where b: "buddy_alloc_order (nat ord) s = (b, s1)" by (meson surj_pair)
    note c = buddy_alloc_order_correct [OF inv b]
    show ?thesis
    proof (cases "b = 0")
      case True
      with al pos ord False b c show ?thesis by (auto simp: pmm_alloc_def)
    next
      case nz: False
      with c have "\<not> b < PMM_FREE_MIN_PHYS" by (simp add: block_ok_def)
      with al pos ord False b nz
      have "p = phys_to_virt s1 b" "s' = s1\<lparr>alloc_count := alloc_count s1 + 2 ^ nat ord\<rparr>"
        by (simp_all add: pmm_alloc_def)
      moreover have "phys_to_virt s1 b = phys_to_virt s b" using c by (simp add: phys_to_virt_def)
      ultimately show ?thesis
        using c nz o ord by (intro conjI disjI2 exI [of _ "nat ord"] exI [of _ b]) simp_all
    qed
  qed
qed

lemma pmm_alloc_returns:
  "unat pages \<le> 2 ^ 63 \<Longrightarrow> \<exists>p s'. pmm_alloc pages s = Done (p, s')"
proof -
  assume "unat pages \<le> 2 ^ 63"
  then obtain ord where "pages_to_order pages = Some ord" using pages_to_order_Some by blast
  moreover obtain b s1 where "buddy_alloc_order (nat ord) s = (b, s1)" by (meson surj_pair)
  ultimately show ?thesis by (simp add: pmm_alloc_def)
qed

text \<open>The same with the order pinned down, and a null result explained.\<close>

lemma pmm_alloc_complete:
  assumes inv: "buddy_inv s" and n: "0 < n" "unat n \<le> 2 ^ 63"
  shows "\<exists>p s'. pmm_alloc n s = Done (p, s') \<and> buddy_inv s' \<and>
    (p = 0 \<and> free_frames s' = free_frames s \<and>
       (\<forall>k<PMM_MAX_ORDER_NR. unat n \<le> 2 ^ k \<longrightarrow> fblocks s k = []) \<or>
     (\<exists>ord b. unat n \<le> 2 ^ ord \<and> (\<forall>j<ord. 2 ^ j < unat n) \<and> p = phys_to_virt s b \<and> block_ok s ord b \<and>
        frames b ord \<subseteq> free_frames s \<and> free_frames s' = free_frames s - frames b ord))"
proof -
  from pages_to_order_Some [OF n(2)] obtain j where
    j: "pages_to_order n = Some (if j > PMM_MAX_ORDER then - 1 else int j)" "unat n \<le> 2 ^ j" "\<forall>i<j. 2 ^ i < unat n"
    by blast
  have least: "j \<le> k" if "unat n \<le> 2 ^ k" for k using j(3) that by (meson not_le)
  show ?thesis
  proof (cases "j > PMM_MAX_ORDER")
    case True
    then have "pmm_alloc n s = Done (0, s)" using j(1) n(1) by (auto simp: pmm_alloc_def)
    moreover have "\<not> unat n \<le> 2 ^ k" if "k < PMM_MAX_ORDER_NR" for k
      using least [of k] True that by (auto simp: PMM_MAX_ORDER_NR_def)
    ultimately show ?thesis using inv by auto
  next
    case False
    obtain b s1 where b: "buddy_alloc_order j s = (b, s1)" by (meson surj_pair)
    note c = buddy_alloc_order_correct [OF inv b]
    show ?thesis
    proof (cases "b = 0")
      case True
      then have "pmm_alloc n s = Done (0, s)" using j(1) n(1) False b c by (auto simp: pmm_alloc_def)
      moreover have "\<forall>k<PMM_MAX_ORDER_NR. unat n \<le> 2 ^ k \<longrightarrow> fblocks s k = []"
        using c True least by auto
      ultimately show ?thesis using inv by auto
    next
      case b0: False
      then have "PMM_FREE_MIN_PHYS \<le> b" using c by (simp add: block_ok_def)
      then have "pmm_alloc n s = Done (phys_to_virt s b, s1\<lparr>alloc_count := alloc_count s1 + 2 ^ j\<rparr>)"
        using j(1) n(1) False b c b0 by (auto simp: pmm_alloc_def phys_to_virt_def)
      moreover have "buddy_inv (s1\<lparr>alloc_count := alloc_count s1 + 2 ^ j\<rparr>)"
        "free_frames (s1\<lparr>alloc_count := alloc_count s1 + 2 ^ j\<rparr>) = free_frames s - frames b j"
        using c b0 by simp_all
      ultimately show ?thesis using c b0 j(2,3) by auto
    qed
  qed
qed

text \<open>The last page of a block is one of its frames.\<close>

lemma last_page_frame:
  assumes "block_ok s ord b"
  shows "(b + (2 ^ ord - 1) * PAGE_SIZE) div PAGE_SIZE \<in> frames b ord"
    and "b + (2 ^ ord - 1) * PAGE_SIZE < mem_end s"
proof -
  obtain m where "(2 :: nat) ^ ord = Suc m" using not0_implies_Suc [of "2 ^ ord"] by auto
  then show "(b + (2 ^ ord - 1) * PAGE_SIZE) div PAGE_SIZE \<in> frames b ord"
    by (simp add: frames_def)
  have "(2 ^ ord - 1) * PAGE_SIZE + PAGE_SIZE = block_size ord"
    by (simp add: block_size_def algebra_simps)
  with assms show "b + (2 ^ ord - 1) * PAGE_SIZE < mem_end s"
    using PAGE_SIZE_pos unfolding block_ok_def by linarith
qed

lemma pmm_free_correct:
  assumes inv: "buddy_inv s" and b: "virt_to_phys s addr = b" "addr \<noteq> 0" and pos: "pages \<noteq> 0"
    and ord: "pages_to_order pages = Some (int ord)" "ord < PMM_MAX_ORDER_NR"
    and okb: "block_ok s ord b" and fresh: "frames b ord \<inter> free_frames s = {}"
  shows "\<exists>s'. pmm_free addr pages s = Done s' \<and> buddy_inv s' \<and>
    free_frames s' = frames b ord \<union> free_frames s \<and> mem_end s' = mem_end s \<and>
    hhdm_offset s' = hhdm_offset s \<and> usable_pages s' = usable_pages s"
proof -
  let ?s0 = "s\<lparr>block_order := (block_order s)(b := 0)\<rparr>"
  note lp = last_page_frame [OF okb]
  have "b < mem_end s" using block_ok_bounds [OF okb] by simp
  then have nf: "\<not> page_is_free b s" "\<not> page_is_free (b + (2 ^ ord - 1) * PAGE_SIZE) s"
    using page_is_free_sub [OF inv] fresh first_frame [of b ord] lp by blast+
  have inv0: "buddy_inv ?s0" using buddy_inv_header [OF inv fresh_not_listed [OF fresh]] .
  have "block_ok ?s0 ord b" using okb by (simp add: block_ok_def)
  note f = buddy_free_order_correct [OF inv0 this _ ord(2)]
  have "pmm_free addr pages s =
      Done ((buddy_free_order b ord ?s0)\<lparr>free_count := free_count (buddy_free_order b ord ?s0) + 2 ^ ord\<rparr>)"
    using b pos ord(1) nf \<open>b < mem_end s\<close> inv okb
    by (simp add: pmm_free_def Let_def inv_mem_start block_ok_def PMM_FREE_MIN_PHYS_def)
  with f fresh show ?thesis by simp
qed

text \<open>A second free of a page that is already free stops the kernel.\<close>

lemma pmm_free_double:
  assumes inv: "buddy_inv s" and fs: "g_fstate s = Some f"
    and b: "virt_to_phys s addr = b" "addr \<noteq> 0" and pos: "pages \<noteq> 0"
    and ord: "pages_to_order pages = Some (int ord)"
    and bnd: "PMM_FREE_MIN_PHYS \<le> b" "b < mem_end s" and free: "b div PAGE_SIZE \<in> free_frames s"
  shows "pmm_free addr pages s = Panic ''pmm: page freed twice''"
proof -
  have "page_is_free b s" using page_is_free_iff [OF inv fs bnd(2)] free by simp
  with b pos ord bnd inv show ?thesis
    by (simp add: pmm_free_def Let_def inv_mem_start PMM_FREE_MIN_PHYS_def)
qed

lemma virt_phys_inverse: "b < 2 ^ 64 \<Longrightarrow> virt_to_phys s (phys_to_virt s b) = b"
  by (simp add: virt_to_phys_def phys_to_virt_def unat_of_nat)

section \<open>The buddy allocator implements the contract\<close>

text \<open>The direct map of physical memory does not wrap around the address space.\<close>

definition pmm_wf :: "pmm_state \<Rightarrow> bool" where
  "pmm_wf s \<longleftrightarrow> buddy_inv s \<and> unat (hhdm_offset s) + mem_end s < 2 ^ 64"

definition pmm_region :: "pmm_state \<Rightarrow> u64 \<Rightarrow> u64 \<Rightarrow> nat set" where
  "pmm_region s p n = (case pages_to_order n of
     Some ord \<Rightarrow> frames (virt_to_phys s p) (nat ord) | None \<Rightarrow> {})"

definition pmm_owned :: "pmm_state \<Rightarrow> u64 \<Rightarrow> u64 \<Rightarrow> bool" where
  "pmm_owned s p n \<longleftrightarrow> p \<noteq> 0 \<and> n \<noteq> 0 \<and>
     (\<exists>ord. pages_to_order n = Some (int ord) \<and> ord < PMM_MAX_ORDER_NR \<and> block_ok s ord (virt_to_phys s p))"

lemma pmm_region_cong: "hhdm_offset s' = hhdm_offset s \<Longrightarrow> pmm_region s' = pmm_region s"
  by (simp add: pmm_region_def virt_to_phys_def fun_eq_iff split: option.split)

lemma pmm_owned_cong:
  "hhdm_offset s' = hhdm_offset s \<Longrightarrow> mem_end s' = mem_end s \<Longrightarrow> pmm_owned s' = pmm_owned s"
  by (intro ext) (simp add: pmm_owned_def virt_to_phys_def block_ok_def)

lemma phys_to_virt_nonzero:
  assumes "pmm_wf s" "0 < b" "b < mem_end s"
  shows "phys_to_virt s b \<noteq> 0" "virt_to_phys s (phys_to_virt s b) = b"
proof -
  have "b < 2 ^ 64" using assms unfolding pmm_wf_def by linarith
  then show "virt_to_phys s (phys_to_virt s b) = b" by (rule virt_phys_inverse)
  have "unat (of_nat b + hhdm_offset s) = b + unat (hhdm_offset s)"
    using assms \<open>b < 2 ^ 64\<close> by (simp add: pmm_wf_def unat_word_ariths unat_of_nat)
  with assms(2) show "phys_to_virt s b \<noteq> 0" by (auto simp: phys_to_virt_def)
qed

lemma pmm_alloc_law:
  assumes wf: "pmm_wf s" and n: "0 < n" "unat n \<le> 2 ^ 63" and al: "pmm_alloc n s = Done (p, s')"
  shows "pmm_wf s' \<and> pmm_region s' = pmm_region s \<and> pmm_owned s' = pmm_owned s \<and>
    (p = 0 \<and> free_frames s' = free_frames s \<or>
     p \<noteq> 0 \<and> pmm_owned s p n \<and> pmm_region s p n \<subseteq> free_frames s \<and>
     free_frames s' = free_frames s - pmm_region s p n)"
proof -
  have inv: "buddy_inv s" and n0: "n \<noteq> 0" using wf n by (auto simp: pmm_wf_def)
  note c = pmm_alloc_correct [OF inv al n0 n(2)]
  then have "pmm_wf s'" "pmm_region s' = pmm_region s" "pmm_owned s' = pmm_owned s"
    using wf by (auto simp: pmm_wf_def intro: pmm_region_cong pmm_owned_cong)
  moreover have "p \<noteq> 0 \<and> pmm_owned s p n \<and> pmm_region s p n = frames b ord"
    if "pages_to_order n = Some (int ord)" "ord < PMM_MAX_ORDER_NR" "p = phys_to_virt s b" "block_ok s ord b"
    for ord b
    using that n0 phys_to_virt_nonzero [OF wf] block_ok_bounds [OF that(4)]
    by (auto simp: pmm_owned_def pmm_region_def)
  ultimately show ?thesis using c by metis
qed

lemma pmm_free_law:
  assumes wf: "pmm_wf s" and ow: "pmm_owned s p n" and fresh: "pmm_region s p n \<inter> free_frames s = {}"
  shows "\<exists>s'. pmm_free p n s = Done s' \<and> pmm_wf s' \<and> pmm_region s' = pmm_region s \<and>
    pmm_owned s' = pmm_owned s \<and> free_frames s' = pmm_region s p n \<union> free_frames s"
proof -
  from ow obtain ord where ord: "pages_to_order n = Some (int ord)" "ord < PMM_MAX_ORDER_NR"
    "block_ok s ord (virt_to_phys s p)" and nz: "p \<noteq> 0" "n \<noteq> 0" by (auto simp: pmm_owned_def)
  have r: "pmm_region s p n = frames (virt_to_phys s p) ord" by (simp add: pmm_region_def ord)
  from pmm_free_correct [OF _ refl nz(1,2) ord(1,2,3)] wf fresh
  obtain s' where "pmm_free p n s = Done s'" "buddy_inv s'" "free_frames s' = pmm_region s p n \<union> free_frames s"
    "mem_end s' = mem_end s" "hhdm_offset s' = hhdm_offset s" unfolding r pmm_wf_def by blast
  then show ?thesis using wf by (auto simp: pmm_wf_def intro: pmm_region_cong pmm_owned_cong)
qed

interpretation pmm: page_allocator pmm_alloc pmm_free pmm_wf free_frames pmm_region pmm_owned
  by unfold_locales (fact pmm_alloc_law, fact pmm_free_law)

section \<open>Restricted allocations\<close>

lemma find_below_SomeD:
  "find_below span lim ks s = Some (k, b) \<Longrightarrow> k \<in> set ks \<and> b \<in> set (fblocks s k) \<and> b + span \<le> lim"
  by (induction span lim ks s rule: find_below.induct)
     (auto simp: find_Some_iff split: option.splits)

lemma pmm_alloc_below_correct:
  assumes inv: "buddy_inv s" and al: "pmm_alloc_below pages lim s = Done (p, s')" and nz: "p \<noteq> 0"
    and sz: "unat pages \<le> 2 ^ 63"
  shows "\<exists>ord b. p = phys_to_virt s b \<and> unat pages \<le> 2 ^ ord \<and> b + block_size ord \<le> lim \<and>
    frames b ord \<subseteq> free_frames s \<and> free_frames s' = free_frames s - frames b ord \<and> buddy_inv s'"
proof -
  from pages_to_order_Some [OF sz] obtain ord where ord: "pages_to_order pages = Some ord" by blast
  from al nz ord obtain k b where fb: "find_below (PAGE_SIZE * 2 ^ nat ord) lim [nat ord..<PMM_MAX_ORDER_NR] s = Some (k, b)"
    and "0 \<le> ord" and eq: "p = phys_to_virt (split_block b k (nat ord) (fl_del k b s)) b"
      "s' = (split_block b k (nat ord) (fl_del k b s))\<lparr>free_pages := free_pages s - 2 ^ nat ord\<rparr>"
    by (auto simp: pmm_alloc_below_def Let_def split: if_splits option.splits)
  note o = pages_to_order_ge0 [OF sz ord \<open>0 \<le> ord\<close>]
  from find_below_SomeD [OF fb] have k: "nat ord \<le> k" "k < PMM_MAX_ORDER_NR" "b \<in> set (fblocks s k)"
    "b + block_size (nat ord) \<le> lim" by (auto simp: block_size_def)
  note t = take_block_correct [OF inv k(2,1,3)]
  show ?thesis
    using t k(4) o eq by (intro exI [of _ "nat ord"] exI [of _ b]) (simp add: phys_to_virt_def)
qed

section \<open>Boot\<close>

lemma carve_order_ok:
  assumes "PAGE_SIZE dvd base" "1 \<le> n"
  shows "block_size (carve_order base n k) dvd base \<and> 2 ^ carve_order base n k \<le> n \<and> carve_order base n k \<le> k"
  using assms by (induction base n k rule: carve_order.induct)
    (auto simp: block_size_def mult.commute dvd_eq_mod_eq_0)

lemma page_multiple: "PAGE_SIZE dvd a \<Longrightarrow> PAGE_SIZE dvd b \<Longrightarrow> a < b \<Longrightarrow> a + PAGE_SIZE * n \<le> b \<longleftrightarrow> n \<le> (b - a) div PAGE_SIZE"
  by (auto simp: dvd_def less_eq_div_iff_mult_less_eq algebra_simps less_imp_le simp flip: diff_mult_distrib2)
     (metis le_diff_conv2 less_imp_le_nat mult_less_cancel2 nat_mult_le_cancel_disj nat_add_left_cancel_le
        mult.commute add.commute distrib_left)+

lemma carve_region_correct:
  assumes "buddy_inv s" "PAGE_SIZE dvd base" "PAGE_SIZE dvd bound" "base < bound \<Longrightarrow> PMM_FREE_MIN_PHYS \<le> base"
    and "bound \<le> mem_end s" "{base div PAGE_SIZE ..< bound div PAGE_SIZE} \<inter> free_frames s = {}"
  shows "buddy_inv (carve_region base bound s) \<and>
    free_frames (carve_region base bound s) = free_frames s \<union> {base div PAGE_SIZE ..< bound div PAGE_SIZE} \<and>
    mem_end (carve_region base bound s) = mem_end s \<and> hhdm_offset (carve_region base bound s) = hhdm_offset s"
  using assms
proof (induction base bound s rule: carve_region.induct)
  case (1 base bound s)
  show ?case
  proof (cases "base < bound")
    case True
    let ?n = "(bound - base) div PAGE_SIZE"
    let ?k = "carve_order base ?n PMM_MAX_ORDER"
    let ?s1 = "fl_push ?k base s"
    let ?s2 = "?s1\<lparr>free_pages := free_pages ?s1 + 2 ^ ?k\<rparr>"
    have "base + PAGE_SIZE * 1 \<le> bound"
      using True "1.prems"(2,3) by (auto simp: dvd_def) (metis Suc_leI mult_Suc_right mult_le_mono2 add.commute)
    then have n: "1 \<le> ?n" using page_multiple [OF "1.prems"(2,3) True, of 1] by simp
    note k = carve_order_ok [OF "1.prems"(2) n, of PMM_MAX_ORDER]
    have kN: "?k < PMM_MAX_ORDER_NR" using k by (simp add: PMM_MAX_ORDER_NR_def less_Suc_eq_le)
    have fit: "base + block_size ?k \<le> bound"
      using page_multiple [OF "1.prems"(2,3) True, of "2 ^ ?k"] k by (simp add: block_size_def)
    then have okb: "block_ok s ?k base" using k "1.prems"(4,5) True by (simp add: block_ok_def)
    have split: "{base div PAGE_SIZE ..< bound div PAGE_SIZE} =
        frames base ?k \<union> {(base + block_size ?k) div PAGE_SIZE ..< bound div PAGE_SIZE}"
      using div_le_mono [OF fit, of PAGE_SIZE] by (auto simp: frames_def add_block_div [of ?k])
    have dis: "frames base ?k \<inter> {(base + block_size ?k) div PAGE_SIZE ..< bound div PAGE_SIZE} = {}"
      by (auto simp: frames_def add_block_div [of ?k])
    have fresh: "frames base ?k \<inter> free_frames s = {}" using "1.prems"(6) by (auto simp: split)
    have ff: "free_frames ?s1 = frames base ?k \<union> free_frames s"
      using fl_push_free_frames [OF kN] "1.prems"(1) by (simp add: inv_length)
    have "buddy_inv (carve_region (base + block_size ?k) bound ?s2) \<and>
      free_frames (carve_region (base + block_size ?k) bound ?s2) =
        free_frames ?s2 \<union> {(base + block_size ?k) div PAGE_SIZE ..< bound div PAGE_SIZE} \<and>
      mem_end (carve_region (base + block_size ?k) bound ?s2) = mem_end ?s2 \<and>
      hhdm_offset (carve_region (base + block_size ?k) bound ?s2) = hhdm_offset ?s2"
    proof (rule "1.IH" [OF True refl refl, unfolded block_size_def [symmetric]])
      show "buddy_inv ?s2" using fl_push_inv [OF "1.prems"(1) kN okb fresh] by simp
      show "PAGE_SIZE dvd base + block_size ?k" using "1.prems"(2) by (simp add: block_size_def)
      show "{(base + block_size ?k) div PAGE_SIZE ..< bound div PAGE_SIZE} \<inter> free_frames ?s2 = {}"
        using "1.prems"(6) dis unfolding split by (auto simp: ff)
    qed (use "1.prems" True in auto)
    moreover have "carve_region base bound s = carve_region (base + block_size ?k) bound ?s2"
      using True by (subst carve_region.simps) (simp add: Let_def block_size_def)
    ultimately show ?thesis unfolding split by (simp add: ff Un_ac)
  next
    case False
    then have "{base div PAGE_SIZE ..< bound div PAGE_SIZE} = {}" using div_le_mono by auto
    with False "1.prems"(1) show ?thesis by (subst (1 2 3 4) carve_region.simps) simp
  qed
qed

definition usable_frames :: "boot_mmap_entry \<Rightarrow> nat set" where
  "usable_frames e = (if me_usable e then {entry_base e div PAGE_SIZE ..< entry_end e div PAGE_SIZE} else {})"

definition reserved_frames :: "nat \<Rightarrow> nat \<Rightarrow> nat set" where
  "reserved_frames fp bytes = (if fp = 0 then {} else {fp div PAGE_SIZE ..< (fp + bytes) div PAGE_SIZE})"

lemma align_up_dvd [simp]: "a dvd align_up v a" by (simp add: align_up_def)

lemma align_up_ge: "0 < a \<Longrightarrow> v \<le> align_up v a"
proof -
  assume "0 < a"
  then have "v + a - 1 < a + (v + a - 1) div a * a"
    using div_mult_mod_eq [of "v + a - 1" a] mod_less_divisor [of a "v + a - 1"] by linarith
  with \<open>0 < a\<close> show ?thesis unfolding align_up_def by linarith
qed

lemma entry_pages [simp]: "PAGE_SIZE dvd entry_base e" "PAGE_SIZE dvd entry_end e"
  by (simp_all add: entry_base_def entry_end_def max_def PMM_FREE_MIN_PHYS_def PAGE_SIZE_def)

lemma init_entry_alt:
  "init_entry fp bytes e s =
     (if me_usable e then
        carve_region (if fp \<noteq> 0 \<and> entry_base e = fp then entry_base e + bytes else entry_base e) (entry_end e) s
      else s)"
proof -
  have stop: "carve_region a b s = s" if "b \<le> a" for a b
    using that by (subst carve_region.simps) simp
  have base: "entry_base e = (if align_up (me_base e) PAGE_SIZE < PMM_FREE_MIN_PHYS then PMM_FREE_MIN_PHYS
      else align_up (me_base e) PAGE_SIZE)"
    by (simp add: entry_base_def max_def)
  show ?thesis
    unfolding init_entry_def Let_def base [symmetric] by (auto simp: stop base)
qed

lemma init_entry_correct:
  assumes inv: "buddy_inv s" and me: "entry_end e \<le> mem_end s" and dv: "PAGE_SIZE dvd bytes"
    and dis: "usable_frames e \<inter> free_frames s = {}"
    and res: "entry_base e \<noteq> fp \<longrightarrow> usable_frames e \<inter> reserved_frames fp bytes = {}"
  shows "buddy_inv (init_entry fp bytes e s) \<and>
    free_frames (init_entry fp bytes e s) = free_frames s \<union> (usable_frames e - reserved_frames fp bytes) \<and>
    mem_end (init_entry fp bytes e s) = mem_end s \<and> hhdm_offset (init_entry fp bytes e s) = hhdm_offset s"
proof (cases "me_usable e")
  case True
  let ?base = "if fp \<noteq> 0 \<and> entry_base e = fp then entry_base e + bytes else entry_base e"
  have eq: "{?base div PAGE_SIZE ..< entry_end e div PAGE_SIZE} = usable_frames e - reserved_frames fp bytes"
    using res True dv by (auto simp: usable_frames_def reserved_frames_def div_le_mono
        intro: le_trans [OF div_le_mono])
  have dj: "{?base div PAGE_SIZE ..< entry_end e div PAGE_SIZE} \<inter> free_frames s = {}"
    unfolding eq using dis by blast
  have "PMM_FREE_MIN_PHYS \<le> entry_base e" by (simp add: entry_base_def)
  then have "PMM_FREE_MIN_PHYS \<le> ?base" by simp
  moreover have "PAGE_SIZE dvd ?base" by (metis dv dvd_add entry_pages(1))
  ultimately have "buddy_inv (carve_region ?base (entry_end e) s) \<and>
    free_frames (carve_region ?base (entry_end e) s) = free_frames s \<union> {?base div PAGE_SIZE ..< entry_end e div PAGE_SIZE} \<and>
    mem_end (carve_region ?base (entry_end e) s) = mem_end s \<and>
    hhdm_offset (carve_region ?base (entry_end e) s) = hhdm_offset s"
    using dj by (intro carve_region_correct [OF inv _ entry_pages(2) _ me])
  with True show ?thesis unfolding eq init_entry_alt by simp
next
  case False
  with inv show ?thesis by (simp add: init_entry_alt usable_frames_def)
qed

lemma init_entries_correct:
  assumes "buddy_inv s" "\<forall>e\<in>set es. me_usable e \<longrightarrow> entry_end e \<le> mem_end s" "PAGE_SIZE dvd bytes"
    and "pairwise_disjoint (map usable_frames es)" "\<forall>e\<in>set es. usable_frames e \<inter> free_frames s = {}"
    and "\<forall>e\<in>set es. entry_base e \<noteq> fp \<longrightarrow> usable_frames e \<inter> reserved_frames fp bytes = {}"
  shows "buddy_inv (foldl (\<lambda>s e. init_entry fp bytes e s) s es) \<and>
    free_frames (foldl (\<lambda>s e. init_entry fp bytes e s) s es) =
      free_frames s \<union> (\<Union> (usable_frames ` set es) - reserved_frames fp bytes) \<and>
    mem_end (foldl (\<lambda>s e. init_entry fp bytes e s) s es) = mem_end s \<and>
    hhdm_offset (foldl (\<lambda>s e. init_entry fp bytes e s) s es) = hhdm_offset s"
  using assms
proof (induction es arbitrary: s)
  case (Cons e es)
  let ?s1 = "init_entry fp bytes e s"
  have h: "buddy_inv ?s1 \<and> free_frames ?s1 = free_frames s \<union> (usable_frames e - reserved_frames fp bytes) \<and>
    mem_end ?s1 = mem_end s \<and> hhdm_offset ?s1 = hhdm_offset s"
  proof (cases "me_usable e")
    case True
    with Cons.prems show ?thesis by (intro init_entry_correct) auto
  next
    case False
    with Cons.prems(1) show ?thesis by (simp add: init_entry_alt usable_frames_def)
  qed
  have "\<forall>d\<in>set es. usable_frames d \<inter> free_frames ?s1 = {}"
    using h Cons.prems(4,5) by (fastforce simp: pairwise_disjoint_Cons)
  with Cons.IH [of ?s1] Cons.prems h show ?case by (auto simp: pairwise_disjoint_Cons)
qed simp

lemma find_fstate_SomeD:
  "find_fstate bytes es \<noteq> 0 \<Longrightarrow>
   \<exists>e\<in>set es. me_usable e \<and> entry_base e = find_fstate bytes es \<and> entry_base e + bytes \<le> entry_end e"
  by (induction es) (auto split: if_splits)

lemma max_usable_ge: "e \<in> set es \<Longrightarrow> me_usable e \<Longrightarrow> me_base e + me_length e \<le> max_usable es"
proof -
  have "m \<le> foldl (\<lambda>m e. if me_usable e \<and> me_base e + me_length e > m then me_base e + me_length e else m) m es \<and>
    (\<forall>e\<in>set es. me_usable e \<longrightarrow> me_base e + me_length e \<le>
      foldl (\<lambda>m e. if me_usable e \<and> me_base e + me_length e > m then me_base e + me_length e else m) m es)" for m
  proof (induction es arbitrary: m)
    case (Cons e es)
    let ?m = "if me_usable e \<and> me_base e + me_length e > m then me_base e + me_length e else m"
    have "m \<le> ?m" "me_usable e \<longrightarrow> me_base e + me_length e \<le> ?m" by auto
    with Cons [of ?m] show ?case by (auto intro: le_trans simp del: if_split)
  qed simp
  then show "e \<in> set es \<Longrightarrow> me_usable e \<Longrightarrow> me_base e + me_length e \<le> max_usable es"
    unfolding max_usable_def by blast
qed

lemma entry_end_le: "entry_end e \<le> me_base e + me_length e"
  by (simp add: entry_end_def)

lemma empty_buddy:
  assumes "orders s = replicate PMM_MAX_ORDER_NR fl_empty" "mem_start s = 0" "PAGE_SIZE dvd mem_end s"
    "g_fstate s = Some (\<lambda>_. 0) \<or> g_fstate s = None"
  shows "buddy_inv s" "free_frames s = {}"
  using assms by (auto simp: buddy_inv_def free_frames_def fl_empty_def)

lemma pmm_init_correct:
  assumes pd: "pairwise_disjoint (map usable_frames es)"
  defines "bytes \<equiv> align_up (align_up (max_usable es) PAGE_SIZE div PAGE_SIZE) PAGE_SIZE"
  shows "buddy_inv (pmm_init hhdm es) \<and>
    free_frames (pmm_init hhdm es) =
      \<Union> (usable_frames ` set es) - reserved_frames (find_fstate bytes es) bytes \<and>
    mem_end (pmm_init hhdm es) = align_up (max_usable es) PAGE_SIZE \<and> hhdm_offset (pmm_init hhdm es) = hhdm"
proof -
  define fp where "fp = find_fstate bytes es"
  let ?s = "\<lparr>hhdm_offset = hhdm, mem_start = 0, mem_end = align_up (max_usable es) PAGE_SIZE,
      total_pages = align_up (max_usable es) PAGE_SIZE div PAGE_SIZE,
      usable_pages = count_usable es, free_pages = 0, orders = replicate PMM_MAX_ORDER_NR fl_empty,
      g_fstate = (if fp \<noteq> 0 then Some (\<lambda>_. 0) else None),
      block_order = (\<lambda>_. 0), alloc_count = 0, free_count = 0\<rparr>"
  have s: "buddy_inv ?s" "free_frames ?s = {}" by (rule empty_buddy; simp)+
  have me: "\<forall>e\<in>set es. me_usable e \<longrightarrow> entry_end e \<le> mem_end ?s"
    using max_usable_ge entry_end_le align_up_ge [OF PAGE_SIZE_pos] by (simp, meson le_trans)
  have res: "usable_frames e \<inter> reserved_frames fp bytes = {}" if e: "e \<in> set es" "entry_base e \<noteq> fp" for e
  proof (cases "fp = 0")
    case False
    then obtain d where d: "d \<in> set es" "me_usable d" "entry_base d = fp" "fp + bytes \<le> entry_end d"
      using find_fstate_SomeD [of bytes es] unfolding fp_def by metis
    then have "reserved_frames fp bytes \<subseteq> usable_frames d"
      by (auto simp: reserved_frames_def usable_frames_def dest: div_le_mono [where k = PAGE_SIZE])
    moreover have "usable_frames e \<inter> usable_frames d = {}"
    proof -
      from e(1) d(1) obtain i j where "i < length es" "es ! i = e" "j < length es" "es ! j = d"
        by (meson in_set_conv_nth)
      then show ?thesis using pd [unfolded pairwise_disjoint_def, rule_format, of i j] e(2) d(3) by auto
    qed
    ultimately show ?thesis by blast
  qed (simp add: reserved_frames_def)
  have "PAGE_SIZE dvd bytes" by (simp add: bytes_def)
  from init_entries_correct [OF s(1) me this pd, of fp] s(2) res
  have "buddy_inv (foldl (\<lambda>s e. init_entry fp bytes e s) ?s es) \<and>
    free_frames (foldl (\<lambda>s e. init_entry fp bytes e s) ?s es) = \<Union> (usable_frames ` set es) - reserved_frames fp bytes \<and>
    mem_end (foldl (\<lambda>s e. init_entry fp bytes e s) ?s es) = mem_end ?s \<and>
    hhdm_offset (foldl (\<lambda>s e. init_entry fp bytes e s) ?s es) = hhdm_offset ?s"
    by auto
  moreover have "pmm_init hhdm es = foldl (\<lambda>s e. init_entry fp bytes e s) ?s es"
    by (simp add: pmm_init_def Let_def fp_def bytes_def)
  ultimately show ?thesis by (simp add: fp_def)
qed

end
