(* ===== verification/Boot_State.thy ===== *)
theory Boot_State
  imports Buddy_Correct "HOL-Library.Code_Target_Nat"
begin

text \<open>
  A small machine for the witnesses: the state that \<open>pmm_init\<close> builds from a memory map of one usable
  region of eight pages above the first megabyte.  One page is taken by the frame-state array, and
  the other seven become one block of each of the orders 0, 1 and 2.
\<close>

definition boot_map :: "boot_mmap_entry list" where
  "boot_map = [\<lparr>me_base = 0x100000, me_length = 0x8000, me_usable = True\<rparr>]"

definition boot_state :: pmm_state where
  "boot_state = pmm_init 0xffff800000000000 boot_map"

text \<open>The state after the allocation of \<open>n\<close> pages, and the address it returned.\<close>

definition alloc_state :: "u64 \<Rightarrow> pmm_state \<Rightarrow> pmm_state" where
  "alloc_state n s = (case pmm_alloc n s of Done (p, s') \<Rightarrow> s' | _ \<Rightarrow> s)"

definition alloc_addr :: "u64 \<Rightarrow> pmm_state \<Rightarrow> u64" where
  "alloc_addr n s = (case pmm_alloc n s of Done (p, s') \<Rightarrow> p | _ \<Rightarrow> 0)"

lemma alloc_done:
  "unat n \<le> 2 ^ 63 \<Longrightarrow> pmm_alloc n s = Done (alloc_addr n s, alloc_state n s)"
  using pmm_alloc_returns [of n s] by (auto simp: alloc_addr_def alloc_state_def)

lemma boot_map_disjoint: "pairwise_disjoint (map usable_frames boot_map)"
  by (simp add: boot_map_def pairwise_disjoint_def)

lemma boot_max: "align_up (max_usable boot_map) PAGE_SIZE = 0x108000" by code_simp

lemma boot_inv: "buddy_inv boot_state"
  using pmm_init_correct [OF boot_map_disjoint] by (simp add: boot_state_def)

lemma boot_wf: "pmm_wf boot_state"
  using pmm_init_correct [OF boot_map_disjoint] boot_max by (simp add: boot_state_def pmm_wf_def)

lemma boot_usable: "(\<Union>e\<in>set boot_map. usable_frames e) = {256..<264}"
  by (simp add: boot_map_def usable_frames_def entry_base_def entry_end_def align_up_def PAGE_SIZE_def PMM_FREE_MIN_PHYS_def)

text \<open>The frame-state array takes the first of the eight frames.\<close>

lemma boot_reserved:
  "(let bytes = align_up (align_up (max_usable boot_map) PAGE_SIZE div PAGE_SIZE) PAGE_SIZE
    in reserved_frames (find_fstate bytes boot_map) bytes) = {256..<257}"
proof -
  have "align_up (0x108000 div PAGE_SIZE) PAGE_SIZE = 0x1000" by code_simp
  moreover have "find_fstate 0x1000 boot_map = 0x100000" by code_simp
  moreover have "reserved_frames 0x100000 0x1000 = {256..<257}" by (simp add: reserved_frames_def PAGE_SIZE_def)
  ultimately show ?thesis using boot_max by (simp add: Let_def)
qed

lemma boot_minus: "{256..<264} - {256..<257} = {257..<264 :: nat}" by auto

lemma boot_free_frames: "free_frames boot_state = {257..<264}"
  using pmm_init_correct [OF boot_map_disjoint, of "0xffff800000000000"] boot_usable boot_reserved boot_minus
  by (simp add: boot_state_def Let_def)

end
