(* ===== verification/Buddy_Properties.thy ===== *)
theory Buddy_Properties
  imports Boot_State
begin

text \<open>
  The properties of the page allocator of \<^verbatim>\<open>memory/pmm.c\<close>, each with a witness on \<open>boot_state\<close>.
\<close>

lemma boot_run: "alloc_run pmm_alloc pmm_free boot_state
    (alloc_state 1 (alloc_state 1 boot_state), [(0xffff800000102000, 1), (0xffff800000101000, 1)])"
proof -
  have a1: "alloc_addr 1 boot_state = 0xffff800000101000" by code_simp
  have a2: "alloc_addr 1 (alloc_state 1 boot_state) = 0xffff800000102000" by code_simp
  have 1: "pmm_alloc 1 boot_state = Done (0xffff800000101000, alloc_state 1 boot_state)"
    using alloc_done [of 1 boot_state] a1 by simp
  have 2: "pmm_alloc 1 (alloc_state 1 boot_state) = Done (0xffff800000102000, alloc_state 1 (alloc_state 1 boot_state))"
    using alloc_done [of 1 "alloc_state 1 boot_state"] a2 by simp
  have "alloc_run pmm_alloc pmm_free boot_state (alloc_state 1 boot_state, [(0xffff800000101000, 1)])"
    by (rule alloc_run.got [OF alloc_run.start]) (simp_all add: 1)
  then show ?thesis by (rule alloc_run.got) (simp_all add: 2)
qed

text \<open>
  C1. Memory safety of the page allocator from boot on.  Start from the state that \<open>pmm_init\<close>
  builds from a memory map whose usable ranges do not overlap, and let a client run any sequence of
  \<open>pmm_alloc\<close> and of \<open>pmm_free\<close> of what it holds.  Then the blocks it holds are pairwise disjoint
  and disjoint from the free memory, free and held memory together are exactly the memory that was
  free at boot (nothing leaks through splitting and coalescing), and the allocator's invariant holds.
\<close>

theorem pmm_run_safe:
  assumes "pairwise_disjoint (map usable_frames es)"
    and "unat hhdm + align_up (max_usable es) PAGE_SIZE < 2 ^ 64"
    and "alloc_run pmm_alloc pmm_free (pmm_init hhdm es) (s, held)"
  shows "buddy_inv s \<and> pairwise_disjoint (map (\<lambda>(p, n). pmm_region s p n) held) \<and>
    free_frames s \<inter> (\<Union>(p, n)\<in>set held. pmm_region s p n) = {} \<and>
    free_frames s \<union> (\<Union>(p, n)\<in>set held. pmm_region s p n) = free_frames (pmm_init hhdm es)"
proof -
  have "pmm_wf (pmm_init hhdm es)"
    using pmm_init_correct [OF assms(1)] assms(2) by (simp add: pmm_wf_def)
  from pmm.run_invariant [OF assms(3) this] show ?thesis by (auto simp: pmm_wf_def)
qed

theorem pmm_run_safe_witness:
  "\<exists>s. alloc_run pmm_alloc pmm_free boot_state (s, [(0xffff800000102000, 1), (0xffff800000101000, 1)]) \<and>
    buddy_inv s \<and>
    pairwise_disjoint [pmm_region s 0xffff800000102000 1, pmm_region s 0xffff800000101000 1]"
  using boot_run pmm_run_safe [OF boot_map_disjoint _ boot_run [unfolded boot_state_def]] boot_max
  by (auto simp: boot_state_def)

text \<open>
  C20. \<open>pmm_alloc\<close> of \<open>n\<close> pages returns.  It either hands out a naturally aligned block of the least
  order that holds \<open>n\<close> pages, whose frames were all free and are the only ones that stop being free,
  or it returns null, and then the free memory is unchanged and no free block is large enough.
\<close>

theorem pmm_alloc_spec:
  assumes "buddy_inv s" "0 < n" "unat n \<le> 2 ^ 63"
  shows "\<exists>p s'. pmm_alloc n s = Done (p, s') \<and> buddy_inv s' \<and>
    (p = 0 \<and> free_frames s' = free_frames s \<and>
       (\<forall>k<PMM_MAX_ORDER_NR. unat n \<le> 2 ^ k \<longrightarrow> fblocks s k = []) \<or>
     (\<exists>ord b. unat n \<le> 2 ^ ord \<and> (\<forall>j<ord. 2 ^ j < unat n) \<and> p = phys_to_virt s b \<and> block_ok s ord b \<and>
        frames b ord \<subseteq> free_frames s \<and> free_frames s' = free_frames s - frames b ord))"
  by (rule pmm_alloc_complete [OF assms])

theorem pmm_alloc_spec_witness:
  "\<exists>p s'. pmm_alloc 2 boot_state = Done (p, s') \<and> buddy_inv s' \<and>
    (p = 0 \<and> free_frames s' = free_frames boot_state \<and>
       (\<forall>k<PMM_MAX_ORDER_NR. unat (2 :: u64) \<le> 2 ^ k \<longrightarrow> fblocks boot_state k = []) \<or>
     (\<exists>ord b. unat (2 :: u64) \<le> 2 ^ ord \<and> (\<forall>j<ord. 2 ^ j < unat (2 :: u64)) \<and> p = phys_to_virt boot_state b \<and>
        block_ok boot_state ord b \<and> frames b ord \<subseteq> free_frames boot_state \<and>
        free_frames s' = free_frames boot_state - frames b ord))"
  by (rule pmm_alloc_spec [OF boot_inv]) simp_all

text \<open>
  C21. \<open>pmm_alloc\<close> followed by \<open>pmm_free\<close> of the same block restores the free memory: the free
  succeeds (it does not take the block for one that is already free), and whatever was split and
  merged on the way, the set of free frames is the one before the allocation.
\<close>

theorem pmm_alloc_free:
  assumes "pmm_wf s" "0 < n" "unat n \<le> 2 ^ 63" "pmm_alloc n s = Done (p, s')" "p \<noteq> 0"
  shows "\<exists>s''. pmm_free p n s' = Done s'' \<and> buddy_inv s'' \<and> free_frames s'' = free_frames s"
proof -
  from pmm_alloc_law [OF assms(1-4)] assms(5)
  have a: "pmm_wf s'" "pmm_region s' = pmm_region s" "pmm_owned s' p n" "pmm_region s p n \<subseteq> free_frames s"
    "free_frames s' = free_frames s - pmm_region s p n" by auto
  from pmm_free_law [OF a(1,3)] a(2,4,5) show ?thesis by (auto simp: pmm_wf_def)
qed

theorem pmm_alloc_free_witness:
  "\<exists>s''. pmm_free (alloc_addr 1 boot_state) 1 (alloc_state 1 boot_state) = Done s'' \<and> buddy_inv s'' \<and>
    free_frames s'' = free_frames boot_state"
proof (rule pmm_alloc_free [OF boot_wf _ _ alloc_done])
  show "alloc_addr 1 boot_state \<noteq> 0" by code_simp
qed simp_all

text \<open>
  C30. A second free of a page is caught: when the first page of the block being freed already lies
  in a free block of any order, \<open>pmm_free\<close> stops the kernel instead of putting the page on a list
  twice, provided boot found room for the frame-state array.
\<close>

theorem pmm_free_twice_panics:
  assumes "buddy_inv s" "g_fstate s = Some f" "addr \<noteq> 0" "0 < n" "unat n \<le> 2 ^ PMM_MAX_ORDER"
    and "PMM_FREE_MIN_PHYS \<le> virt_to_phys s addr" "virt_to_phys s addr < mem_end s"
    and "virt_to_phys s addr div PAGE_SIZE \<in> free_frames s"
  shows "pmm_free addr n s = Panic ''pmm: page freed twice''"
proof -
  have "unat n \<le> 2 ^ 63" using assms(5) by (simp add: PMM_MAX_ORDER_def)
  from pages_to_order_Some [OF this] obtain j where
    j: "pages_to_order n = Some (if j > PMM_MAX_ORDER then - 1 else int j)" "\<forall>i<j. 2 ^ i < unat n" by blast
  then have "pages_to_order n = Some (int j)" using assms(5) by (auto dest: spec [of _ PMM_MAX_ORDER])
  with assms show ?thesis by (intro pmm_free_double) auto
qed

theorem pmm_free_twice_panics_witness:
  "pmm_free 0xffff800000105000 1 boot_state = Panic ''pmm: page freed twice''"
proof -
  have "\<not> Option.is_none (g_fstate boot_state)" by code_simp
  then have "g_fstate boot_state = Some (the (g_fstate boot_state))" by (simp add: Option.is_none_def)
  moreover have "PMM_FREE_MIN_PHYS \<le> virt_to_phys boot_state 0xffff800000105000" by code_simp
  moreover have "virt_to_phys boot_state 0xffff800000105000 < mem_end boot_state" by code_simp
  moreover have "virt_to_phys boot_state 0xffff800000105000 div PAGE_SIZE \<in> free_frames boot_state" by code_simp
  ultimately show ?thesis by (intro pmm_free_twice_panics [OF boot_inv]) (simp_all add: PMM_MAX_ORDER_def)
qed



text \<open>
  C35. \<open>pmm_get_free_pages\<close>, which sums the counters of the free lists, is the number of free frames,
  and \<open>page_is_free\<close>, which looks an address up in the frame-state array at every order, answers
  whether the frame lies in a free block.
\<close>

theorem pmm_free_accounting:
  assumes "buddy_inv s"
  shows "pmm_get_free_pages s = int (card (free_frames s)) \<and>
    (g_fstate s \<noteq> None \<longrightarrow> (\<forall>phys<mem_end s. page_is_free phys s \<longleftrightarrow> phys div PAGE_SIZE \<in> free_frames s))"
  using card_free_frames [OF assms] page_is_free_iff [OF assms] by auto

theorem pmm_free_accounting_witness:
  "pmm_get_free_pages (alloc_state 1 boot_state) = int (card (free_frames (alloc_state 1 boot_state)))"
proof -
  have "buddy_inv (alloc_state 1 boot_state)"
    using pmm_alloc_correct [OF boot_inv alloc_done, of 1] by simp
  from pmm_free_accounting [OF this] show ?thesis by simp
qed

text \<open>
  \<open>pmm_alloc\<close> returns exactly for requests of at most \<open>2 ^ 63\<close> pages: above, the doubling loop of
  \<open>_pages_to_order\<close> overflows to 0 and never ends.
\<close>

theorem pmm_alloc_hang_iff: "pmm_alloc n s = Hang \<longleftrightarrow> 2 ^ 63 < unat n"
proof (cases "2 ^ 63 < unat n")
  case True
  then have "n \<noteq> 0" by auto
  with True show ?thesis using pages_to_order_hang_iff [of n] by (simp add: pmm_alloc_def)
next
  case False
  then show ?thesis using pmm_alloc_returns [of n s] by auto
qed

text \<open>
  \<open>pmm_alloc_below\<close> hands out a free block of at least the requested size that ends at or below
  the limit, and takes exactly its frames.
\<close>

theorem pmm_alloc_below_spec:
  assumes "buddy_inv s" "unat n \<le> 2 ^ 63" "pmm_alloc_below n lim s = Done (p, s')" "p \<noteq> 0"
  shows "\<exists>ord b. p = phys_to_virt s b \<and> unat n \<le> 2 ^ ord \<and> b + block_size ord \<le> lim \<and>
    frames b ord \<subseteq> free_frames s \<and> free_frames s' = free_frames s - frames b ord \<and> buddy_inv s'"
  by (rule pmm_alloc_below_correct [OF assms(1,3,4,2)])

theorem pmm_alloc_below_spec_witness:
  "\<exists>s' ord b. pmm_alloc_below 1 0x104000 boot_state = Done (0xffff800000101000, s') \<and>
    0xffff800000101000 = phys_to_virt boot_state b \<and> b + block_size ord \<le> 0x104000 \<and>
    free_frames s' = free_frames boot_state - frames b ord"
proof -
  have "(case pmm_alloc_below 1 0x104000 boot_state of Done (p, s') \<Rightarrow> p | _ \<Rightarrow> 0) = 0xffff800000101000" by code_simp
  then obtain s' where a: "pmm_alloc_below 1 0x104000 boot_state = Done (0xffff800000101000, s')"
    by (auto split: outcome.splits prod.splits)
  from pmm_alloc_below_spec [OF boot_inv _ a] a show ?thesis by auto
qed

text \<open>
  The counter \<open>free_pages\<close> is not the number of free pages: freeing a block whose buddy is free
  makes \<open>2 ^ ord\<close> more frames free, but \<open>_buddy_free_order\<close> raises the counter by the size of the
  merged block, at least twice as much, until it hits the clamp at \<open>usable_pages\<close>.
\<close>

theorem buddy_free_overcounts:
  assumes "buddy_inv s" "block_ok s ord b" "frames b ord \<inter> free_frames s = {}" "ord < PMM_MAX_ORDER"
    and "g_fstate s = Some f" "b XOR block_size ord \<in> set (fblocks s ord)"
    and "free_pages s + 2 * 2 ^ ord \<le> int (usable_pages s)"
  shows "card (free_frames (buddy_free_order b ord s)) = card (free_frames s) + 2 ^ ord \<and>
    free_pages (buddy_free_order b ord s) \<ge> free_pages s + 2 * 2 ^ ord"
proof
  have ord: "ord < PMM_MAX_ORDER_NR" using assms(4) by (simp add: PMM_MAX_ORDER_NR_def)
  have "free_frames (buddy_free_order b ord s) = frames b ord \<union> free_frames s"
    using buddy_free_order_correct [OF assms(1-3) ord] by blast
  then show "card (free_frames (buddy_free_order b ord s)) = card (free_frames s) + 2 ^ ord"
    using assms(3) by (simp add: card_Un_disjoint frames_def)
  obtain k where k: "Suc ord \<le> k"
    "free_pages (buddy_free_order b ord s) = min (int (usable_pages s)) (free_pages s + 2 ^ k)"
    using buddy_free_order_merge [OF assms(1-6)] by (auto simp: Suc_le_eq)
  have "(2 :: int) ^ Suc ord \<le> 2 ^ k" using k(1) by (rule power_increasing) simp
  with k(2) assms(7) show "free_pages (buddy_free_order b ord s) \<ge> free_pages s + 2 * 2 ^ ord" by simp
qed

theorem buddy_free_overcounts_witness:
  "let s = alloc_state 1 (alloc_state 1 boot_state) in
   card (free_frames (buddy_free_order 0x102000 0 s)) = card (free_frames s) + 2 ^ 0 \<and>
   free_pages (buddy_free_order 0x102000 0 s) \<ge> free_pages s + 2 * 2 ^ 0"
proof -
  let ?s = "alloc_state 1 (alloc_state 1 boot_state)"
  have one: "buddy_inv (alloc_state 1 boot_state)"
    using pmm_alloc_correct [OF boot_inv alloc_done, of 1] by simp
  have inv: "buddy_inv ?s" using pmm_alloc_correct [OF one alloc_done, of 1] by simp
  have "\<not> Option.is_none (g_fstate ?s)" by code_simp
  then have fs: "g_fstate ?s = Some (the (g_fstate ?s))" by (simp add: Option.is_none_def)
  have okb: "block_ok ?s 0 0x102000" by code_simp
  have fresh: "frames 0x102000 0 \<inter> free_frames ?s = {}" by code_simp
  have buddy: "0x102000 XOR block_size 0 \<in> set (fblocks ?s 0)" by code_simp
  have room: "free_pages ?s + 2 * 2 ^ 0 \<le> int (usable_pages ?s)" by code_simp
  have "0 < PMM_MAX_ORDER" by code_simp
  from buddy_free_overcounts [OF inv okb fresh this fs buddy room] show ?thesis by (simp only: Let_def)
qed

end
