(* ===== verification/Flock.thy ===== *)
theory Flock
  imports Cervus_Prelude
begin

text \<open>
  Advisory record locks: \<^verbatim>\<open>kernel/src/fs/flock.c\<close> and the range computation of
  \<^verbatim>\<open>kernel/src/syscall/io/fcntl.c\<close>.  The lock table is a fixed array of
  \<open>VFS_MAX_LOCKS\<close> entries; a vnode pointer is a number with 0 as the null pointer.  Every
  function below is one critical section of \<^verbatim>\<open>g_lock_table\<close>, so it takes the table
  and returns the new one.  The specification is the POSIX view of the table: which kind of
  lock an owner holds on each byte of each file.
\<close>

section \<open>The lock table\<close>

datatype lock_type = VFS_LOCK_READ | VFS_LOCK_WRITE | VFS_LOCK_UNLOCK

record file_lock =
  fl_used :: bool
  fl_vnode :: nat
  fl_start :: u64
  fl_end :: u64
  fl_type :: lock_type
  fl_owner :: int

type_synonym lock_table = "file_lock list"

definition VFS_MAX_LOCKS :: nat where
  "VFS_MAX_LOCKS = 256"

definition free_lock :: file_lock where
  "free_lock = \<lparr>fl_used = False, fl_vnode = 0, fl_start = 0, fl_end = 0,
     fl_type = VFS_LOCK_READ, fl_owner = 0\<rparr>"

definition g_locks_init :: lock_table where
  "g_locks_init = replicate VFS_MAX_LOCKS free_lock"

definition overlaps :: "file_lock \<Rightarrow> u64 \<Rightarrow> u64 \<Rightarrow> bool" where
  "overlaps l s e \<longleftrightarrow> fl_start l \<le> e \<and> s \<le> fl_end l"

definition lock_insert ::
  "lock_table \<Rightarrow> nat \<Rightarrow> u64 \<Rightarrow> u64 \<Rightarrow> lock_type \<Rightarrow> int \<Rightarrow> unit result \<times> lock_table" where
  "lock_insert t v s e ty ow =
     (case find_slot (\<lambda>l. \<not> fl_used l) t of
        None \<Rightarrow> (Inl ENOLCK, t)
      | Some i \<Rightarrow> (ok, t[i := \<lparr>fl_used = True, fl_vnode = v, fl_start = s, fl_end = e,
                              fl_type = ty, fl_owner = ow\<rparr>]))"

text \<open>
  The body of the loop in \<open>lock_clear_range\<close> for one slot: a matching lock is released and the
  parts of it that lie outside the range are put back, each into the first free slot.
\<close>

definition lock_clear_slot ::
  "lock_table \<Rightarrow> nat \<Rightarrow> nat \<Rightarrow> u64 \<Rightarrow> u64 \<Rightarrow> int \<Rightarrow> unit result \<times> lock_table" where
  "lock_clear_slot t i v s e ow =
     (let l = t ! i in
      if \<not> fl_used l \<or> fl_vnode l \<noteq> v \<or> fl_owner l \<noteq> ow then (ok, t)
      else if \<not> overlaps l s e then (ok, t)
      else
        let t0 = t[i := l\<lparr>fl_used := False\<rparr>];
            (r1, t1) = (if fl_start l < s then lock_insert t0 v (fl_start l) (s - 1) (fl_type l) ow
                        else (ok, t0))
        in case r1 of
             Inl x \<Rightarrow> (Inl x, t1)
           | Inr _ \<Rightarrow> (if fl_end l > e then lock_insert t1 v (e + 1) (fl_end l) (fl_type l) ow
                       else (ok, t1)))"

fun lock_clear_slots ::
  "nat list \<Rightarrow> lock_table \<Rightarrow> nat \<Rightarrow> u64 \<Rightarrow> u64 \<Rightarrow> int \<Rightarrow> unit result \<times> lock_table" where
  "lock_clear_slots [] t v s e ow = (ok, t)"
| "lock_clear_slots (i # is) t v s e ow =
     (case lock_clear_slot t i v s e ow of
        (Inl x, t') \<Rightarrow> (Inl x, t')
      | (Inr _, t') \<Rightarrow> lock_clear_slots is t' v s e ow)"

definition lock_clear_range ::
  "lock_table \<Rightarrow> nat \<Rightarrow> u64 \<Rightarrow> u64 \<Rightarrow> int \<Rightarrow> unit result \<times> lock_table" where
  "lock_clear_range t v s e ow = lock_clear_slots [0..<VFS_MAX_LOCKS] t v s e ow"

text \<open>The lock that stops a request, as the loop of \<open>vfs_lock_test\<close> finds it.\<close>

definition lock_conflicts :: "nat \<Rightarrow> lock_type \<Rightarrow> u64 \<Rightarrow> u64 \<Rightarrow> int \<Rightarrow> file_lock \<Rightarrow> bool" where
  "lock_conflicts v ty s e ow l \<longleftrightarrow>
     fl_used l \<and> fl_vnode l = v \<and> fl_owner l \<noteq> ow \<and> overlaps l s e \<and>
     \<not> (ty = VFS_LOCK_READ \<and> fl_type l = VFS_LOCK_READ)"

text \<open>\<open>vfs_lock_test\<close>: the result and, on a conflict, the lock copied to \<^verbatim>\<open>*conflict\<close>.\<close>

definition vfs_lock_test ::
  "lock_table \<Rightarrow> nat \<Rightarrow> lock_type \<Rightarrow> u64 \<Rightarrow> u64 \<Rightarrow> int \<Rightarrow> unit result \<times> file_lock option" where
  "vfs_lock_test t v ty s e ow =
     (if v = 0 then (Inl EINVAL, None)
      else case find_slot (lock_conflicts v ty s e ow) t of
             None \<Rightarrow> (ok, None)
           | Some i \<Rightarrow> (Inl EAGAIN, Some (t ! i)))"

text \<open>The second critical section of \<open>vfs_lock_set\<close>: clear the range, then insert.\<close>

definition vfs_lock_apply ::
  "lock_table \<Rightarrow> nat \<Rightarrow> lock_type \<Rightarrow> u64 \<Rightarrow> u64 \<Rightarrow> int \<Rightarrow> unit result \<times> lock_table" where
  "vfs_lock_apply t v ty s e ow =
     (case lock_clear_range t v s e ow of
        (Inl x, t') \<Rightarrow> (Inl x, t')
      | (Inr _, t') \<Rightarrow> if ty \<noteq> VFS_LOCK_UNLOCK then lock_insert t' v s e ty ow else (ok, t'))"

definition vfs_lock_set ::
  "lock_table \<Rightarrow> nat \<Rightarrow> lock_type \<Rightarrow> u64 \<Rightarrow> u64 \<Rightarrow> int \<Rightarrow> unit result \<times> lock_table" where
  "vfs_lock_set t v ty s e ow =
     (if v = 0 then (Inl EINVAL, t)
      else if ty \<noteq> VFS_LOCK_UNLOCK then
        (case fst (vfs_lock_test t v ty s e ow) of
           Inl x \<Rightarrow> (Inl x, t)
         | Inr _ \<Rightarrow> vfs_lock_apply t v ty s e ow)
      else vfs_lock_apply t v ty s e ow)"

definition vfs_lock_release_owner :: "lock_table \<Rightarrow> int \<Rightarrow> lock_table" where
  "vfs_lock_release_owner t ow =
     map (\<lambda>l. if fl_used l \<and> fl_owner l = ow then l\<lparr>fl_used := False\<rparr> else l) t"

definition vfs_lock_release_vnode :: "lock_table \<Rightarrow> nat \<Rightarrow> int \<Rightarrow> lock_table" where
  "vfs_lock_release_vnode t v ow =
     map (\<lambda>l. if fl_used l \<and> fl_vnode l = v \<and> fl_owner l = ow then l\<lparr>fl_used := False\<rparr> else l) t"

section \<open>The byte range of a request\<close>

text \<open>
  \<open>flock_range\<close> of \<^verbatim>\<open>fcntl.c\<close>: \<open>off\<close> is \<^verbatim>\<open>f->offset\<close> and \<open>fsz\<close> what
  \<^verbatim>\<open>vfs_fstat\<close> reports (\<open>None\<close> when it fails).  The signed 64-bit sums wrap as two's
  complement.
\<close>

datatype whence = SEEK_SET | SEEK_CUR | SEEK_END | SEEK_BAD

definition flock_range ::
  "u64 \<Rightarrow> u64 option \<Rightarrow> whence \<Rightarrow> u64 \<Rightarrow> u64 \<Rightarrow> (u64 \<times> u64) result" where
  "flock_range off fsz wh l_start l_len =
     (let base = (case wh of SEEK_SET \<Rightarrow> Inr 0
                   | SEEK_CUR \<Rightarrow> Inr off
                   | SEEK_END \<Rightarrow> (case fsz of None \<Rightarrow> Inl EIO | Some sz \<Rightarrow> Inr sz)
                   | SEEK_BAD \<Rightarrow> Inl EINVAL)
      in case base of
           Inl x \<Rightarrow> Inl x
         | Inr b \<Rightarrow>
             (let start0 = b + l_start;
                  neg = sint l_len < 0;
                  start = (if neg then start0 + l_len else start0);
                  len = (if neg then - l_len else l_len)
              in if sint start < 0 then Inl EINVAL
                 else Inr (start, if len = 0 then - 1 else start + len - 1)))"

section \<open>The byte-level view\<close>

text \<open>\<open>covers l v ow b ty\<close>: the table entry \<open>l\<close> gives \<open>ow\<close> a lock of kind \<open>ty\<close> on byte \<open>b\<close> of file \<open>v\<close>.\<close>

definition covers :: "file_lock \<Rightarrow> nat \<Rightarrow> int \<Rightarrow> u64 \<Rightarrow> lock_type \<Rightarrow> bool" where
  "covers l v ow b ty \<longleftrightarrow> fl_used l \<and> fl_vnode l = v \<and> fl_owner l = ow \<and>
     fl_start l \<le> b \<and> b \<le> fl_end l \<and> fl_type l = ty"

definition holds_lock :: "lock_table \<Rightarrow> nat \<Rightarrow> int \<Rightarrow> u64 \<Rightarrow> lock_type \<Rightarrow> bool" where
  "holds_lock t v ow b ty \<longleftrightarrow> (\<exists>l \<in> set t. covers l v ow b ty)"

text \<open>The table never gives two owners conflicting locks on one byte.\<close>

definition no_conflict :: "lock_table \<Rightarrow> bool" where
  "no_conflict t \<longleftrightarrow> (\<forall>v b ow ow' ty ty'. ow \<noteq> ow' \<longrightarrow> holds_lock t v ow b ty \<longrightarrow>
     holds_lock t v ow' b ty' \<longrightarrow> ty = VFS_LOCK_READ \<and> ty' = VFS_LOCK_READ)"

lemma covers_unused [simp]: "\<not> fl_used l \<Longrightarrow> \<not> covers l v ow b ty"
  by (simp add: covers_def)

lemma holds_lock_nth: "holds_lock t v ow b ty \<longleftrightarrow> (\<exists>j<length t. covers (t ! j) v ow b ty)"
  unfolding holds_lock_def by (metis in_set_conv_nth)

lemma holds_lock_update:
  assumes "i < length t" "\<not> covers (t ! i) v ow b ty"
  shows "holds_lock (t[i := l]) v ow b ty \<longleftrightarrow> covers l v ow b ty \<or> holds_lock t v ow b ty"
  using ex_slot_update_iff [OF assms(1), of "\<lambda>_ x. covers x v ow b ty" l] assms(2)
  by (auto simp: holds_lock_nth)

section \<open>Insertion and range clearing\<close>

lemma lock_insert_length [simp]: "length (snd (lock_insert t v s e ty ow)) = length t"
  by (simp add: lock_insert_def split: option.splits)

lemma lock_insert_lengthD: "lock_insert t v s e ty ow = (r, t') \<Longrightarrow> length t' = length t"
  using lock_insert_length [of t v s e ty ow] by simp

lemma lock_insert_ok:
  assumes "lock_insert t v s e ty ow = (Inr u, t')"
  obtains i where "i < length t" "\<not> fl_used (t ! i)"
    "t' = t[i := \<lparr>fl_used = True, fl_vnode = v, fl_start = s, fl_end = e, fl_type = ty, fl_owner = ow\<rparr>]"
proof (cases "find_slot (\<lambda>l. \<not> fl_used l) t")
  case (Some i)
  with assms that find_slot_SomeD [OF Some] show ?thesis by (auto simp: lock_insert_def)
qed (use assms in \<open>simp add: lock_insert_def\<close>)

lemma lock_insert_err: "lock_insert t v s e ty ow = (Inl x, t') \<Longrightarrow> t' = t \<and> x = ENOLCK"
  by (auto simp: lock_insert_def split: option.splits)

lemma lock_insert_holds:
  assumes "lock_insert t v s e ty ow = (Inr u, t')"
  shows "holds_lock t' v' ow' b ty' \<longleftrightarrow>
    holds_lock t v' ow' b ty' \<or> (v' = v \<and> ow' = ow \<and> s \<le> b \<and> b \<le> e \<and> ty' = ty)"
proof -
  from assms obtain i where i: "i < length t" "\<not> fl_used (t ! i)" and
    t': "t' = t[i := \<lparr>fl_used = True, fl_vnode = v, fl_start = s, fl_end = e, fl_type = ty, fl_owner = ow\<rparr>]"
    by (rule lock_insert_ok)
  show ?thesis using i by (auto simp: t' holds_lock_update covers_def)
qed

lemma lock_insert_if_holds:
  assumes "(if c then lock_insert t v s e ty ow else (ok, t)) = (Inr u, t')"
  shows "holds_lock t' v' ow' b ty' \<longleftrightarrow>
    holds_lock t v' ow' b ty' \<or> (c \<and> v' = v \<and> ow' = ow \<and> s \<le> b \<and> b \<le> e \<and> ty' = ty)"
  using assms lock_insert_holds [of t v s e ty ow u t' v' ow' b ty'] by (cases c) auto

lemma lock_insert_if_err:
  "(if c then lock_insert t v s e ty ow else (ok, t)) = (Inl x, t') \<Longrightarrow> t' = t"
  using lock_insert_err [of t v s e ty ow x t'] by (cases c) auto

text \<open>A slot is clear of a range when it holds no lock of the owner that overlaps the range.\<close>

definition clear_of :: "nat \<Rightarrow> u64 \<Rightarrow> u64 \<Rightarrow> int \<Rightarrow> file_lock \<Rightarrow> bool" where
  "clear_of v s e ow l \<longleftrightarrow> \<not> (fl_used l \<and> fl_vnode l = v \<and> fl_owner l = ow \<and> overlaps l s e)"

lemma clear_of_not_covers: "clear_of v s e ow l \<Longrightarrow> s \<le> b \<Longrightarrow> b \<le> e \<Longrightarrow> \<not> covers l v ow b ty"
  by (auto simp: clear_of_def overlaps_def covers_def)

lemma lock_insert_clear_of:
  assumes ins: "lock_insert t v s' e' ty ow = (r, t')" and j: "j < length t"
    and "clear_of v s e ow (t ! j)" "e < s' \<or> e' < s"
  shows "clear_of v s e ow (t' ! j)"
proof (cases r)
  case (Inr u)
  with ins obtain i where "i < length t" and
    t': "t' = t[i := \<lparr>fl_used = True, fl_vnode = v, fl_start = s', fl_end = e', fl_type = ty, fl_owner = ow\<rparr>]"
    by (auto elim: lock_insert_ok)
  with assms(3,4) j show ?thesis
    by (cases "i = j") (auto simp: clear_of_def overlaps_def)
qed (use assms lock_insert_err in blast)

lemma not_clear_of_cut:
  "\<not> clear_of v s e ow (t ! i) \<Longrightarrow> lock_clear_slot t i v s e ow =
    (let l = t ! i; t0 = t[i := l\<lparr>fl_used := False\<rparr>];
         (r1, t1) = (if fl_start l < s then lock_insert t0 v (fl_start l) (s - 1) (fl_type l) ow
                     else (ok, t0))
     in case r1 of
          Inl x \<Rightarrow> (Inl x, t1)
        | Inr _ \<Rightarrow> (if fl_end l > e then lock_insert t1 v (e + 1) (fl_end l) (fl_type l) ow
                    else (ok, t1)))"
  by (simp add: clear_of_def lock_clear_slot_def Let_def)

lemma clear_of_skip: "clear_of v s e ow (t ! i) \<Longrightarrow> lock_clear_slot t i v s e ow = (ok, t)"
  by (auto simp: clear_of_def lock_clear_slot_def Let_def)

text \<open>
  The two shapes of a step of the loop: the slot does not match and nothing happens, or it is
  emptied (table \<open>t0\<close>), the left part is put back (\<open>t1\<close>) and then the right part.
\<close>

lemma lock_clear_slot_cases:
  assumes "lock_clear_slot t i v s e ow = (r, t')"
  obtains (skip) "clear_of v s e ow (t ! i)" "r = ok" "t' = t"
  | (cut) r1 t1 where "\<not> clear_of v s e ow (t ! i)"
      "(if fl_start (t ! i) < s
        then lock_insert (t[i := (t ! i)\<lparr>fl_used := False\<rparr>]) v (fl_start (t ! i)) (s - 1) (fl_type (t ! i)) ow
        else (ok, t[i := (t ! i)\<lparr>fl_used := False\<rparr>])) = (r1, t1)"
      "(case r1 of Inl x \<Rightarrow> (Inl x, t1)
        | Inr _ \<Rightarrow> if fl_end (t ! i) > e then lock_insert t1 v (e + 1) (fl_end (t ! i)) (fl_type (t ! i)) ow
                   else (ok, t1)) = (r, t')"
proof (cases "clear_of v s e ow (t ! i)")
  case True
  with skip assms show thesis by (simp add: clear_of_skip)
next
  case False
  obtain r1 t1 where "(if fl_start (t ! i) < s
        then lock_insert (t[i := (t ! i)\<lparr>fl_used := False\<rparr>]) v (fl_start (t ! i)) (s - 1) (fl_type (t ! i)) ow
        else (ok, t[i := (t ! i)\<lparr>fl_used := False\<rparr>])) = (r1, t1)"
    by (meson surj_pair)
  with assms False show thesis
    by (intro cut [OF False]) (auto simp: not_clear_of_cut Let_def)
qed

lemma lock_clear_slot_length:
  "lock_clear_slot t i v s e ow = (r, t') \<Longrightarrow> length t' = length t"
proof (erule lock_clear_slot_cases)
  fix r1 t1
  assume 1: "(if fl_start (t ! i) < s
      then lock_insert (t[i := (t ! i)\<lparr>fl_used := False\<rparr>]) v (fl_start (t ! i)) (s - 1) (fl_type (t ! i)) ow
      else (ok, t[i := (t ! i)\<lparr>fl_used := False\<rparr>])) = (r1, t1)"
    and 2: "(case r1 of Inl x \<Rightarrow> (Inl x, t1)
      | Inr _ \<Rightarrow> if fl_end (t ! i) > e then lock_insert t1 v (e + 1) (fl_end (t ! i)) (fl_type (t ! i)) ow
                 else (ok, t1)) = (r, t')"
  have "length t1 = length t"
    using arg_cong [OF 1, of "length \<circ> snd"] by (auto split: if_splits)
  moreover have "length t' = length t1"
    using arg_cong [OF 2, of "length \<circ> snd"] by (auto split: if_splits sum.splits)
  ultimately show "length t' = length t" by simp
qed simp

text \<open>The step empties its own slot of the range and keeps every other slot clear.\<close>

lemma lock_clear_slot_clear_of:
  assumes st: "lock_clear_slot t i v s e ow = (r, t')" and j: "j < length t"
    and c: "j = i \<or> clear_of v s e ow (t ! j)"
  shows "clear_of v s e ow (t' ! j)"
  using st
proof (cases rule: lock_clear_slot_cases)
  case skip
  with c show ?thesis by auto
next
  case (cut r1 t1)
  let ?t0 = "t[i := (t ! i)\<lparr>fl_used := False\<rparr>]"
  have t0: "clear_of v s e ow (?t0 ! j)"
    using c j by (cases "i = j") (auto simp: clear_of_def)
  have len: "length t1 = length t"
    using arg_cong [OF cut(2), of "length \<circ> snd"] by (auto split: if_splits)
  have t1: "clear_of v s e ow (t1 ! j)"
  proof (cases "fl_start (t ! i) < s")
    case True
    then have "s - 1 < s" using word_pred_le [of "fl_start (t ! i)" s "s - 1"] by simp
    moreover from True cut(2) have
      "lock_insert ?t0 v (fl_start (t ! i)) (s - 1) (fl_type (t ! i)) ow = (r1, t1)" by simp
    ultimately show ?thesis using lock_insert_clear_of [OF _ _ t0] j by simp
  qed (use cut(2) t0 in simp)
  show ?thesis
  proof (cases "\<exists>u. r1 = Inr u \<and> e < fl_end (t ! i)")
    case True
    then have "e < e + 1" using word_succ_le [of e "fl_end (t ! i)" "e + 1"] by simp
    moreover from True cut(3) have
      "lock_insert t1 v (e + 1) (fl_end (t ! i)) (fl_type (t ! i)) ow = (r, t')" by auto
    ultimately show ?thesis using lock_insert_clear_of [OF _ _ t1] j len by simp
  qed (use cut(3) t1 in \<open>auto split: sum.splits if_splits\<close>)
qed

text \<open>Bytes outside the range, and other files and owners, keep their locks.\<close>

lemma lock_clear_slot_keeps:
  assumes st: "lock_clear_slot t i v s e ow = (Inr u, t')" and i: "i < length t"
    and out: "\<not> (v' = v \<and> ow' = ow \<and> s \<le> b \<and> b \<le> e)"
  shows "holds_lock t' v' ow' b ty \<longleftrightarrow> holds_lock t v' ow' b ty"
  using st
proof (cases rule: lock_clear_slot_cases)
  case skip
  then show ?thesis by simp
next
  case (cut r1 t1)
  let ?l = "t ! i"
  let ?t0 = "t[i := ?l\<lparr>fl_used := False\<rparr>]"
  have l: "fl_used ?l" "fl_vnode ?l = v" "fl_owner ?l = ow" "fl_start ?l \<le> e" "s \<le> fl_end ?l"
    using cut(1) by (auto simp: clear_of_def overlaps_def)
  obtain u1 where r1: "r1 = Inr u1" using cut(3) by (cases r1) auto
  have 1: "holds_lock t1 v' ow' b ty \<longleftrightarrow> holds_lock ?t0 v' ow' b ty \<or>
      (fl_start ?l < s \<and> v' = v \<and> ow' = ow \<and> fl_start ?l \<le> b \<and> b < s \<and> ty = fl_type ?l)"
    using lock_insert_if_holds [OF cut(2) [unfolded r1]] word_pred_le by blast
  have 2: "holds_lock t' v' ow' b ty \<longleftrightarrow> holds_lock t1 v' ow' b ty \<or>
      (e < fl_end ?l \<and> v' = v \<and> ow' = ow \<and> e < b \<and> b \<le> fl_end ?l \<and> ty = fl_type ?l)"
    using lock_insert_if_holds [of "e < fl_end ?l" t1] cut(3) r1 word_succ_le by fastforce
  have 3: "holds_lock t v' ow' b ty \<longleftrightarrow> holds_lock ?t0 v' ow' b ty \<or> covers ?l v' ow' b ty"
    using holds_lock_update [of i ?t0 v' ow' b ty ?l] i by auto
  show ?thesis using l out unfolding 1 2 3 covers_def by auto
qed

text \<open>Whatever the outcome, a step creates no lock that was not there.\<close>

lemma lock_clear_slot_sub:
  assumes st: "lock_clear_slot t i v s e ow = (r, t')" and i: "i < length t"
    and h: "holds_lock t' v' ow' b ty"
  shows "holds_lock t v' ow' b ty"
  using st
proof (cases rule: lock_clear_slot_cases)
  case skip
  with h show ?thesis by simp
next
  case (cut r1 t1)
  let ?l = "t ! i"
  let ?t0 = "t[i := ?l\<lparr>fl_used := False\<rparr>]"
  have l: "fl_used ?l" "fl_vnode ?l = v" "fl_owner ?l = ow" "fl_start ?l \<le> e" "s \<le> fl_end ?l"
    using cut(1) by (auto simp: clear_of_def overlaps_def)
  have 0: "holds_lock t v' ow' b ty" if "holds_lock ?t0 v' ow' b ty \<or> covers ?l v' ow' b ty"
    using holds_lock_update [of i ?t0 v' ow' b ty ?l] i that by auto
  have 1: "holds_lock ?t0 v' ow' b ty \<or> covers ?l v' ow' b ty" if h1: "holds_lock t1 v' ow' b ty"
  proof (cases r1)
    case (Inl x)
    with cut(2) have "t1 = ?t0" by (auto dest: lock_insert_if_err)
    with h1 show ?thesis by simp
  next
    case (Inr u1)
    from lock_insert_if_holds [OF cut(2) [unfolded Inr]] h1
    have "holds_lock ?t0 v' ow' b ty \<or>
      (v' = v \<and> ow' = ow \<and> fl_start ?l \<le> b \<and> b < s \<and> ty = fl_type ?l)"
      using word_pred_le by blast
    with l show ?thesis by (auto simp: covers_def)
  qed
  have "holds_lock t1 v' ow' b ty \<or> covers ?l v' ow' b ty"
  proof (cases "\<exists>u1 u. r1 = Inr u1 \<and> r = Inr u")
    case True
    then obtain u1 u where "r1 = Inr u1" "r = Inr u" by blast
    with cut(3) h have "holds_lock t1 v' ow' b ty \<or>
      (e < fl_end ?l \<and> v' = v \<and> ow' = ow \<and> e + 1 \<le> b \<and> b \<le> fl_end ?l \<and> ty = fl_type ?l)"
      using lock_insert_if_holds [of "e < fl_end ?l" t1] by fastforce
    with l show ?thesis using word_succ_le by (fastforce simp: covers_def)
  next
    case False
    with cut(3) have "t' = t1"
      by (cases r1; cases r) (auto split: if_splits dest: lock_insert_err)
    with h show ?thesis by simp
  qed
  with 0 1 show ?thesis by blast
qed

text \<open>The whole loop, by induction over the slots still to visit.\<close>

lemma lock_clear_slots_length:
  "lock_clear_slots is t v s e ow = (r, t') \<Longrightarrow> length t' = length t"
proof (induction "is" arbitrary: t)
  case (Cons i "is")
  obtain r1 t1 where st: "lock_clear_slot t i v s e ow = (r1, t1)" by (meson surj_pair)
  with Cons show ?case by (cases r1) (auto dest: lock_clear_slot_length)
qed simp

lemma lock_clear_slots_sub:
  assumes "lock_clear_slots is t v s e ow = (r, t')" "\<forall>i \<in> set is. i < length t"
    and "holds_lock t' v' ow' b ty"
  shows "holds_lock t v' ow' b ty"
  using assms
proof (induction "is" arbitrary: t)
  case (Cons i "is")
  obtain r1 t1 where st: "lock_clear_slot t i v s e ow = (r1, t1)" by (meson surj_pair)
  have "holds_lock t1 v' ow' b ty"
    using Cons st lock_clear_slot_length [OF st] by (cases r1) auto
  with st Cons.prems(2) show ?case by (auto intro: lock_clear_slot_sub)
qed simp

lemma lock_clear_slots_keeps:
  assumes "lock_clear_slots is t v s e ow = (Inr u, t')" "\<forall>i \<in> set is. i < length t"
    and out: "\<not> (v' = v \<and> ow' = ow \<and> s \<le> b \<and> b \<le> e)"
  shows "holds_lock t' v' ow' b ty \<longleftrightarrow> holds_lock t v' ow' b ty"
  using assms(1,2)
proof (induction "is" arbitrary: t)
  case (Cons i "is")
  obtain r1 t1 where st: "lock_clear_slot t i v s e ow = (r1, t1)" by (meson surj_pair)
  then obtain u1 where r1: "r1 = Inr u1" using Cons.prems by (cases r1) auto
  have "holds_lock t' v' ow' b ty \<longleftrightarrow> holds_lock t1 v' ow' b ty"
    using Cons st r1 lock_clear_slot_length [OF st] by auto
  also have "\<dots> \<longleftrightarrow> holds_lock t v' ow' b ty"
    using lock_clear_slot_keeps [OF st [unfolded r1] _ out] Cons.prems by simp
  finally show ?case .
qed simp

lemma lock_clear_slots_clear_of:
  assumes "lock_clear_slots is t v s e ow = (Inr u, t')" "\<forall>i \<in> set is. i < length t"
    and "j < length t" "j \<in> set is \<or> clear_of v s e ow (t ! j)"
  shows "clear_of v s e ow (t' ! j)"
  using assms
proof (induction "is" arbitrary: t)
  case (Cons i "is")
  obtain r1 t1 where st: "lock_clear_slot t i v s e ow = (r1, t1)" by (meson surj_pair)
  then obtain u1 where r1: "r1 = Inr u1" using Cons.prems by (cases r1) auto
  have "j \<in> set is \<or> clear_of v s e ow (t1 ! j)"
    using Cons.prems lock_clear_slot_clear_of [OF st] by auto
  with Cons st r1 lock_clear_slot_length [OF st] show ?case by auto
qed simp

lemma lock_clear_range_holds:
  assumes "lock_clear_range t v s e ow = (Inr u, t')" "length t = VFS_MAX_LOCKS"
  shows "holds_lock t' v' ow' b ty \<longleftrightarrow>
    holds_lock t v' ow' b ty \<and> \<not> (v' = v \<and> ow' = ow \<and> s \<le> b \<and> b \<le> e)"
proof (cases "v' = v \<and> ow' = ow \<and> s \<le> b \<and> b \<le> e")
  case True
  have "clear_of v s e ow (t' ! j)" if "j < length t'" for j
    using lock_clear_slots_clear_of [OF assms(1) [unfolded lock_clear_range_def], of j] that assms
      lock_clear_slots_length [OF assms(1) [unfolded lock_clear_range_def]] by auto
  with True have "\<not> holds_lock t' v' ow' b ty"
    unfolding holds_lock_nth using clear_of_not_covers by blast
  with True show ?thesis by simp
next
  case False
  with lock_clear_slots_keeps [OF assms(1) [unfolded lock_clear_range_def] _ False] assms(2)
  show ?thesis by auto
qed

lemma lock_clear_range_sub:
  assumes "lock_clear_range t v s e ow = (r, t')" "length t = VFS_MAX_LOCKS"
    and "holds_lock t' v' ow' b ty"
  shows "holds_lock t v' ow' b ty"
  using assms by (auto simp: lock_clear_range_def intro: lock_clear_slots_sub)

lemma lock_clear_range_length:
  "lock_clear_range t v s e ow = (r, t') \<Longrightarrow> length t' = length t"
  by (auto simp: lock_clear_range_def dest: lock_clear_slots_length)

section \<open>Testing and setting a lock\<close>

lemma vfs_lock_test_ok_compatible:
  assumes "vfs_lock_test t v ty s e ow = (Inr u, c)" "s \<le> b" "b \<le> e"
    and "holds_lock t v ow' b ty'" "ow' \<noteq> ow"
  shows "ty = VFS_LOCK_READ \<and> ty' = VFS_LOCK_READ"
proof -
  from assms(4) obtain l where l: "l \<in> set t" "covers l v ow' b ty'" by (auto simp: holds_lock_def)
  from assms(1) have "find_slot (lock_conflicts v ty s e ow) t = None"
    by (auto simp: vfs_lock_test_def split: if_splits option.splits)
  with l(1) have "\<not> lock_conflicts v ty s e ow l" by (simp add: find_slot_None_iff)
  with l(2) assms(2,3,5) show ?thesis by (auto simp: covers_def lock_conflicts_def overlaps_def)
qed

lemma vfs_lock_apply_length:
  "vfs_lock_apply t v ty s e ow = (r, t') \<Longrightarrow> length t' = length t"
proof -
  assume ap: "vfs_lock_apply t v ty s e ow = (r, t')"
  obtain r1 t1 where cl: "lock_clear_range t v s e ow = (r1, t1)" by (meson surj_pair)
  with ap lock_clear_range_length [OF cl] show ?thesis
    by (auto simp: vfs_lock_apply_def split: sum.splits if_splits dest: lock_insert_lengthD)
qed

lemma vfs_lock_apply_holds:
  assumes ap: "vfs_lock_apply t v ty s e ow = (Inr u, t')" and len: "length t = VFS_MAX_LOCKS"
  shows "holds_lock t' v' ow' b ty' \<longleftrightarrow>
    (if v' = v \<and> ow' = ow \<and> s \<le> b \<and> b \<le> e then ty \<noteq> VFS_LOCK_UNLOCK \<and> ty' = ty
     else holds_lock t v' ow' b ty')"
proof -
  obtain r1 t1 where cl: "lock_clear_range t v s e ow = (r1, t1)" by (meson surj_pair)
  with ap obtain u1 where r1: "r1 = Inr u1" by (auto simp: vfs_lock_apply_def split: sum.splits)
  with ap cl have ins: "(if ty \<noteq> VFS_LOCK_UNLOCK then lock_insert t1 v s e ty ow else (ok, t1)) = (Inr u, t')"
    by (simp add: vfs_lock_apply_def)
  show ?thesis
    unfolding lock_insert_if_holds [OF ins] lock_clear_range_holds [OF cl [unfolded r1] len] by auto
qed

lemma vfs_lock_apply_sub:
  assumes ap: "vfs_lock_apply t v ty s e ow = (r, t')" and len: "length t = VFS_MAX_LOCKS"
    and h: "holds_lock t' v' ow' b ty'"
  shows "holds_lock t v' ow' b ty' \<or>
    (v' = v \<and> ow' = ow \<and> s \<le> b \<and> b \<le> e \<and> ty \<noteq> VFS_LOCK_UNLOCK \<and> ty' = ty)"
proof (cases r)
  case (Inl x)
  obtain r1 t1 where cl: "lock_clear_range t v s e ow = (r1, t1)" by (meson surj_pair)
  with ap Inl have "t' = t1"
    by (cases r1) (auto simp: vfs_lock_apply_def split: if_splits dest: lock_insert_err)
  with lock_clear_range_sub [OF cl len] h show ?thesis by simp
next
  case (Inr u)
  with vfs_lock_apply_holds [OF ap [unfolded Inr] len] h show ?thesis by (auto split: if_splits)
qed

text \<open>A granted request: where the caller's lock is applied after a successful test.\<close>

lemma vfs_lock_set_cases:
  assumes "vfs_lock_set t v ty s e ow = (r, t')"
  obtains (rejected) x where "r = Inl x" "t' = t"
  | (applied) "v \<noteq> 0" "vfs_lock_apply t v ty s e ow = (r, t')"
      "ty = VFS_LOCK_UNLOCK \<or> (\<exists>u c. vfs_lock_test t v ty s e ow = (Inr u, c))"
proof (cases "v = 0 \<or> (ty \<noteq> VFS_LOCK_UNLOCK \<and> (\<exists>x. fst (vfs_lock_test t v ty s e ow) = Inl x))")
  case True
  then obtain x where "vfs_lock_set t v ty s e ow = (Inl x, t)"
    by (cases "v = 0") (auto simp: vfs_lock_set_def)
  with assms rejected [of x] show thesis by simp
next
  case False
  obtain r0 c where te: "vfs_lock_test t v ty s e ow = (r0, c)" by (meson surj_pair)
  with False assms have "vfs_lock_apply t v ty s e ow = (r, t')"
    "ty = VFS_LOCK_UNLOCK \<or> (\<exists>u. r0 = Inr u)"
    by (cases r0; auto simp: vfs_lock_set_def split: if_splits)+
  with te False applied show thesis by auto
qed

lemma no_conflict_mono:
  "no_conflict t \<Longrightarrow> (\<And>v ow b ty. holds_lock t' v ow b ty \<Longrightarrow> holds_lock t v ow b ty) \<Longrightarrow> no_conflict t'"
  unfolding no_conflict_def by blast

lemma vfs_lock_set_keeps_no_conflict:
  assumes nc: "no_conflict t" and len: "length t = VFS_MAX_LOCKS"
    and st: "vfs_lock_set t v ty s e ow = (r, t')"
  shows "no_conflict t'"
  using st
proof (cases rule: vfs_lock_set_cases)
  case rejected
  with nc show ?thesis by simp
next
  case applied
  have new: "holds_lock t w ow1 b ty1 \<or> (w = v \<and> ow1 = ow \<and> s \<le> b \<and> b \<le> e \<and> ty \<noteq> VFS_LOCK_UNLOCK \<and> ty1 = ty)"
    if "holds_lock t' w ow1 b ty1" for w ow1 b ty1
    using vfs_lock_apply_sub [OF applied(2) len that] .
  have compat: "ty = VFS_LOCK_READ \<and> ty2 = VFS_LOCK_READ"
    if "s \<le> b" "b \<le> e" "ty \<noteq> VFS_LOCK_UNLOCK" "holds_lock t v ow2 b ty2" "ow2 \<noteq> ow" for b ow2 ty2
    using applied(3) vfs_lock_test_ok_compatible that by blast
  show ?thesis unfolding no_conflict_def
  proof (intro allI impI)
    fix w b ow1 ow2 ty1 ty2
    assume ne: "ow1 \<noteq> ow2" and h: "holds_lock t' w ow1 b ty1" "holds_lock t' w ow2 b ty2"
    from new [OF h(1)] new [OF h(2)] ne compat nc
    show "ty1 = VFS_LOCK_READ \<and> ty2 = VFS_LOCK_READ"
      unfolding no_conflict_def by metis
  qed
qed

lemma vfs_lock_set_length: "vfs_lock_set t v ty s e ow = (r, t') \<Longrightarrow> length t' = length t"
  by (erule vfs_lock_set_cases) (auto dest: vfs_lock_apply_length)

section \<open>Releasing locks\<close>

lemma covers_release: "covers (if P then l\<lparr>fl_used := False\<rparr> else l) v ow b ty \<longleftrightarrow> \<not> P \<and> covers l v ow b ty"
  by (simp add: covers_def)

lemma release_owner_holds:
  "holds_lock (vfs_lock_release_owner t ow) v' ow' b ty \<longleftrightarrow> ow' \<noteq> ow \<and> holds_lock t v' ow' b ty"
  by (auto simp: holds_lock_def vfs_lock_release_owner_def covers_release) (auto simp: covers_def)

lemma release_vnode_holds:
  "holds_lock (vfs_lock_release_vnode t v ow) v' ow' b ty \<longleftrightarrow>
     \<not> (v' = v \<and> ow' = ow) \<and> holds_lock t v' ow' b ty"
  by (auto simp: holds_lock_def vfs_lock_release_vnode_def covers_release) (auto simp: covers_def)

section \<open>Behaviour on a full table\<close>

lemma lock_clear_slots_skip:
  "\<forall>i \<in> set is. clear_of v s e ow (t ! i) \<Longrightarrow>
   lock_clear_slots (is @ js) t v s e ow = lock_clear_slots js t v s e ow"
  by (induction "is") (simp_all add: clear_of_skip)

lemma find_slot_only_free:
  assumes "\<forall>l \<in> set t. fl_used l" "i < length t" "\<not> fl_used x"
  shows "find_slot (\<lambda>l. \<not> fl_used l) (t[i := x]) = Some i"
proof (rule find_slot_eqI)
  fix j assume "j < i"
  with assms have "t ! j \<in> set t" by simp
  with \<open>j < i\<close> assms(1) show "\<not> \<not> fl_used (t[i := x] ! j)" by auto
qed (use assms in auto)

text \<open>With no free slot, the left part goes into the slot just emptied and the right part nowhere.\<close>

lemma lock_clear_slot_full:
  assumes full: "\<forall>l \<in> set t. fl_used l" and i: "i < length t"
    and l: "fl_vnode (t ! i) = v" "fl_owner (t ! i) = ow" "fl_start (t ! i) < s" "s \<le> e" "e < fl_end (t ! i)"
  shows "lock_clear_slot t i v s e ow = (Inl ENOLCK, t[i := (t ! i)\<lparr>fl_end := s - 1\<rparr>])"
proof -
  let ?l = "t ! i"
  let ?t0 = "t[i := ?l\<lparr>fl_used := False\<rparr>]"
  let ?t1 = "t[i := ?l\<lparr>fl_end := s - 1\<rparr>]"
  have used: "fl_used ?l" using full i by simp
  have slot: "find_slot (\<lambda>l. \<not> fl_used l) ?t0 = Some i" using full i by (rule find_slot_only_free) simp
  have "\<lparr>fl_used = True, fl_vnode = v, fl_start = fl_start ?l, fl_end = s - 1, fl_type = fl_type ?l,
      fl_owner = ow\<rparr> = ?l\<lparr>fl_end := s - 1\<rparr>"
    using l used by (cases ?l) simp
  then have "lock_insert ?t0 v (fl_start ?l) (s - 1) (fl_type ?l) ow = (ok, ?t1)"
    unfolding lock_insert_def slot by simp
  moreover have "find_slot (\<lambda>l. \<not> fl_used l) ?t1 = None"
    unfolding find_slot_None_iff using full used i set_update_subset_insert by fastforce
  then have "lock_insert ?t1 v (e + 1) (fl_end ?l) (fl_type ?l) ow = (Inl ENOLCK, ?t1)"
    by (simp add: lock_insert_def)
  moreover have "\<not> clear_of v s e ow ?l" using used l by (auto simp: clear_of_def overlaps_def)
  ultimately show ?thesis using l by (simp add: not_clear_of_cut Let_def)
qed

lemma lock_clear_range_full:
  assumes full: "\<forall>l \<in> set t. fl_used l" and len: "length t = VFS_MAX_LOCKS" and i: "i < length t"
    and l: "fl_vnode (t ! i) = v" "fl_owner (t ! i) = ow" "fl_start (t ! i) < s" "s \<le> e" "e < fl_end (t ! i)"
    and first: "\<forall>j<i. clear_of v s e ow (t ! j)"
  shows "lock_clear_range t v s e ow = (Inl ENOLCK, t[i := (t ! i)\<lparr>fl_end := s - 1\<rparr>])"
proof -
  have "[0..<VFS_MAX_LOCKS] = [0..<i] @ i # [Suc i..<VFS_MAX_LOCKS]"
    using i len upt_add_eq_append [of 0 i "VFS_MAX_LOCKS - i"] by (simp add: upt_conv_Cons)
  moreover have "lock_clear_slots ([0..<i] @ i # [Suc i..<VFS_MAX_LOCKS]) t v s e ow =
      lock_clear_slots (i # [Suc i..<VFS_MAX_LOCKS]) t v s e ow"
    by (rule lock_clear_slots_skip) (use first in simp)
  ultimately show ?thesis
    by (simp add: lock_clear_range_def lock_clear_slot_full [OF full i l])
qed

text \<open>Nothing of the caller in the range: the lock goes into the first free slot.\<close>

lemma vfs_lock_apply_fresh:
  assumes "length t = VFS_MAX_LOCKS" "\<forall>l \<in> set t. clear_of v s e ow l" "ty \<noteq> VFS_LOCK_UNLOCK"
  shows "vfs_lock_apply t v ty s e ow = lock_insert t v s e ty ow"
  using lock_clear_slots_skip [of "[0..<VFS_MAX_LOCKS]" v s e ow t "[]"] assms
  by (simp add: vfs_lock_apply_def lock_clear_range_def)

section \<open>Sequences of lock operations\<close>

text \<open>The operations as their callers issue them, each to completion before the next.\<close>

datatype flock_op =
    Lock_set nat lock_type u64 u64 int
  | Release_owner int
  | Release_vnode nat int

fun flock_step :: "lock_table \<Rightarrow> flock_op \<Rightarrow> lock_table" where
  "flock_step t (Lock_set v ty s e ow) = snd (vfs_lock_set t v ty s e ow)"
| "flock_step t (Release_owner ow) = vfs_lock_release_owner t ow"
| "flock_step t (Release_vnode v ow) = vfs_lock_release_vnode t v ow"

lemma flock_step_length [simp]: "length (flock_step t x) = length t"
  by (cases x) (simp_all add: vfs_lock_release_owner_def vfs_lock_release_vnode_def
      vfs_lock_set_length [OF prod.collapse [symmetric]])

lemma flock_step_no_conflict:
  "no_conflict t \<Longrightarrow> length t = VFS_MAX_LOCKS \<Longrightarrow> no_conflict (flock_step t x)"
proof (cases x)
  case (Lock_set v ty s e ow)
  assume "no_conflict t" "length t = VFS_MAX_LOCKS"
  from vfs_lock_set_keeps_no_conflict [OF this, of v ty s e ow] Lock_set
  show ?thesis by (metis flock_step.simps(1) prod.collapse)
qed (auto simp: release_owner_holds release_vnode_holds elim!: no_conflict_mono)

lemma foldl_flock_step_no_conflict:
  "no_conflict t \<Longrightarrow> length t = VFS_MAX_LOCKS \<Longrightarrow> no_conflict (foldl flock_step t xs)"
  by (induction xs arbitrary: t) (simp_all add: flock_step_no_conflict)

lemma holds_lock_init [simp]: "\<not> holds_lock g_locks_init v ow b ty"
  by (simp add: holds_lock_def g_locks_init_def free_lock_def)

section \<open>Interleaved requests\<close>

text \<open>
  \<open>vfs_lock_set\<close> tests and inserts in two critical sections of \<^verbatim>\<open>g_lock_table\<close>.  The state
  below is the table together with the requests that have passed the test and not yet
  re-acquired the lock.
\<close>

type_synonym lock_req = "nat \<times> lock_type \<times> u64 \<times> u64 \<times> int"

inductive flock_sys :: "lock_table \<times> lock_req list \<Rightarrow> bool" where
  start: "flock_sys (g_locks_init, [])"
| tested: "flock_sys (t, ps) \<Longrightarrow> v \<noteq> 0 \<Longrightarrow> ty \<noteq> VFS_LOCK_UNLOCK \<Longrightarrow>
    fst (vfs_lock_test t v ty s e ow) = ok \<Longrightarrow> flock_sys (t, (v, ty, s, e, ow) # ps)"
| applied: "flock_sys (t, ps @ (v, ty, s, e, ow) # qs) \<Longrightarrow>
    flock_sys (snd (vfs_lock_apply t v ty s e ow), ps @ qs)"
| unlocked: "flock_sys (t, ps) \<Longrightarrow> v \<noteq> 0 \<Longrightarrow>
    flock_sys (snd (vfs_lock_apply t v VFS_LOCK_UNLOCK s e ow), ps)"
| released: "flock_sys (t, ps) \<Longrightarrow> flock_sys (vfs_lock_release_owner t ow, ps)"
| closed: "flock_sys (t, ps) \<Longrightarrow> flock_sys (vfs_lock_release_vnode t v ow, ps)"

section \<open>Properties\<close>

text \<open>
  C23. A successful \<open>vfs_lock_set\<close> implements the POSIX rule byte by byte: on the requested
  range the caller holds exactly the requested kind of lock (none after an unlock), and every
  other byte, file and owner is as before, whatever splits and merges of table entries it took.
\<close>

theorem vfs_lock_set_posix:
  assumes "length t = VFS_MAX_LOCKS" and "vfs_lock_set t v ty s e ow = (ok, t')"
  shows "holds_lock t' v' ow' b ty' \<longleftrightarrow>
    (if v' = v \<and> ow' = ow \<and> s \<le> b \<and> b \<le> e then ty \<noteq> VFS_LOCK_UNLOCK \<and> ty' = ty
     else holds_lock t v' ow' b ty')"
  using assms(2)
  by (cases rule: vfs_lock_set_cases) (simp_all add: vfs_lock_apply_holds [OF _ assms(1)])

theorem vfs_lock_set_posix_witness:
  "\<exists>t t'. vfs_lock_set t 1 VFS_LOCK_UNLOCK 10 19 1 = (ok, t') \<and>
     holds_lock t 1 1 15 VFS_LOCK_WRITE \<and> \<not> holds_lock t' 1 1 15 VFS_LOCK_WRITE \<and>
     holds_lock t' 1 1 25 VFS_LOCK_WRITE"
proof -
  let ?l = "\<lparr>fl_used = True, fl_vnode = 1, fl_start = 0, fl_end = 99, fl_type = VFS_LOCK_WRITE, fl_owner = 1\<rparr>"
  let ?t = "?l # free_lock # replicate 254 free_lock"
  let ?t' = "?l\<lparr>fl_end := 9\<rparr> # ?l\<lparr>fl_start := 20\<rparr> # replicate 254 free_lock"
  have len: "length ?t = VFS_MAX_LOCKS" by (simp add: VFS_MAX_LOCKS_def)
  have "lock_clear_slot ?t 0 1 10 19 1 = (ok, ?t')"
    by (simp add: lock_clear_slot_def lock_insert_def overlaps_def free_lock_def)
  moreover have "\<forall>l \<in> set ?t'. clear_of 1 10 19 1 l"
    by (simp add: clear_of_def overlaps_def free_lock_def)
  then have "\<forall>i \<in> set [1..<256]. clear_of 1 10 19 1 (?t' ! i)"
    by (intro ballI) (erule bspec, rule nth_mem, simp)
  from lock_clear_slots_skip [OF this, of "[]"]
  have "lock_clear_slots [1..<256] ?t' 1 10 19 1 = (ok, ?t')" by simp
  ultimately have set: "vfs_lock_set ?t 1 VFS_LOCK_UNLOCK 10 19 1 = (ok, ?t')"
    by (simp add: vfs_lock_set_def vfs_lock_apply_def lock_clear_range_def VFS_MAX_LOCKS_def
        upt_conv_Cons del: upt_Suc)
  have "holds_lock ?t 1 1 15 VFS_LOCK_WRITE" "holds_lock ?t 1 1 25 VFS_LOCK_WRITE"
    by (simp_all add: holds_lock_def covers_def)
  with set vfs_lock_set_posix [OF len set, of 1 1 15] vfs_lock_set_posix [OF len set, of 1 1 25]
  show ?thesis by auto
qed


text \<open>
  The range that \<open>flock_range\<close> hands to the lock table is never inverted, also for
  negative lengths and for wrapped sums.
\<close>

theorem flock_range_ordered:
  assumes "flock_range off fsz wh l_start l_len = Inr (s, e)"
  shows "s \<le> e \<and> sint s \<ge> 0"
proof -
  have b: "0 \<le> sint s"
    and e: "e = (if l_len = 0 then - 1 else s + (if sint l_len < 0 then - l_len else l_len) - 1)"
    using assms by (auto simp: flock_range_def Let_def split: sum.splits if_splits)
  show ?thesis
  proof (cases "l_len = 0")
    case False
    have "s \<le> s + (if sint l_len < 0 then - l_len else l_len) - 1"
      using sint_nonneg_bound [OF b] abs_len_bound False
      by (intro range_end_no_wrap) (simp_all add: unat_gt_0)
    with b e False show ?thesis by simp
  qed (use b e in simp)
qed

theorem flock_range_ordered_witness:
  "flock_range 100 None SEEK_CUR 20 (- 50) = Inr (70, 119) \<and> (70 :: u64) \<le> 119 \<and> 0 \<le> sint (70 :: u64)"
proof -
  have h: "flock_range 100 None SEEK_CUR 20 (- 50) = Inr (70, 119)" by (simp add: flock_range_def)
  show ?thesis using h flock_range_ordered [OF h] by simp
qed

text \<open>
  The failure path of a split: when the table is full, unlocking the middle of a lock
  returns \<open>ENOLCK\<close> but has already cut the lock down to the part before the range; the caller
  silently loses the part after it.
\<close>

theorem unlock_middle_of_full_table:
  assumes "length t = VFS_MAX_LOCKS" "\<forall>l \<in> set t. fl_used l" "i < length t" "v \<noteq> 0"
    and "fl_vnode (t ! i) = v" "fl_owner (t ! i) = ow"
    and "fl_start (t ! i) < s" "s \<le> e" "e < fl_end (t ! i)"
    and "\<forall>j<i. \<not> (fl_vnode (t ! j) = v \<and> fl_owner (t ! j) = ow \<and> overlaps (t ! j) s e)"
  shows "vfs_lock_set t v VFS_LOCK_UNLOCK s e ow = (Inl ENOLCK, t[i := (t ! i)\<lparr>fl_end := s - 1\<rparr>])"
proof -
  have "\<forall>j<i. clear_of v s e ow (t ! j)" using assms(10) by (auto simp: clear_of_def)
  with assms show ?thesis
    by (simp add: vfs_lock_set_def vfs_lock_apply_def lock_clear_range_full [OF assms(2,1,3,5-9)])
qed

definition full_table :: lock_table where
  "full_table = \<lparr>fl_used = True, fl_vnode = 1, fl_start = 0, fl_end = 99, fl_type = VFS_LOCK_WRITE, fl_owner = 1\<rparr>
     # replicate 255 \<lparr>fl_used = True, fl_vnode = 2, fl_start = 0, fl_end = 0, fl_type = VFS_LOCK_READ, fl_owner = 2\<rparr>"

theorem unlock_middle_of_full_table_witness:
  "vfs_lock_set full_table 1 VFS_LOCK_UNLOCK 10 19 1 =
     (Inl ENOLCK, full_table[0 := (full_table ! 0)\<lparr>fl_end := 9\<rparr>]) \<and>
   holds_lock full_table 1 1 50 VFS_LOCK_WRITE \<and>
   \<not> holds_lock (full_table[0 := (full_table ! 0)\<lparr>fl_end := 9\<rparr>]) 1 1 50 VFS_LOCK_WRITE"
  using unlock_middle_of_full_table [of full_table 0 1 1 10 19]
  by (simp add: full_table_def VFS_MAX_LOCKS_def holds_lock_def covers_def)

text \<open>
  Because the test and the insertion are separate critical sections, two callers whose
  tests both run first can both be granted a write lock on the same byte: the exclusion that
  holds for whole calls does not survive their interleaving.
\<close>

theorem vfs_lock_set_race:
  "\<exists>t. flock_sys (t, []) \<and> holds_lock t 1 1 0 VFS_LOCK_WRITE \<and> holds_lock t 1 2 0 VFS_LOCK_WRITE"
proof -
  let ?l = "\<lambda>ow. \<lparr>fl_used = True, fl_vnode = 1, fl_start = 0, fl_end = 0, fl_type = VFS_LOCK_WRITE, fl_owner = ow\<rparr>"
  let ?r = "\<lambda>ow. (1, VFS_LOCK_WRITE, 0, 0, ow) :: lock_req"
  let ?t1 = "?l 1 # free_lock # replicate 254 free_lock"
  let ?t2 = "?l 1 # ?l 2 # replicate 254 free_lock"
  have init: "g_locks_init = free_lock # free_lock # replicate 254 free_lock"
    using replicate_add [of 2 254 free_lock] by (simp add: g_locks_init_def VFS_MAX_LOCKS_def numeral_2_eq_2)
  have "find_slot (lock_conflicts 1 VFS_LOCK_WRITE 0 0 ow) g_locks_init = None" for ow
    by (simp add: find_slot_None_iff g_locks_init_def free_lock_def lock_conflicts_def)
  then have "fst (vfs_lock_test g_locks_init 1 VFS_LOCK_WRITE 0 0 ow) = ok" for ow
    by (simp add: vfs_lock_test_def)
  then have "flock_sys (g_locks_init, [] @ ?r 1 # [?r 2])"
    using flock_sys.start flock_sys.tested by auto
  then have "flock_sys (snd (vfs_lock_apply g_locks_init 1 VFS_LOCK_WRITE 0 0 1), [] @ [?r 2])"
    by (rule flock_sys.applied)
  moreover have "vfs_lock_apply g_locks_init 1 VFS_LOCK_WRITE 0 0 1 = (ok, ?t1)"
    by (subst vfs_lock_apply_fresh)
      (simp_all add: init lock_insert_def free_lock_def clear_of_def VFS_MAX_LOCKS_def)
  ultimately have "flock_sys (?t1, [] @ ?r 2 # [])" by simp
  then have "flock_sys (snd (vfs_lock_apply ?t1 1 VFS_LOCK_WRITE 0 0 2), [] @ [])"
    by (rule flock_sys.applied)
  moreover have "vfs_lock_apply ?t1 1 VFS_LOCK_WRITE 0 0 2 = (ok, ?t2)"
    by (subst vfs_lock_apply_fresh)
      (simp_all add: init lock_insert_def free_lock_def clear_of_def VFS_MAX_LOCKS_def)
  ultimately have "flock_sys (?t2, [])" by simp
  moreover have "holds_lock ?t2 1 1 0 VFS_LOCK_WRITE \<and> holds_lock ?t2 1 2 0 VFS_LOCK_WRITE"
    by (simp add: holds_lock_def covers_def)
  ultimately show ?thesis by blast
qed

end
