(* ===== verification/Kmutex.thy ===== *)
theory Kmutex
  imports Cervus_Prelude
begin

text \<open>
  The sleeping mutex of \<^verbatim>\<open>kernel/src/sched/kmutex.c\<close>.  The operations are the atomic regions of
  the code (the compare-and-swap of \<open>kmutex_trylock\<close>, the store of the owner that follows it, the
  critical sections of \<open>wait_lock\<close>, the load of \<open>granted\<close>), and \<open>kmutex_step\<close> interleaves the
  regions of any number of threads.  A waiter record lives on the stack of the waiting thread, so
  the thread names it.
\<close>

record kmutex =
  m_locked :: bool
  m_owner :: "nat option"
  m_waiters :: "nat list"
  m_tail :: "nat option"
  w_granted :: "nat \<Rightarrow> bool"

definition kmutex_init :: kmutex where
  "kmutex_init = \<lparr>m_locked = False, m_owner = None, m_waiters = [], m_tail = None, w_granted = (\<lambda>_. False)\<rparr>"

text \<open>The compare-and-swap; the owner is stored afterwards.\<close>

definition kmutex_cas :: "kmutex \<Rightarrow> bool \<times> kmutex" where
  "kmutex_cas m = (if m_locked m then (False, m) else (True, m\<lparr>m_locked := True\<rparr>))"

definition kmutex_set_owner :: "nat \<Rightarrow> kmutex \<Rightarrow> kmutex" where
  "kmutex_set_owner t m = m\<lparr>m_owner := Some t\<rparr>"

definition kmutex_trylock :: "nat \<Rightarrow> kmutex \<Rightarrow> bool \<times> kmutex" where
  "kmutex_trylock t m = (case kmutex_cas m of (True, m') \<Rightarrow> (True, kmutex_set_owner t m') | (False, m') \<Rightarrow> (False, m'))"

text \<open>The critical section of \<open>kmutex_lock\<close>: a second attempt, then the enqueueing.\<close>

definition kmutex_wait :: "nat \<Rightarrow> kmutex \<Rightarrow> bool \<times> kmutex" where
  "kmutex_wait t m =
     (case kmutex_cas m of
        (True, m') \<Rightarrow> (True, m')
      | (False, m') \<Rightarrow>
          (False, m'\<lparr>m_waiters := link_tail id (m_tail m') t (m_waiters m'), m_tail := Some t,
                    w_granted := (w_granted m')(t := False)\<rparr>))"

text \<open>The thread to be unblocked is the first component.\<close>

definition kmutex_unlock :: "kmutex \<Rightarrow> nat option \<times> kmutex" where
  "kmutex_unlock m =
     (case m_waiters m of
        w # ws \<Rightarrow>
          (Some w, m\<lparr>m_owner := None, m_waiters := ws, m_tail := (if ws = [] then None else m_tail m),
                     w_granted := (w_granted m)(w := True)\<rparr>)
      | [] \<Rightarrow> (None, m\<lparr>m_owner := None, m_locked := False\<rparr>))"

definition kmutex_held_by_me :: "nat \<Rightarrow> kmutex \<Rightarrow> bool" where
  "kmutex_held_by_me t m \<longleftrightarrow> m_locked m \<and> m_owner m = Some t"

section \<open>Threads\<close>

text \<open>
  Where a thread is in \<open>kmutex_lock\<close>: outside, in the spinning loop of a thread that cannot sleep,
  on its way to \<open>wait_lock\<close>, on the queue, with the lock taken but the owner not yet stored, or
  holding the lock.
\<close>

datatype kpc = Idle | Spinning | Slow | Queued | Acquired | Holding

text \<open>One atomic region of thread \<open>t\<close> at \<open>pc\<close>; \<open>can_sleep\<close> is the condition the code computes.\<close>

definition kmutex_thread :: "bool \<Rightarrow> nat \<Rightarrow> kpc \<Rightarrow> kmutex \<Rightarrow> kpc \<times> kmutex" where
  "kmutex_thread can_sleep t pc m =
     (case pc of
        Idle \<Rightarrow> (case kmutex_cas m of
                   (True, m') \<Rightarrow> (Acquired, m')
                 | (False, m') \<Rightarrow> (if can_sleep then Slow else Spinning, m'))
      | Spinning \<Rightarrow> (case kmutex_cas m of (True, m') \<Rightarrow> (Acquired, m') | (False, m') \<Rightarrow> (Spinning, m'))
      | Slow \<Rightarrow> (case kmutex_wait t m of (True, m') \<Rightarrow> (Acquired, m') | (False, m') \<Rightarrow> (Queued, m'))
      | Queued \<Rightarrow> (if w_granted m t then Acquired else Queued, m)
      | Acquired \<Rightarrow> (Holding, kmutex_set_owner t m)
      | Holding \<Rightarrow> (Idle, snd (kmutex_unlock m)))"

inductive kmutex_run :: "kmutex \<times> (nat \<Rightarrow> kpc) \<Rightarrow> bool" where
  start: "kmutex_run (kmutex_init, \<lambda>_. Idle)"
| step: "kmutex_run (m, pcs) \<Longrightarrow> kmutex_thread can_sleep t (pcs t) m = (pc', m') \<Longrightarrow>
    kmutex_run (m', pcs(t := pc'))"

text \<open>The lock belongs to \<open>t\<close>: taken by the compare-and-swap, or handed over by an unlock.\<close>

definition owns :: "kmutex \<times> (nat \<Rightarrow> kpc) \<Rightarrow> nat \<Rightarrow> bool" where
  "owns s t \<longleftrightarrow> snd s t = Acquired \<or> snd s t = Holding \<or> snd s t = Queued \<and> w_granted (fst s) t"

definition kmutex_inv :: "kmutex \<times> (nat \<Rightarrow> kpc) \<Rightarrow> bool" where
  "kmutex_inv s \<longleftrightarrow>
     tail_ok id (m_tail (fst s)) (m_waiters (fst s)) \<and>
     (\<forall>t. t \<in> set (m_waiters (fst s)) \<longleftrightarrow> snd s t = Queued \<and> \<not> w_granted (fst s) t) \<and>
     (\<forall>t u. owns s t \<longrightarrow> owns s u \<longrightarrow> t = u) \<and>
     (m_locked (fst s) \<longleftrightarrow> (\<exists>t. owns s t)) \<and>
     (\<forall>t. snd s t = Holding \<longleftrightarrow> m_owner (fst s) = Some t)"


lemma kmutex_inv_unlocked: "kmutex_inv (m, pcs) \<Longrightarrow> \<not> m_locked m \<Longrightarrow> \<not> owns (m, pcs) t"
  by (auto simp: kmutex_inv_def)

lemma kmutex_inv_locked: "kmutex_inv (m, pcs) \<Longrightarrow> owns (m, pcs) t \<Longrightarrow> m_locked m"
  by (auto simp: kmutex_inv_def)

lemma kmutex_inv_owner: "kmutex_inv (m, pcs) \<Longrightarrow> m_owner m = Some t \<longleftrightarrow> pcs t = Holding"
  by (auto simp: kmutex_inv_def)

lemma kmutex_inv_unique: "kmutex_inv s \<Longrightarrow> owns s t \<Longrightarrow> owns s u \<Longrightarrow> t = u"
  unfolding kmutex_inv_def by blast

lemma kmutex_inv_queue: "kmutex_inv (m, pcs) \<Longrightarrow> t \<in> set (m_waiters m) \<longleftrightarrow> pcs t = Queued \<and> \<not> w_granted m t"
  by (simp add: kmutex_inv_def)

lemma kmutex_inv_tail: "kmutex_inv (m, pcs) \<Longrightarrow> tail_ok id (m_tail m) (m_waiters m)"
  by (simp add: kmutex_inv_def)

lemma kmutex_invI:
  assumes "tail_ok id (m_tail m) (m_waiters m)"
    and "\<And>t. t \<in> set (m_waiters m) \<longleftrightarrow> pcs t = Queued \<and> \<not> w_granted m t"
    and "\<And>t u. owns (m, pcs) t \<Longrightarrow> owns (m, pcs) u \<Longrightarrow> t = u"
    and "m_locked m \<longleftrightarrow> (\<exists>t. owns (m, pcs) t)"
    and "\<And>t. m_owner m = Some t \<longleftrightarrow> pcs t = Holding"
  shows "kmutex_inv (m, pcs)"
  using assms by (auto simp: kmutex_inv_def)

text \<open>A thread that finds the mutex free becomes its only owner.\<close>

lemma acquire_inv:
  assumes inv: "kmutex_inv (m, pcs)" and free: "\<not> m_locked m" and pc: "pcs t \<noteq> Queued"
  shows "kmutex_inv (m\<lparr>m_locked := True\<rparr>, pcs(t := Acquired))"
proof -
  have none: "\<not> owns (m, pcs) u" for u using kmutex_inv_unlocked [OF inv free] .
  have "owns (m\<lparr>m_locked := True\<rparr>, pcs(t := Acquired)) u \<longleftrightarrow> u = t" for u
    using none [of u] by (auto simp: owns_def)
  moreover have "m_owner m \<noteq> Some u" for u
    using kmutex_inv_owner [OF inv] none [of u] by (auto simp: owns_def)
  ultimately show ?thesis using inv none pc by (auto simp: kmutex_inv_def owns_def)
qed

lemma retry_inv:
  assumes "kmutex_inv (m, pcs)" "pcs t = Idle \<or> pcs t = Spinning" "pc = Slow \<or> pc = Spinning"
  shows "kmutex_inv (m, pcs(t := pc))"
proof -
  have "owns (m, pcs(t := pc)) u \<longleftrightarrow> owns (m, pcs) u" for u
    using assms by (auto simp: owns_def)
  moreover have "m_owner m \<noteq> Some t" using kmutex_inv_owner [OF assms(1)] assms(2) by auto
  ultimately show ?thesis using assms by (auto simp: kmutex_inv_def)
qed

lemma enqueue_inv:
  assumes inv: "kmutex_inv (m, pcs)" and pc: "pcs t = Slow"
  shows "kmutex_inv (m\<lparr>m_waiters := link_tail id (m_tail m) t (m_waiters m), m_tail := Some t,
    w_granted := (w_granted m)(t := False)\<rparr>, pcs(t := Queued))" (is "kmutex_inv (?m, ?pcs)")
proof -
  have tl: "tail_ok id (m_tail m) (m_waiters m)" and new: "t \<notin> set (m_waiters m)"
    using inv pc by (auto simp: kmutex_inv_def)
  have "owns (?m, ?pcs) u \<longleftrightarrow> owns (m, pcs) u" for u
    using pc by (auto simp: owns_def)
  moreover have "tail_ok id (Some t) (m_waiters m @ [t])"
    using tail_ok_append [OF tl, of t] new by simp
  moreover have "m_owner m \<noteq> Some t" using kmutex_inv_owner [OF inv] pc by auto
  ultimately show ?thesis
    using inv pc new link_tail_append [OF tl] by (auto simp: kmutex_inv_def)
qed

lemma granted_inv:
  assumes "kmutex_inv (m, pcs)" "pcs t = Queued" "w_granted m t"
  shows "kmutex_inv (m, pcs(t := Acquired))"
proof -
  have "owns (m, pcs(t := Acquired)) u \<longleftrightarrow> owns (m, pcs) u" for u
    using assms by (auto simp: owns_def)
  moreover have "m_owner m \<noteq> Some t" using kmutex_inv_owner [OF assms(1)] assms(2) by auto
  ultimately show ?thesis using assms by (auto simp: kmutex_inv_def)
qed

lemma set_owner_inv:
  assumes inv: "kmutex_inv (m, pcs)" and pc: "pcs t = Acquired"
  shows "kmutex_inv (kmutex_set_owner t m, pcs(t := Holding))" (is "kmutex_inv ?s")
proof -
  have own: "owns (m, pcs) t" using pc by (simp add: owns_def)
  have eq: "owns ?s u \<longleftrightarrow> owns (m, pcs) u" for u
    using pc by (auto simp: owns_def kmutex_set_owner_def)
  have no: "pcs u \<noteq> Holding" for u
    using kmutex_inv_unique [OF inv own, of u] pc by (auto simp: owns_def)
  show ?thesis
  proof (rule kmutex_invI)
    show "m_locked (kmutex_set_owner t m) \<longleftrightarrow> (\<exists>u. owns ?s u)"
      using inv unfolding eq by (simp add: kmutex_inv_def kmutex_set_owner_def)
  qed (use kmutex_inv_unique [OF inv] kmutex_inv_queue [OF inv] kmutex_inv_tail [OF inv] pc no eq
       in \<open>auto simp: kmutex_set_owner_def\<close>)
qed

lemma unlock_inv:
  assumes inv: "kmutex_inv (m, pcs)" and pc: "pcs t = Holding"
  shows "kmutex_inv (snd (kmutex_unlock m), pcs(t := Idle))" (is "kmutex_inv (?m, ?pcs)")
proof -
  have own: "owns (m, pcs) t" using pc by (simp add: owns_def)
  have only: "owns (m, pcs) u \<Longrightarrow> u = t" for u using kmutex_inv_unique [OF inv _ own] .
  have hold: "pcs u = Holding \<Longrightarrow> u = t" for u using only by (auto simp: owns_def)
  note q = kmutex_inv_queue [OF inv] and tl = kmutex_inv_tail [OF inv]
  show ?thesis
  proof (cases "m_waiters m")
    case Nil
    then have "owns (?m, ?pcs) u \<Longrightarrow> u \<noteq> t \<and> owns (m, pcs) u" for u
      by (auto simp: owns_def kmutex_unlock_def split: if_splits)
    with only have none: "\<not> owns (?m, ?pcs) u" for u by blast
    show ?thesis
    proof (rule kmutex_invI)
      show "u \<in> set (m_waiters ?m) \<longleftrightarrow> ?pcs u = Queued \<and> \<not> w_granted ?m u" for u
        using q [of u] Nil pc by (cases "u = t") (simp_all add: kmutex_unlock_def)
      show "m_owner ?m = Some u \<longleftrightarrow> ?pcs u = Holding" for u
        using hold [of u] Nil by (cases "u = t") (auto simp: kmutex_unlock_def)
    qed (use none tl Nil in \<open>simp_all add: kmutex_unlock_def\<close>)
  next
    case (Cons w ws)
    then have w: "pcs w = Queued" "\<not> w_granted m w" "w \<notin> set ws" "w \<noteq> t"
      using q [of w] tl pc by (auto simp: tail_ok_def)
    have "owns (?m, ?pcs) u \<Longrightarrow> u = w \<or> u \<noteq> t \<and> owns (m, pcs) u" for u
      using Cons by (auto simp: owns_def kmutex_unlock_def split: if_splits)
    with only have "owns (?m, ?pcs) u \<Longrightarrow> u = w" for u by blast
    moreover have "owns (?m, ?pcs) w" using w Cons by (simp add: owns_def kmutex_unlock_def)
    ultimately have eq: "owns (?m, ?pcs) u \<longleftrightarrow> u = w" for u by blast
    show ?thesis
    proof (rule kmutex_invI)
      show "u \<in> set (m_waiters ?m) \<longleftrightarrow> ?pcs u = Queued \<and> \<not> w_granted ?m u" for u
        using q [of u] w Cons pc by (cases "u = t"; cases "u = w") (auto simp: kmutex_unlock_def)
      show "m_owner ?m = Some u \<longleftrightarrow> ?pcs u = Holding" for u
        using hold [of u] Cons by (cases "u = t") (auto simp: kmutex_unlock_def)
      show "tail_ok id (m_tail ?m) (m_waiters ?m)"
        using tl Cons by (auto simp: tail_ok_def kmutex_unlock_def)
    qed (use eq kmutex_inv_locked [OF inv own] Cons in \<open>simp_all add: kmutex_unlock_def\<close>)
  qed
qed

lemma kmutex_thread_inv:
  assumes inv: "kmutex_inv (m, pcs)" and th: "kmutex_thread can_sleep t (pcs t) m = (pc', m')"
  shows "kmutex_inv (m', pcs(t := pc'))"
proof (cases "pcs t")
  case Idle
  with th acquire_inv [OF inv, of t] retry_inv [OF inv, of t] show ?thesis
    by (auto simp: kmutex_thread_def kmutex_cas_def split: if_splits)
next
  case Spinning
  with th acquire_inv [OF inv, of t] retry_inv [OF inv, of t] show ?thesis
    by (auto simp: kmutex_thread_def kmutex_cas_def split: if_splits)
next
  case Slow
  with th acquire_inv [OF inv, of t] enqueue_inv [OF inv, of t] show ?thesis
    by (auto simp: kmutex_thread_def kmutex_cas_def kmutex_wait_def split: if_splits)
next
  case Queued
  then have "pcs(t := Queued) = pcs" by auto
  with Queued inv th granted_inv [OF inv, of t] show ?thesis by (auto simp: kmutex_thread_def split: if_splits)
next
  case Acquired
  with th set_owner_inv [OF inv, of t] show ?thesis by (auto simp: kmutex_thread_def)
next
  case Holding
  with th unlock_inv [OF inv, of t] show ?thesis by (auto simp: kmutex_thread_def)
qed

lemma kmutex_run_inv: "kmutex_run s \<Longrightarrow> kmutex_inv s"
proof (induction rule: kmutex_run.induct)
  case start
  show ?case by (rule kmutex_invI) (simp_all add: owns_def kmutex_init_def)
next
  case (step m pcs can_sleep t pc' m')
  then show ?case by (intro kmutex_thread_inv)
qed

text \<open>The run of the witnesses: thread 0 takes the mutex, thread 1 queues up behind it.\<close>

definition two_threads :: "kmutex \<times> (nat \<Rightarrow> kpc)" where
  "two_threads =
     (\<lparr>m_locked = True, m_owner = Some 0, m_waiters = [1], m_tail = Some 1, w_granted = (\<lambda>_. False)(1 := False)\<rparr>,
      (\<lambda>_. Idle)(0 := Acquired, 0 := Holding, 1 := Slow, 1 := Queued))"

lemma two_threads_run: "kmutex_run two_threads"
proof -
  have 1: "kmutex_run (kmutex_init\<lparr>m_locked := True\<rparr>, (\<lambda>_. Idle)(0 := Acquired))"
    by (rule kmutex_run.step [OF kmutex_run.start, of True 0])
       (simp add: kmutex_thread_def kmutex_cas_def kmutex_init_def)
  have 2: "kmutex_run (kmutex_init\<lparr>m_locked := True, m_owner := Some 0\<rparr>, (\<lambda>_. Idle)(0 := Acquired, 0 := Holding))"
    by (rule kmutex_run.step [OF 1, of True 0])
       (simp add: kmutex_thread_def kmutex_set_owner_def kmutex_init_def)
  have 3: "kmutex_run (kmutex_init\<lparr>m_locked := True, m_owner := Some 0\<rparr>,
      (\<lambda>_. Idle)(0 := Acquired, 0 := Holding, 1 := Slow))"
    by (rule kmutex_run.step [OF 2, of True 1])
       (simp add: kmutex_thread_def kmutex_cas_def kmutex_init_def)
  show ?thesis
    unfolding two_threads_def
    by (rule kmutex_run.step [OF 3, of True 1])
       (simp add: kmutex_thread_def kmutex_wait_def kmutex_cas_def kmutex_init_def link_tail_def)
qed

text \<open>
  C2. Mutual exclusion of \<open>kmutex\<close> under every interleaving of any number of threads, spinning
  ones, sleeping ones and hand-overs included: at most one thread is past \<open>kmutex_lock\<close>, the mutex
  is marked locked as long as one is, and \<open>kmutex_held_by_me\<close> is true exactly in the thread that
  has returned from \<open>kmutex_lock\<close> and not yet unlocked.
\<close>

theorem kmutex_mutual_exclusion:
  assumes "kmutex_run (m, pcs)" "pcs t = Acquired \<or> pcs t = Holding"
  shows "m_locked m \<and> (pcs u = Acquired \<or> pcs u = Holding \<longrightarrow> u = t) \<and>
    (kmutex_held_by_me u m \<longleftrightarrow> pcs u = Holding)"
proof -
  note inv = kmutex_run_inv [OF assms(1)]
  have own: "owns (m, pcs) t" using assms(2) by (auto simp: owns_def)
  have "u = t" if "pcs u = Acquired \<or> pcs u = Holding"
    using kmutex_inv_unique [OF inv _ own, of u] that by (auto simp: owns_def)
  then show ?thesis
    using kmutex_inv_locked [OF inv own] kmutex_inv_owner [OF inv] by (auto simp: kmutex_held_by_me_def)
qed

theorem kmutex_mutual_exclusion_witness:
  "m_locked (fst two_threads) \<and> kmutex_held_by_me 0 (fst two_threads) \<and> \<not> kmutex_held_by_me 1 (fst two_threads)"
  using kmutex_mutual_exclusion [OF two_threads_run [unfolded two_threads_def], of 0 0]
    kmutex_mutual_exclusion [OF two_threads_run [unfolded two_threads_def], of 0 1]
  by (simp add: two_threads_def)



end
