(* ===== verification/Ipc.thy ===== *)
theory Ipc
  imports Cervus_Prelude "HOL-Library.Code_Target_Nat"
begin

text \<open>
  The namespace layer that the three kinds of System V IPC objects share, \<^verbatim>\<open>kernel/src/ipc/ipc.c\<close>.
  An object is a \<open>record\<close> that extends \<open>ipc_obj\<close>, as the C structures start with an \<^verbatim>\<open>ipc_obj_t\<close>;
  objects live in a heap \<open>ns_heap\<close> (address to object, \<open>None\<close> for memory that is not an object or
  was freed) and the slot table holds addresses.  \<open>ns_env\<close> is what else the \<^verbatim>\<open>destroy\<close> function of
  a kind may touch.  The functions here run under the lock of the namespace, except that
  \<open>ipc_get\<close> takes it twice: \<open>ipc_get_find\<close> and \<open>ipc_get_install\<close> are its two critical sections.
\<close>

unbundle bit_operations_syntax

definition IPC_SLOTS :: nat where "IPC_SLOTS = 256"

definition IPC_PRIVATE_K :: int where "IPC_PRIVATE_K = 0"
definition IPC_CREAT_K :: u32 where "IPC_CREAT_K = 0x200"
definition IPC_EXCL_K :: u32 where "IPC_EXCL_K = 0x400"
definition IPC_NOWAIT_K :: u32 where "IPC_NOWAIT_K = 0x800"

definition IPC_R :: u32 where "IPC_R = 0x124"
definition IPC_W :: u32 where "IPC_W = 0x92"

text \<open>The part of a task the IPC code looks at.\<close>

record ipc_task =
  t_uid :: u32
  t_gid :: u32
  t_capabilities :: u64
  t_tgid :: u32
  t_task :: nat
  t_leader :: nat

record ipc_obj =
  io_key :: int
  io_id :: int
  io_uid :: u32
  io_gid :: u32
  io_cuid :: u32
  io_cgid :: u32
  io_mode :: u32
  io_seq :: u16
  io_dead :: bool
  io_refs :: int

record ipc_perm_user =
  pu_key :: int
  pu_uid :: u32
  pu_gid :: u32
  pu_cuid :: u32
  pu_cgid :: u32
  pu_mode :: u16
  pu_seq :: u16

record ('a, 'e) ipc_ns =
  ns_slot :: "nat option list"
  ns_seq :: u16
  ns_heap :: "nat \<Rightarrow> 'a ipc_obj_scheme option"
  ns_env :: 'e

section \<open>Permissions\<close>

definition CAP_SYSADMIN :: u64 where "CAP_SYSADMIN = 0x4000"

definition cap_has :: "u64 \<Rightarrow> u64 \<Rightarrow> bool" where
  "cap_has caps cap \<longleftrightarrow> caps AND cap = cap"

definition privileged :: "ipc_task \<Rightarrow> bool" where
  "privileged t \<longleftrightarrow> t_uid t = 0 \<or> cap_has (t_capabilities t) CAP_SYSADMIN"

definition ipc_perm_ok :: "'a ipc_obj_scheme \<Rightarrow> ipc_task \<Rightarrow> u32 \<Rightarrow> bool" where
  "ipc_perm_ok ob t want =
     (let req = (want OR drop_bit 3 want OR drop_bit 6 want) AND 7 in
      if req = 0 \<or> privileged t then True
      else
        let granted = (if t_uid t = io_uid ob \<or> t_uid t = io_cuid ob then drop_bit 6 (io_mode ob)
                       else if t_gid t = io_gid ob \<or> t_gid t = io_cgid ob then drop_bit 3 (io_mode ob)
                       else io_mode ob)
        in req AND NOT granted AND 7 = 0)"

definition ipc_owner_ok :: "'a ipc_obj_scheme \<Rightarrow> ipc_task \<Rightarrow> bool" where
  "ipc_owner_ok ob t \<longleftrightarrow> privileged t \<or> t_uid t = io_uid ob \<or> t_uid t = io_cuid ob"

definition ipc_fill_perm :: "'a ipc_obj_scheme \<Rightarrow> ipc_perm_user" where
  "ipc_fill_perm ob =
     \<lparr>pu_key = io_key ob, pu_uid = io_uid ob, pu_gid = io_gid ob, pu_cuid = io_cuid ob,
      pu_cgid = io_cgid ob, pu_mode = ucast (io_mode ob AND 0x1FF), pu_seq = io_seq ob\<rparr>"

definition ipc_set_perm :: "ipc_perm_user \<Rightarrow> 'a ipc_obj_scheme \<Rightarrow> 'a ipc_obj_scheme" where
  "ipc_set_perm p ob =
     ob\<lparr>io_uid := pu_uid p, io_gid := pu_gid p,
        io_mode := (io_mode ob AND NOT 0x1FF) OR (ucast (pu_mode p) AND 0x1FF)\<rparr>"

section \<open>Slots\<close>

definition slot_of :: "int \<Rightarrow> nat" where
  "slot_of i = nat (i mod int IPC_SLOTS)"

definition ipc_lookup_locked :: "('a, 'e) ipc_ns \<Rightarrow> int \<Rightarrow> nat option" where
  "ipc_lookup_locked ns i =
     (if i < 0 then None
      else case ns_slot ns ! slot_of i of
             None \<Rightarrow> None
           | Some a \<Rightarrow> (case ns_heap ns a of
                          Some ob \<Rightarrow> if io_id ob = i \<and> \<not> io_dead ob then Some a else None
                        | None \<Rightarrow> None))"

definition set_obj :: "nat \<Rightarrow> 'a ipc_obj_scheme \<Rightarrow> ('a, 'e) ipc_ns \<Rightarrow> ('a, 'e) ipc_ns" where
  "set_obj a ob ns = ns\<lparr>ns_heap := (ns_heap ns)(a := Some ob)\<rparr>"

definition upd_obj ::
  "nat \<Rightarrow> ('a ipc_obj_scheme \<Rightarrow> 'a ipc_obj_scheme) \<Rightarrow> ('a, 'e) ipc_ns \<Rightarrow> ('a, 'e) ipc_ns" where
  "upd_obj a f ns = (case ns_heap ns a of Some ob \<Rightarrow> set_obj a (f ob) ns | None \<Rightarrow> ns)"

type_synonym ('a, 'e) ipc_destroy = "nat \<Rightarrow> ('a, 'e) ipc_ns \<Rightarrow> ('a, 'e) ipc_ns"

definition ipc_put_locked :: "('a, 'e) ipc_destroy \<Rightarrow> nat \<Rightarrow> ('a, 'e) ipc_ns \<Rightarrow> ('a, 'e) ipc_ns" where
  "ipc_put_locked destroy a ns =
     (case ns_heap ns a of
        None \<Rightarrow> ns
      | Some ob \<Rightarrow>
          let ob' = ob\<lparr>io_refs := io_refs ob - 1\<rparr>;
              ns' = set_obj a ob' ns
          in if io_refs ob' = 0 \<and> io_dead ob' then destroy a ns' else ns')"

text \<open>\<open>refs++\<close>, as the callers write it.\<close>

definition ipc_hold :: "nat \<Rightarrow> ('a, 'e) ipc_ns \<Rightarrow> ('a, 'e) ipc_ns" where
  "ipc_hold a ns = upd_obj a (\<lambda>ob. ob\<lparr>io_refs := io_refs ob + 1\<rparr>) ns"

definition ipc_remove_locked :: "('a, 'e) ipc_destroy \<Rightarrow> nat \<Rightarrow> ('a, 'e) ipc_ns \<Rightarrow> ('a, 'e) ipc_ns" where
  "ipc_remove_locked destroy a ns =
     (case ns_heap ns a of
        None \<Rightarrow> ns
      | Some ob \<Rightarrow>
          let s = slot_of (io_id ob);
              ns1 = (if ns_slot ns ! s = Some a then ns\<lparr>ns_slot := (ns_slot ns)[s := None]\<rparr> else ns);
              ns2 = set_obj a (ob\<lparr>io_dead := True\<rparr>) ns1
          in if io_refs ob = 0 then destroy a ns2 else ns2)"

text \<open>Whether a slot holds a live object with the key.\<close>

definition slot_has_key :: "('a, 'e) ipc_ns \<Rightarrow> int \<Rightarrow> nat option \<Rightarrow> bool" where
  "slot_has_key ns key sl =
     (case sl of
        None \<Rightarrow> False
      | Some a \<Rightarrow> (case ns_heap ns a of Some ob \<Rightarrow> \<not> io_dead ob \<and> io_key ob = key | None \<Rightarrow> False))"

definition find_key_locked :: "('a, 'e) ipc_ns \<Rightarrow> int \<Rightarrow> nat option" where
  "find_key_locked ns key =
     (case find_slot (slot_has_key ns key) (ns_slot ns) of Some i \<Rightarrow> ns_slot ns ! i | None \<Rightarrow> None)"

section \<open>Getting an object\<close>

text \<open>The \<open>check\<close> function of a kind returns an error or nothing.\<close>

definition existing ::
  "'a ipc_obj_scheme \<Rightarrow> ipc_task \<Rightarrow> u32 \<Rightarrow> ('a ipc_obj_scheme \<Rightarrow> errno option) \<Rightarrow> int result" where
  "existing ob me flags check =
     (if flags AND IPC_CREAT_K \<noteq> 0 \<and> flags AND IPC_EXCL_K \<noteq> 0 then Inl EEXIST
      else if \<not> ipc_perm_ok ob me (flags AND 0x1FF) then Inl EACCES
      else case check ob of Some e \<Rightarrow> Inl e | None \<Rightarrow> Inr (io_id ob))"

text \<open>The first critical section: \<open>None\<close> when the caller goes on to create an object.\<close>

definition ipc_get_find ::
  "('a ipc_obj_scheme \<Rightarrow> errno option) \<Rightarrow> int \<Rightarrow> u32 \<Rightarrow> ipc_task \<Rightarrow> ('a, 'e) ipc_ns \<Rightarrow> int result option" where
  "ipc_get_find check key flags me ns =
     (if key = IPC_PRIVATE_K then None
      else case find_key_locked ns key of
             Some a \<Rightarrow> Some (existing (the (ns_heap ns a)) me flags check)
           | None \<Rightarrow> if flags AND IPC_CREAT_K = 0 then Some (Inl ENOENT) else None)"

text \<open>The object that \<open>create\<close> made gets its key, owner and mode before it is published.\<close>

definition ipc_fresh :: "int \<Rightarrow> u32 \<Rightarrow> ipc_task \<Rightarrow> 'a ipc_obj_scheme \<Rightarrow> 'a ipc_obj_scheme" where
  "ipc_fresh key flags me ob =
     ob\<lparr>io_key := key, io_uid := t_uid me, io_cuid := t_uid me, io_gid := t_gid me, io_cgid := t_gid me,
        io_mode := flags AND 0x1FF, io_dead := False, io_refs := 0\<rparr>"

text \<open>The second critical section, with the new object at \<open>a\<close>.\<close>

definition ipc_get_install ::
  "('a, 'e) ipc_destroy \<Rightarrow> ('a ipc_obj_scheme \<Rightarrow> errno option) \<Rightarrow> int \<Rightarrow> u32 \<Rightarrow> ipc_task \<Rightarrow> nat \<Rightarrow>
   ('a, 'e) ipc_ns \<Rightarrow> int result \<times> ('a, 'e) ipc_ns" where
  "ipc_get_install destroy check key flags me a ns =
     (case (if key = IPC_PRIVATE_K then None else find_key_locked ns key) of
        Some b \<Rightarrow> (existing (the (ns_heap ns b)) me flags check, destroy a ns)
      | None \<Rightarrow>
          (case find_slot (\<lambda>x. x = None) (ns_slot ns) of
             None \<Rightarrow> (Inl ENOSPC, destroy a ns)
           | Some s \<Rightarrow>
               let q = (ns_seq ns + 1) AND 0x7fff;
                   i = uint q * int IPC_SLOTS + int s
               in (Inr i, (upd_obj a (\<lambda>ob. ob\<lparr>io_seq := q, io_id := i\<rparr>) ns)
                            \<lparr>ns_seq := q, ns_slot := (ns_slot ns)[s := Some a]\<rparr>)))"

text \<open>
  \<open>create\<close> returns an error, or the address of a new object and the object; the allocation may
  have failed.
\<close>

definition ipc_create_install ::
  "('a, 'e) ipc_destroy \<Rightarrow> errno + (nat \<times> 'a ipc_obj_scheme) \<Rightarrow> ('a ipc_obj_scheme \<Rightarrow> errno option) \<Rightarrow>
   int \<Rightarrow> u32 \<Rightarrow> ipc_task \<Rightarrow> ('a, 'e) ipc_ns \<Rightarrow> int result \<times> ('a, 'e) ipc_ns" where
  "ipc_create_install destroy created check key flags me ns =
     (case created of
        Inl e \<Rightarrow> (Inl e, ns)
      | Inr (a, ob) \<Rightarrow> ipc_get_install destroy check key flags me a (set_obj a (ipc_fresh key flags me ob) ns))"

definition ipc_get ::
  "('a, 'e) ipc_destroy \<Rightarrow> errno + (nat \<times> 'a ipc_obj_scheme) \<Rightarrow> ('a ipc_obj_scheme \<Rightarrow> errno option) \<Rightarrow>
   int \<Rightarrow> u32 \<Rightarrow> ipc_task option \<Rightarrow> ('a, 'e) ipc_ns \<Rightarrow> int result \<times> ('a, 'e) ipc_ns" where
  "ipc_get destroy created check key flags me ns =
     (case me of
        None \<Rightarrow> (Inl ESRCH, ns)
      | Some t \<Rightarrow>
          (case ipc_get_find check key flags t ns of
             Some r \<Rightarrow> (r, ns)
           | None \<Rightarrow> ipc_create_install destroy created check key flags t ns))"

section \<open>The invariant of a namespace\<close>

text \<open>
  \<open>hs\<close> lists the addresses of the objects that are held, once per holder: by a sleeping system
  call or by a mapping of shared memory.  Occupied slots and live objects correspond, reference
  counts count the holders, dead objects stay allocated exactly while they are held, no holder
  refers to freed memory, and no two live objects share a key other than \<open>IPC_PRIVATE\<close>.
\<close>

definition slots_ok :: "('a, 'e) ipc_ns \<Rightarrow> bool" where
  "slots_ok ns \<longleftrightarrow> length (ns_slot ns) = IPC_SLOTS \<and>
     (\<forall>s<IPC_SLOTS. \<forall>a. ns_slot ns ! s = Some a \<longrightarrow>
        (\<exists>ob. ns_heap ns a = Some ob \<and> \<not> io_dead ob \<and> 0 \<le> io_id ob \<and> slot_of (io_id ob) = s))"

definition obj_ok :: "nat option list \<Rightarrow> nat list \<Rightarrow> nat \<Rightarrow> 'a ipc_obj_scheme \<Rightarrow> bool" where
  "obj_ok slots hs a ob \<longleftrightarrow> io_refs ob = int (count_list hs a) \<and> (io_dead ob \<longrightarrow> a \<in> set hs) \<and>
     (\<not> io_dead ob \<longrightarrow> slots ! slot_of (io_id ob) = Some a)"

definition keys_unique :: "(nat \<Rightarrow> 'a ipc_obj_scheme option) \<Rightarrow> bool" where
  "keys_unique h \<longleftrightarrow>
     (\<forall>a b x y. h a = Some x \<longrightarrow> h b = Some y \<longrightarrow> \<not> io_dead x \<longrightarrow> \<not> io_dead y \<longrightarrow>
        io_key x = io_key y \<longrightarrow> io_key x \<noteq> IPC_PRIVATE_K \<longrightarrow> a = b)"

definition ns_ok :: "('a, 'e) ipc_ns \<Rightarrow> nat list \<Rightarrow> bool" where
  "ns_ok ns hs \<longleftrightarrow> slots_ok ns \<and> keys_unique (ns_heap ns) \<and> (\<forall>a\<in>set hs. ns_heap ns a \<noteq> None) \<and>
     (\<forall>a ob. ns_heap ns a = Some ob \<longrightarrow> obj_ok (ns_slot ns) hs a ob)"

lemma slot_of_less [simp]: "slot_of i < IPC_SLOTS"
  by (simp add: slot_of_def IPC_SLOTS_def)

lemma slot_of_new: "s < IPC_SLOTS \<Longrightarrow> slot_of (uint (q :: u16) * int IPC_SLOTS + int s) = s"
  by (simp add: slot_of_def)

lemma set_obj_simps [simp]:
  "ns_slot (set_obj a ob ns) = ns_slot ns" "ns_seq (set_obj a ob ns) = ns_seq ns"
  "ns_heap (set_obj a ob ns) = (ns_heap ns)(a := Some ob)" "ns_env (set_obj a ob ns) = ns_env ns"
  by (simp_all add: set_obj_def)

lemma upd_obj_simps [simp]:
  "ns_slot (upd_obj a f ns) = ns_slot ns" "ns_seq (upd_obj a f ns) = ns_seq ns"
  "ns_env (upd_obj a f ns) = ns_env ns"
  "ns_heap (upd_obj a f ns) = (ns_heap ns)(a := map_option f (ns_heap ns a))"
  by (auto simp: upd_obj_def fun_eq_iff split: option.split)

lemma lookup_SomeD:
  "ipc_lookup_locked ns i = Some a \<Longrightarrow>
   0 \<le> i \<and> ns_slot ns ! slot_of i = Some a \<and> (\<exists>ob. ns_heap ns a = Some ob \<and> io_id ob = i \<and> \<not> io_dead ob)"
  by (auto simp: ipc_lookup_locked_def split: if_splits option.splits)

lemma ns_ok_obj: "ns_ok ns hs \<Longrightarrow> ns_heap ns a = Some ob \<Longrightarrow> obj_ok (ns_slot ns) hs a ob"
  by (auto simp: ns_ok_def)

text \<open>A live object is what its number looks up.\<close>

lemma lookup_live:
  assumes ok: "ns_ok ns hs" and ob: "ns_heap ns a = Some ob" "\<not> io_dead ob"
  shows "ipc_lookup_locked ns (io_id ob) = Some a"
proof -
  have sl: "ns_slot ns ! slot_of (io_id ob) = Some a"
    using ns_ok_obj [OF ok ob(1)] ob(2) by (simp add: obj_ok_def)
  then have "0 \<le> io_id ob" using ok ob by (auto simp: ns_ok_def slots_ok_def dest: spec [of _ "slot_of (io_id ob)"])
  with sl ob show ?thesis by (simp add: ipc_lookup_locked_def)
qed

lemma ns_okI:
  assumes "slots_ok ns" "keys_unique (ns_heap ns)" "\<And>a. a \<in> set hs \<Longrightarrow> ns_heap ns a \<noteq> None"
    and "\<And>a ob. ns_heap ns a = Some ob \<Longrightarrow> obj_ok (ns_slot ns) hs a ob"
  shows "ns_ok ns hs"
  using assms by (simp add: ns_ok_def)

lemma ns_okD:
  assumes "ns_ok ns hs"
  shows "slots_ok ns" "keys_unique (ns_heap ns)" "\<And>a. a \<in> set hs \<Longrightarrow> ns_heap ns a \<noteq> None"
  using assms by (simp_all add: ns_ok_def)

text \<open>What an update of an object may not change for the slots and the keys to stay in order.\<close>

lemma slots_ok_upd:
  assumes "slots_ok ns" "ns_heap ns a = Some ob" "io_id ob' = io_id ob" "io_dead ob' = io_dead ob"
  shows "slots_ok (set_obj a ob' ns)"
  using assms unfolding slots_ok_def set_obj_simps by (metis fun_upd_apply option.inject)

lemma keys_unique_upd:
  assumes "keys_unique h" "h a = Some ob" "io_key ob' = io_key ob" "io_dead ob' = io_dead ob \<or> io_dead ob'"
  shows "keys_unique (h(a := Some ob'))"
  using assms unfolding keys_unique_def by (metis fun_upd_apply option.inject)

lemma keys_unique_del: "keys_unique h \<Longrightarrow> keys_unique (h(a := None))"
  unfolding keys_unique_def by (metis fun_upd_apply option.distinct(1))

text \<open>Changing an object in place, but not what the namespace knows of it.\<close>

lemma modify_ok:
  assumes ok: "ns_ok ns hs" and ob: "ns_heap ns a = Some ob"
    and eq: "io_key ob' = io_key ob" "io_id ob' = io_id ob" "io_dead ob' = io_dead ob" "io_refs ob' = io_refs ob"
  shows "ns_ok (set_obj a ob' ns) hs"
proof (rule ns_okI)
  show "slots_ok (set_obj a ob' ns)" by (rule slots_ok_upd [OF ns_okD(1) [OF ok] ob eq(2,3)])
  show "keys_unique (ns_heap (set_obj a ob' ns))"
    using keys_unique_upd [OF ns_okD(2) [OF ok] ob eq(1)] eq(3) by simp
  show "b \<in> set hs \<Longrightarrow> ns_heap (set_obj a ob' ns) b \<noteq> None" for b
    using ns_okD(3) [OF ok] by simp
  show "ns_heap (set_obj a ob' ns) b = Some x \<Longrightarrow> obj_ok (ns_slot (set_obj a ob' ns)) hs b x" for b x
    using ns_ok_obj [OF ok ob] ns_ok_obj [OF ok, of b x] eq by (cases "b = a") (auto simp: obj_ok_def)
qed

lemma upd_ok:
  assumes "ns_ok ns hs" "\<And>ob. io_key (f ob) = io_key ob \<and> io_id (f ob) = io_id ob \<and>
    io_dead (f ob) = io_dead ob \<and> io_refs (f ob) = io_refs ob"
  shows "ns_ok (upd_obj a f ns) hs"
proof (cases "ns_heap ns a")
  case (Some ob)
  then show ?thesis using modify_ok [OF assms(1) Some, of "f ob"] assms(2) [of ob] by (simp add: upd_obj_def)
qed (simp add: upd_obj_def assms)

lemma count_list_remove1:
  "a \<in> set hs \<Longrightarrow> count_list (remove1 a hs) b = count_list hs b - (if b = a then 1 else 0)"
proof (induction hs)
  case (Cons h hs)
  then show ?case using count_list_0_iff [of hs a] by (cases "h = a"; cases "b = a") auto
qed simp

lemma count_list_pos: "a \<in> set hs \<longleftrightarrow> 0 < count_list hs a"
  using count_list_0_iff [of hs a] by auto

text \<open>Taking a reference.\<close>

lemma hold_ok:
  assumes ok: "ns_ok ns hs" and ob: "ns_heap ns a = Some ob"
  shows "ns_ok (ipc_hold a ns) (a # hs)"
proof -
  let ?ob = "ob\<lparr>io_refs := io_refs ob + 1\<rparr>"
  have "ns_ok (set_obj a ?ob ns) (a # hs)"
  proof (rule ns_okI)
    show "slots_ok (set_obj a ?ob ns)" by (rule slots_ok_upd [OF ns_okD(1) [OF ok] ob]) simp_all
    show "keys_unique (ns_heap (set_obj a ?ob ns))"
      using keys_unique_upd [OF ns_okD(2) [OF ok] ob, of ?ob] by simp
    show "b \<in> set (a # hs) \<Longrightarrow> ns_heap (set_obj a ?ob ns) b \<noteq> None" for b
      using ns_okD(3) [OF ok] by auto
    show "ns_heap (set_obj a ?ob ns) b = Some x \<Longrightarrow> obj_ok (ns_slot (set_obj a ?ob ns)) (a # hs) b x" for b x
      using ns_ok_obj [OF ok ob] ns_ok_obj [OF ok, of b x] by (cases "b = a") (auto simp: obj_ok_def)
  qed
  then show ?thesis by (simp add: ipc_hold_def upd_obj_def ob)
qed

text \<open>The invariant speaks of slots and heap only.\<close>

lemma ns_ok_cong: "ns_ok ns hs \<Longrightarrow> ns_slot ns' = ns_slot ns \<Longrightarrow> ns_heap ns' = ns_heap ns \<Longrightarrow> ns_ok ns' hs"
  by (simp add: ns_ok_def slots_ok_def)

lemma find_key_None:
  assumes ok: "ns_ok ns hs" and no: "find_key_locked ns key = None" and ob: "ns_heap ns b = Some ob" "\<not> io_dead ob"
  shows "io_key ob \<noteq> key"
proof
  assume "io_key ob = key"
  have len: "length (ns_slot ns) = IPC_SLOTS" using ns_okD(1) [OF ok] by (simp add: slots_ok_def)
  have sl: "ns_slot ns ! slot_of (io_id ob) = Some b" using ns_ok_obj [OF ok ob(1)] ob(2) by (simp add: obj_ok_def)
  then have mem: "Some b \<in> set (ns_slot ns)" using len nth_mem slot_of_less by metis
  have "slot_has_key ns key (Some b)" using ob \<open>io_key ob = key\<close> by (simp add: slot_has_key_def)
  then obtain i where i: "find_slot (slot_has_key ns key) (ns_slot ns) = Some i"
    using find_slot_ex [OF mem, of "slot_has_key ns key"] by blast
  then have "slot_has_key ns key (ns_slot ns ! i)" by (rule find_slot_holds)
  with i no show False by (auto simp: find_key_locked_def slot_has_key_def split: option.splits)
qed

lemma find_key_Some:
  assumes "find_key_locked ns key = Some b"
  shows "Some b \<in> set (ns_slot ns) \<and> (\<exists>ob. ns_heap ns b = Some ob \<and> \<not> io_dead ob \<and> io_key ob = key)"
proof -
  from assms obtain i where i: "find_slot (slot_has_key ns key) (ns_slot ns) = Some i" "ns_slot ns ! i = Some b"
    by (auto simp: find_key_locked_def split: option.splits)
  from find_slot_SomeD [OF i(1)] have "i < length (ns_slot ns)" "slot_has_key ns key (ns_slot ns ! i)" by blast+
  with i(2) nth_mem [of i "ns_slot ns"] show ?thesis by (auto simp: slot_has_key_def split: option.splits)
qed

text \<open>Putting an object that is not yet in the namespace does not change what a key finds.\<close>

lemma find_key_fresh:
  assumes "Some a \<notin> set (ns_slot ns)"
  shows "find_key_locked (set_obj a x ns) key = find_key_locked ns key"
proof -
  have "slot_has_key (set_obj a x ns) key sl = slot_has_key ns key sl" if "sl \<in> set (ns_slot ns)" for sl
    using assms that by (auto simp: slot_has_key_def split: option.splits)
  then have "find_slot (slot_has_key (set_obj a x ns) key) (ns_slot ns) = find_slot (slot_has_key ns key) (ns_slot ns)"
    by (rule find_slot_cong)
  then show ?thesis by (simp add: find_key_locked_def split: option.split)
qed

text \<open>Publishing a new object in a free slot.\<close>

lemma publish_ok:
  assumes ok: "ns_ok ns hs" and new: "ns_heap ns a = None" and s: "s < IPC_SLOTS" "ns_slot ns ! s = None"
    and x: "io_refs x = 0" "\<not> io_dead x" "0 \<le> io_id x" "slot_of (io_id x) = s"
    and key: "io_key x \<noteq> IPC_PRIVATE_K \<longrightarrow> find_key_locked ns (io_key x) = None"
    and ns': "ns_slot ns' = (ns_slot ns)[s := Some a]" "ns_heap ns' = (ns_heap ns)(a := Some x)"
  shows "ns_ok ns' hs"
proof (rule ns_okI)
  note sok = ns_okD(1) [OF ok]
  have len: "length (ns_slot ns) = IPC_SLOTS" using sok by (simp add: slots_ok_def)
  have no: "ns_slot ns ! j \<noteq> Some a" if "j < IPC_SLOTS" for j
    using sok new that by (force simp: slots_ok_def)
  have hs: "a \<notin> set hs" using ns_okD(3) [OF ok, of a] new by blast
  show "slots_ok ns'"
    using sok len s x no unfolding slots_ok_def ns' by (auto simp: nth_list_update split: if_splits)
  show "keys_unique (ns_heap ns')"
    using ns_okD(2) [OF ok] find_key_None [OF ok] key unfolding keys_unique_def ns' by (metis fun_upd_apply option.inject)
  show "b \<in> set hs \<Longrightarrow> ns_heap ns' b \<noteq> None" for b using ns_okD(3) [OF ok] by (simp add: ns')
  show "obj_ok (ns_slot ns') hs b y" if "ns_heap ns' b = Some y" for b y
  proof (cases "b = a")
    case True
    with that x hs len s show ?thesis by (simp add: ns' obj_ok_def count_list_0_iff)
  next
    case False
    then have y: "obj_ok (ns_slot ns) hs b y" using that ns_ok_obj [OF ok, of b y] by (simp add: ns')
    then have "io_dead y \<or> slot_of (io_id y) \<noteq> s" using s(2) by (auto simp: obj_ok_def)
    with y show ?thesis by (auto simp: ns' obj_ok_def)
  qed
qed

text \<open>The order of the holders does not matter.\<close>

lemma ns_ok_count:
  assumes "ns_ok ns hs" "\<And>a. count_list hs' a = count_list hs a"
  shows "ns_ok ns hs'"
proof -
  have "a \<in> set hs' \<longleftrightarrow> a \<in> set hs" for a using assms(2) [of a] count_list_0_iff by metis
  then have eq: "set hs' = set hs" by blast
  show ?thesis using assms(1) unfolding ns_ok_def obj_ok_def assms(2) eq .
qed

section \<open>The contract of a kind of IPC object\<close>

text \<open>
  What the namespace layer relies on: \<^verbatim>\<open>destroy\<close> frees the object it is given, and touches
  neither the slots nor another object.  What it gives: its operations keep the invariant.
\<close>

locale ipc_kind =
  fixes destroy :: "nat \<Rightarrow> ('a, 'e) ipc_ns \<Rightarrow> ('a, 'e) ipc_ns"
  assumes destroy_slot: "ns_slot (destroy a ns) = ns_slot ns"
    and destroy_heap: "ns_heap (destroy a ns) = (ns_heap ns)(a := None)"
begin

lemma destroy_ok:
  assumes ob: "ns_heap ns a = Some ob" and dead: "io_dead ob" and fr: "a \<notin> set hs"
    and sl: "slots_ok ns" and ku: "keys_unique (ns_heap ns)" and hd: "\<forall>b\<in>set hs. ns_heap ns b \<noteq> None"
    and ot: "\<And>b x. b \<noteq> a \<Longrightarrow> ns_heap ns b = Some x \<Longrightarrow> obj_ok (ns_slot ns) hs b x"
  shows "ns_ok (destroy a ns) hs"
proof (rule ns_okI)
  show "slots_ok (destroy a ns)"
    using sl ob dead unfolding slots_ok_def destroy_slot destroy_heap by (metis fun_upd_apply option.inject)
  show "keys_unique (ns_heap (destroy a ns))" using keys_unique_del [OF ku] by (simp add: destroy_heap)
  show "b \<in> set hs \<Longrightarrow> ns_heap (destroy a ns) b \<noteq> None" for b
    using fr hd by (auto simp: destroy_heap)
  show "ns_heap (destroy a ns) b = Some x \<Longrightarrow> obj_ok (ns_slot (destroy a ns)) hs b x" for b x
    using ot by (auto simp: destroy_heap destroy_slot split: if_splits)
qed

text \<open>Giving a reference back.\<close>

lemma put_ok:
  assumes ok: "ns_ok ns hs" and a: "a \<in> set hs"
  shows "ns_ok (ipc_put_locked destroy a ns) (remove1 a hs)"
proof -
  obtain ob where ob: "ns_heap ns a = Some ob" using ns_okD(3) [OF ok a] by blast
  let ?ob = "ob\<lparr>io_refs := io_refs ob - 1\<rparr>" and ?ns = "set_obj a (ob\<lparr>io_refs := io_refs ob - 1\<rparr>) ns"
  have sl: "slots_ok ?ns" by (rule slots_ok_upd [OF ns_okD(1) [OF ok] ob]) simp_all
  have ku: "keys_unique (ns_heap ?ns)" using keys_unique_upd [OF ns_okD(2) [OF ok] ob, of ?ob] by simp
  have hd: "b \<in> set (remove1 a hs) \<Longrightarrow> ns_heap ?ns b \<noteq> None" for b
    using ns_okD(3) [OF ok] set_remove1_subset by (fastforce simp: fun_upd_apply)
  have ot: "b \<noteq> a \<Longrightarrow> ns_heap ?ns b = Some x \<Longrightarrow> obj_ok (ns_slot ?ns) (remove1 a hs) b x" for b x
    using ns_ok_obj [OF ok, of b x] by (auto simp: obj_ok_def count_list_remove1 [OF a] in_set_remove1)
  have refs: "io_refs ?ob = int (count_list (remove1 a hs) a)"
    using ns_ok_obj [OF ok ob] a by (auto simp: obj_ok_def count_list_remove1 count_list_pos of_nat_diff)
  show ?thesis
  proof (cases "io_refs ?ob = 0 \<and> io_dead ?ob")
    case True
    then have "a \<notin> set (remove1 a hs)" using refs count_list_pos [of a "remove1 a hs"] by simp
    then have "ns_ok (destroy a ?ns) (remove1 a hs)"
      using True sl ku hd ot by (intro destroy_ok) auto
    with True ob show ?thesis by (simp add: ipc_put_locked_def)
  next
    case False
    have "io_dead ?ob \<Longrightarrow> a \<in> set (remove1 a hs)"
      using False refs count_list_0_iff [of "remove1 a hs" a] by fastforce
    moreover have "\<not> io_dead ?ob \<Longrightarrow> ns_slot ?ns ! slot_of (io_id ?ob) = Some a"
      using ns_ok_obj [OF ok ob] by (simp add: obj_ok_def)
    ultimately have "obj_ok (ns_slot ?ns) (remove1 a hs) a ?ob"
      using refs unfolding obj_ok_def by blast
    then have "ns_ok ?ns (remove1 a hs)"
      using sl ku hd ot by (intro ns_okI) (auto split: if_splits)
    with False ob show ?thesis by (auto simp: ipc_put_locked_def Let_def)
  qed
qed

lemma put_ok_middle:
  assumes "ns_ok ns (xs @ a # ys)"
  shows "ns_ok (ipc_put_locked destroy a ns) (xs @ ys)"
proof (rule ns_ok_count [OF put_ok [OF assms, of a]])
  show "count_list (xs @ ys) b = count_list (remove1 a (xs @ a # ys)) b" for b
    by (subst count_list_remove1) auto
qed simp

text \<open>Removing a live object.\<close>

lemma remove_ok:
  assumes ok: "ns_ok ns hs" and ob: "ns_heap ns a = Some ob" "\<not> io_dead ob"
  shows "ns_ok (ipc_remove_locked destroy a ns) hs"
proof -
  let ?s = "slot_of (io_id ob)" and ?ob = "ob\<lparr>io_dead := True\<rparr>"
  let ?ns = "set_obj a ?ob (ns\<lparr>ns_slot := (ns_slot ns)[slot_of (io_id ob) := None]\<rparr>)"
  note oo = ns_ok_obj [OF ok ob(1)] and sok = ns_okD(1) [OF ok]
  have len: "length (ns_slot ns) = IPC_SLOTS" using sok by (simp add: slots_ok_def)
  have here: "ns_slot ns ! ?s = Some a" using oo ob(2) by (simp add: obj_ok_def)
  have other: "ns_slot ns ! s = Some b \<Longrightarrow> s \<noteq> ?s \<Longrightarrow> s < IPC_SLOTS \<Longrightarrow> b \<noteq> a" for s b
    using sok ob(1) unfolding slots_ok_def by fastforce
  have sl: "slots_ok ?ns"
    using sok other len unfolding slots_ok_def by (auto simp: nth_list_update split: if_splits)
  have ku: "keys_unique (ns_heap ?ns)" using keys_unique_upd [OF ns_okD(2) [OF ok] ob(1), of ?ob] by simp
  have hd: "b \<in> set hs \<Longrightarrow> ns_heap ?ns b \<noteq> None" for b using ns_okD(3) [OF ok] by simp
  have ot: "obj_ok (ns_slot ?ns) hs b x" if b: "b \<noteq> a" "ns_heap ?ns b = Some x" for b x
  proof -
    have x: "obj_ok (ns_slot ns) hs b x" using ns_ok_obj [OF ok, of b x] b by simp
    then have "io_dead x \<or> slot_of (io_id x) \<noteq> ?s" using here b(1) by (auto simp: obj_ok_def)
    with x show ?thesis by (auto simp: obj_ok_def)
  qed
  show ?thesis
  proof (cases "io_refs ob = 0")
    case True
    then have "a \<notin> set hs" using oo by (simp add: obj_ok_def count_list_0_iff)
    then have "ns_ok (destroy a ?ns) hs" using sl ku hd ot by (intro destroy_ok) auto
    with True here ob show ?thesis by (simp add: ipc_remove_locked_def)
  next
    case False
    then have "a \<in> set hs" using oo count_list_0_iff [of hs a] by (auto simp: obj_ok_def)
    then have "obj_ok (ns_slot ?ns) hs a ?ob" using oo by (simp add: obj_ok_def)
    then have "ns_ok ?ns hs" using sl ku hd ot by (intro ns_okI) (auto split: if_splits)
    with False here ob show ?thesis by (simp add: ipc_remove_locked_def Let_def)
  qed
qed

text \<open>Creating an object; it was allocated at a free address.\<close>

lemma create_install_ok:
  assumes ok: "ns_ok ns hs" and fresh: "\<And>a ob. created = Inr (a, ob) \<Longrightarrow> ns_heap ns a = None"
  shows "ns_ok (snd (ipc_create_install destroy created check key flags me ns)) hs"
proof (cases created)
  case (Inl e)
  with ok show ?thesis by (simp add: ipc_create_install_def)
next
  case (Inr p)
  obtain a ob where p: "p = (a, ob)" by (meson surj_pair)
  have new: "ns_heap ns a = None" using fresh Inr p by blast
  let ?ob = "ipc_fresh key flags me ob" and ?ns = "set_obj a (ipc_fresh key flags me ob) ns"
  have undone: "ns_ok (destroy a ?ns) hs"
    using new by (intro ns_ok_cong [OF ok]) (auto simp: destroy_slot destroy_heap)
  have "Some a \<notin> set (ns_slot ns)"
    using ns_okD(1) [OF ok] new by (auto simp: slots_ok_def in_set_conv_nth)
  note fk = find_key_fresh [OF this]
  show ?thesis
  proof (cases "if key = IPC_PRIVATE_K then None else find_key_locked ?ns key")
    case (Some b)
    with undone Inr p show ?thesis by (simp add: ipc_create_install_def ipc_get_install_def)
  next
    case None
    show ?thesis
    proof (cases "find_slot (\<lambda>x. x = None) (ns_slot ns)")
      case (Some s)
      note s = find_slot_SomeD [OF Some]
      have len: "length (ns_slot ns) = IPC_SLOTS" using ns_okD(1) [OF ok] by (simp add: slots_ok_def)
      let ?q = "(ns_seq ns + 1) AND 0x7fff"
      let ?x = "?ob\<lparr>io_seq := ?q, io_id := uint ?q * int IPC_SLOTS + int s\<rparr>"
      show ?thesis
        by (rule publish_ok [OF ok new, of s ?x])
           (use s len None fk Inr p Some in \<open>auto simp: ipc_create_install_def ipc_get_install_def Let_def
              ipc_fresh_def slot_of_new split: if_splits\<close>)
    qed (use undone Inr p None in \<open>simp add: ipc_create_install_def ipc_get_install_def\<close>)
  qed
qed

lemma get_ok:
  assumes "ns_ok ns hs" "\<And>a ob. created = Inr (a, ob) \<Longrightarrow> ns_heap ns a = None"
  shows "ns_ok (snd (ipc_get destroy created check key flags me ns)) hs"
  using assms create_install_ok [OF assms(1)] by (auto simp: ipc_get_def split: option.split)

end

section \<open>An example task\<close>

definition root_task :: ipc_task where
  "root_task = \<lparr>t_uid = 0, t_gid = 0, t_capabilities = 0, t_tgid = 1, t_task = 1, t_leader = 1\<rparr>"

lemma root_perm [simp]: "ipc_perm_ok ob root_task want" "ipc_owner_ok ob root_task"
  by (simp_all add: ipc_perm_ok_def ipc_owner_ok_def privileged_def root_task_def)

end
