(* ===== verification/Waitq.thy ===== *)
theory Waitq
  imports Cervus_Prelude
begin

text \<open>
  Wait queues, \<^verbatim>\<open>kernel/src/sched/waitq.c\<close>: fixed tables of sleeping tasks, of polling tasks and of
  callbacks.  Tasks are named by their address.  A queue does not own its tasks, so an operation
  that unblocks some returns the list of them in the order of the calls; \<open>wq_sys\<close> puts a queue
  together with the scheduler state of the tasks that sleep on it.
\<close>

definition WAITQ_SLOTS :: nat where "WAITQ_SLOTS = 32"
definition WAITQ_POLLERS :: nat where "WAITQ_POLLERS = 32"
definition WAITQ_CBS :: nat where "WAITQ_CBS = 8"

record waitq =
  wq_slot :: "nat option list"
  wq_poller :: "nat option list"
  wq_cb :: "nat option list"

text \<open>A zeroed queue.\<close>

definition waitq_empty :: waitq where
  "waitq_empty = \<lparr>wq_slot = replicate WAITQ_SLOTS None, wq_poller = replicate WAITQ_POLLERS None,
                  wq_cb = replicate WAITQ_CBS None\<rparr>"

text \<open>The two loops of \<open>waitq_add\<close> and \<open>waitq_poll_add\<close>: already there, or the first free slot.\<close>

definition tab_add :: "nat \<Rightarrow> nat option list \<Rightarrow> bool \<times> nat option list" where
  "tab_add t tab =
     (case find_slot (\<lambda>x. x = Some t) tab of
        Some i \<Rightarrow> (True, tab)
      | None \<Rightarrow> (case find_slot (\<lambda>x. x = None) tab of
                   Some i \<Rightarrow> (True, tab[i := Some t])
                 | None \<Rightarrow> (False, tab)))"

definition tab_del :: "nat \<Rightarrow> nat option list \<Rightarrow> nat option list" where
  "tab_del t tab = map (\<lambda>x. if x = Some t then None else x) tab"

text \<open>The loop that takes out every entry; the entries are the tasks it unblocks, in order.\<close>

fun tab_flush :: "nat option list \<Rightarrow> nat list \<times> nat option list" where
  "tab_flush [] = ([], [])"
| "tab_flush (None # tab) = (case tab_flush tab of (ws, tab') \<Rightarrow> (ws, None # tab'))"
| "tab_flush (Some w # tab) = (case tab_flush tab of (ws, tab') \<Rightarrow> (w # ws, None # tab'))"

definition waitq_add :: "nat \<Rightarrow> waitq \<Rightarrow> bool \<times> waitq" where
  "waitq_add me q = (case tab_add me (wq_slot q) of (r, tab) \<Rightarrow> (r, q\<lparr>wq_slot := tab\<rparr>))"

definition waitq_del :: "nat \<Rightarrow> waitq \<Rightarrow> waitq" where
  "waitq_del me q = q\<lparr>wq_slot := tab_del me (wq_slot q)\<rparr>"

definition waitq_poll_add :: "nat \<Rightarrow> waitq \<Rightarrow> bool \<times> waitq" where
  "waitq_poll_add t q = (case tab_add t (wq_poller q) of (r, tab) \<Rightarrow> (r, q\<lparr>wq_poller := tab\<rparr>))"

definition waitq_poll_del :: "nat \<Rightarrow> waitq \<Rightarrow> waitq" where
  "waitq_poll_del t q = q\<lparr>wq_poller := tab_del t (wq_poller q)\<rparr>"

definition waitq_cb_add :: "nat \<Rightarrow> waitq \<Rightarrow> bool \<times> waitq" where
  "waitq_cb_add cb q =
     (case find_slot (\<lambda>x. x = None) (wq_cb q) of
        Some i \<Rightarrow> (True, q\<lparr>wq_cb := (wq_cb q)[i := Some cb]\<rparr>)
      | None \<Rightarrow> (False, q))"

definition waitq_cb_del :: "nat \<Rightarrow> waitq \<Rightarrow> waitq" where
  "waitq_cb_del cb q = q\<lparr>wq_cb := tab_del cb (wq_cb q)\<rparr>"

text \<open>The pollers unblocked (their \<open>poll_wake_seq\<close> is raised too) and the callbacks called.\<close>

definition waitq_wake_pollers :: "waitq \<Rightarrow> nat list \<times> nat list \<times> waitq" where
  "waitq_wake_pollers q =
     (case tab_flush (wq_poller q) of
        (ps, tab) \<Rightarrow> (ps, List.map_filter id (wq_cb q), q\<lparr>wq_poller := tab\<rparr>))"

text \<open>The sleepers unblocked, the pollers unblocked, the callbacks called.\<close>

definition waitq_wake_all :: "waitq \<Rightarrow> nat list \<times> nat list \<times> nat list \<times> waitq" where
  "waitq_wake_all q =
     (case tab_flush (wq_slot q) of
        (ws, tab) \<Rightarrow>
          (case waitq_wake_pollers (q\<lparr>wq_slot := tab\<rparr>) of (ps, cbs, q') \<Rightarrow> (ws, ps, cbs, q')))"

text \<open>The tables of a wait queue after everybody was woken.\<close>

definition woken :: "waitq \<Rightarrow> waitq" where
  "woken q = snd (snd (snd (waitq_wake_all q)))"

section \<open>Sleeping\<close>

text \<open>
  A task runs, or is blocked with a wake-up time (0: none).  \<open>waitq_block_enter\<close> is \<open>waitq_block\<close>
  up to \<open>sched_reschedule\<close>, under the lock of the caller; \<open>waitq_block_leave\<close> is the rest.
\<close>

datatype task_state = RUNNING | BLOCKED u64

record wq_sys =
  ws_q :: waitq
  ws_task :: "nat \<Rightarrow> task_state"

definition task_unblock :: "nat \<Rightarrow> wq_sys \<Rightarrow> wq_sys" where
  "task_unblock t s = s\<lparr>ws_task := (ws_task s)(t := RUNNING)\<rparr>"

definition waitq_block_enter :: "nat \<Rightarrow> u64 \<Rightarrow> u64 \<Rightarrow> wq_sys \<Rightarrow> wq_sys" where
  "waitq_block_enter me deadline now s =
     (case waitq_add me (ws_q s) of
        (added, q) \<Rightarrow>
          let poll = now + 1000000;
              wake = (if added then deadline
                      else if deadline = 0 \<or> poll < deadline then poll else deadline)
          in s\<lparr>ws_q := q, ws_task := (ws_task s)(me := BLOCKED wake)\<rparr>)"

definition waitq_block_leave :: "nat \<Rightarrow> wq_sys \<Rightarrow> wq_sys" where
  "waitq_block_leave me s = s\<lparr>ws_q := waitq_del me (ws_q s)\<rparr>"

definition wq_wake_all :: "wq_sys \<Rightarrow> wq_sys" where
  "wq_wake_all s =
     (case waitq_wake_all (ws_q s) of
        (ws, ps, cbs, q) \<Rightarrow> foldl (\<lambda>s t. task_unblock t s) (s\<lparr>ws_q := q\<rparr>) (ws @ ps))"

text \<open>
  Any number of tasks sleep on and wake the queue: a running task goes to sleep, a waker wakes all,
  the timer wakes a task whose wake-up time is due, a signal wakes any task, and a task that runs
  again leaves the queue.
\<close>

inductive wq_run :: "wq_sys \<Rightarrow> bool" where
  start: "wq_run \<lparr>ws_q = waitq_empty, ws_task = (\<lambda>_. RUNNING)\<rparr>"
| block: "wq_run s \<Longrightarrow> ws_task s me = RUNNING \<Longrightarrow> now + 1000000 \<noteq> 0 \<Longrightarrow>
    wq_run (waitq_block_enter me deadline now s)"
| leave: "wq_run s \<Longrightarrow> ws_task s me = RUNNING \<Longrightarrow> wq_run (waitq_block_leave me s)"
| wake: "wq_run s \<Longrightarrow> wq_run (wq_wake_all s)"
| timeout: "wq_run s \<Longrightarrow> ws_task s t = BLOCKED w \<Longrightarrow> w \<noteq> 0 \<Longrightarrow> wq_run (task_unblock t s)"
| signal: "wq_run s \<Longrightarrow> wq_run (task_unblock t s)"

section \<open>Tables\<close>

lemma tab_add_length: "tab_add t tab = (r, tab') \<Longrightarrow> length tab' = length tab"
  by (auto simp: tab_add_def split: option.splits)

lemma tab_add_mem:
  assumes "tab_add t tab = (r, tab')"
  shows "Some u \<in> set tab' \<longleftrightarrow> Some u \<in> set tab \<or> r \<and> u = t"
proof (cases "find_slot (\<lambda>x. x = Some t) tab")
  case (Some i)
  then have "Some t \<in> set tab" using find_slot_SomeD [OF Some] nth_mem by metis
  with assms Some show ?thesis by (auto simp: tab_add_def)
next
  case None
  show ?thesis
  proof (cases "find_slot (\<lambda>x. x = None) tab")
    case (Some i)
    note i = find_slot_SomeD [OF Some]
    with assms None Some have "r" "tab' = tab[i := Some t]" by (auto simp: tab_add_def)
    with i show ?thesis by (simp add: set_fill_slot)
  qed (use assms None in \<open>auto simp: tab_add_def\<close>)
qed

lemma tab_add_full:
  "tab_add t tab = (False, tab') \<Longrightarrow> tab' = tab \<and> None \<notin> set tab \<and> Some t \<notin> set tab"
  by (auto simp: tab_add_def find_slot_None_iff split: option.splits)

lemma tab_del_mem: "Some u \<in> set (tab_del t tab) \<longleftrightarrow> u \<noteq> t \<and> Some u \<in> set tab"
  by (auto simp: tab_del_def)

lemma tab_flush_eq: "tab_flush tab = (List.map_filter id tab, replicate (length tab) None)"
  by (induction tab rule: tab_flush.induct) (auto simp: map_filter_simps)

lemma mem_map_filter_id: "t \<in> set (List.map_filter id tab) \<longleftrightarrow> Some t \<in> set tab"
  by (force simp: map_filter_def)

section \<open>No lost wake-up\<close>

lemma foldl_unblock:
  "ws_task (foldl (\<lambda>s t. task_unblock t s) s ts) u = (if u \<in> set ts then RUNNING else ws_task s u)"
  "ws_q (foldl (\<lambda>s t. task_unblock t s) s ts) = ws_q s"
  by (induction ts arbitrary: s) (auto simp: task_unblock_def)

lemma wq_wake_all_task:
  "ws_task (wq_wake_all s) t =
     (if Some t \<in> set (wq_slot (ws_q s)) \<union> set (wq_poller (ws_q s)) then RUNNING else ws_task s t)"
  by (auto simp: wq_wake_all_def waitq_wake_all_def waitq_wake_pollers_def tab_flush_eq foldl_unblock
      mem_map_filter_id)

text \<open>A sleeper without a wake-up time is in the table, and the table has its size.\<close>

definition wq_inv :: "wq_sys \<Rightarrow> bool" where
  "wq_inv s \<longleftrightarrow> length (wq_slot (ws_q s)) = WAITQ_SLOTS \<and>
     (\<forall>t. ws_task s t = BLOCKED 0 \<longrightarrow> Some t \<in> set (wq_slot (ws_q s)))"

lemma block_enter_inv:
  assumes inv: "wq_inv s" and now: "now + 1000000 \<noteq> 0"
  shows "wq_inv (waitq_block_enter me deadline now s)"
proof -
  obtain r tab where add: "tab_add me (wq_slot (ws_q s)) = (r, tab)" by (meson surj_pair)
  show ?thesis
    using inv now tab_add_length [OF add] tab_add_mem [OF add]
    by (auto simp: wq_inv_def waitq_block_enter_def waitq_add_def add Let_def)
qed

lemma wake_all_inv: "wq_inv s \<Longrightarrow> wq_inv (wq_wake_all s)"
proof -
  assume inv: "wq_inv s"
  have "length (wq_slot (ws_q (wq_wake_all s))) = length (wq_slot (ws_q s))"
    by (simp add: wq_wake_all_def waitq_wake_all_def waitq_wake_pollers_def tab_flush_eq foldl_unblock)
  with inv show ?thesis by (auto simp: wq_inv_def wq_wake_all_task)
qed

lemma wq_run_inv: "wq_run s \<Longrightarrow> wq_inv s"
proof (induction rule: wq_run.induct)
  case start
  show ?case by (simp add: wq_inv_def waitq_empty_def)
next
  case (leave s me)
  then show ?case
    by (auto simp: wq_inv_def waitq_block_leave_def waitq_del_def tab_del_mem) (simp add: tab_del_def)
qed (auto simp: block_enter_inv wake_all_inv, auto simp: wq_inv_def task_unblock_def)



end
