(* ===== verification/Msgq.thy ===== *)
theory Msgq
  imports Ipc Waitq
begin

text \<open>
  System V message queues, \<^verbatim>\<open>kernel/src/ipc/msg.c\<close>.  A queue is a chain of messages with a tail
  pointer (\<open>q_msgs\<close>, \<open>q_tail\<close>; a message knows its address), its accounting, and two wait queues.
  The two blocking calls are loops around \<open>waitq_block\<close>: \<open>msgsnd_try\<close> and \<open>msgrcv_try\<close> are one turn
  of the loop under the lock, \<open>msg_resume\<close> is what follows the sleep, and \<open>msg_step\<close> interleaves
  the turns of any number of calls with each other and with \<open>msgget\<close> and \<open>msgctl\<close>.
\<close>

definition MSGMAX :: nat where "MSGMAX = 8192"
definition MSGMNB :: u64 where "MSGMNB = 16384"
definition MSG_NOERROR :: u32 where "MSG_NOERROR = 0x1000"
definition MSG_EXCEPT :: u32 where "MSG_EXCEPT = 0x2000"

record kmsg =
  km_addr :: nat
  km_type :: u64
  km_data :: "u8 list"

abbreviation km_len :: "kmsg \<Rightarrow> nat" where
  "km_len m \<equiv> length (km_data m)"

record msq = ipc_obj +
  q_msgs :: "kmsg list"
  q_tail :: "nat option"
  q_cbytes :: u64
  q_qnum :: u64
  q_qbytes :: u64
  q_stime :: int
  q_rtime :: int
  q_ctime :: int
  q_lspid :: u32
  q_lrpid :: u32
  q_rq :: waitq
  q_wq :: waitq

type_synonym msq_ns = "(unit msq_ext, unit) ipc_ns"

definition msg_ns_init :: msq_ns where
  "msg_ns_init = \<lparr>ns_slot = replicate IPC_SLOTS None, ns_seq = 0, ns_heap = (\<lambda>_. None), ns_env = ()\<rparr>"

definition msq_destroy :: "nat \<Rightarrow> msq_ns \<Rightarrow> msq_ns" where
  "msq_destroy a ns = ns\<lparr>ns_heap := (ns_heap ns)(a := None)\<rparr>"

text \<open>\<open>mem\<close> is the result of \<open>kzalloc\<close>.\<close>

definition msq_create :: "nat option \<Rightarrow> int \<Rightarrow> errno + (nat \<times> msq)" where
  "msq_create mem now =
     (case mem of
        None \<Rightarrow> Inl ENOMEM
      | Some a \<Rightarrow>
          Inr (a, \<lparr>io_key = 0, io_id = 0, io_uid = 0, io_gid = 0, io_cuid = 0, io_cgid = 0, io_mode = 0,
                   io_seq = 0, io_dead = False, io_refs = 0, q_msgs = [], q_tail = None, q_cbytes = 0,
                   q_qnum = 0, q_qbytes = MSGMNB, q_stime = 0, q_rtime = 0, q_ctime = now, q_lspid = 0,
                   q_lrpid = 0, q_rq = waitq_empty, q_wq = waitq_empty\<rparr>))"

definition sys_msgget :: "u64 \<Rightarrow> u64 \<Rightarrow> ipc_task option \<Rightarrow> nat option \<Rightarrow> int \<Rightarrow> msq_ns \<Rightarrow> int result \<times> msq_ns" where
  "sys_msgget key flags me mem now ns =
     ipc_get msq_destroy (msq_create mem now) (\<lambda>_. None) (sint (ucast key :: u32)) (ucast flags) me ns"

text \<open>One turn of a blocking call: it returns, or sleeps holding the object.\<close>

datatype 'r turn = Return 'r | Sleep nat

section \<open>Sending\<close>

text \<open>
  Before the loop: the message is built from the user's buffer, \<open>ubuf\<close> being the type and the \<open>len\<close>
  bytes that the copies deliver, if they do, and \<open>mem\<close> the result of \<open>kmalloc\<close>.
\<close>

definition msgsnd_prepare :: "nat \<Rightarrow> nat option \<Rightarrow> (u64 \<times> u8 list) option \<Rightarrow> kmsg result" where
  "msgsnd_prepare len mem ubuf =
     (if len > MSGMAX then Inl EINVAL
      else case mem of
             None \<Rightarrow> Inl ENOMEM
           | Some a \<Rightarrow>
               (case ubuf of
                  None \<Rightarrow> Inl EFAULT
                | Some (ty, bytes) \<Rightarrow>
                    if sint ty \<le> 0 then Inl EINVAL
                    else Inr \<lparr>km_addr = a, km_type = ty, km_data = take len bytes\<rparr>))"

definition msq_append :: "kmsg \<Rightarrow> ipc_task \<Rightarrow> int \<Rightarrow> msq \<Rightarrow> msq" where
  "msq_append m me now q =
     q\<lparr>q_msgs := link_tail km_addr (q_tail q) m (q_msgs q), q_tail := Some (km_addr m),
       q_cbytes := q_cbytes q + of_nat (km_len m), q_qnum := q_qnum q + 1, q_stime := now,
       q_lspid := t_tgid me, q_rq := woken (q_rq q)\<rparr>"

definition msgsnd_try ::
  "ipc_task \<Rightarrow> int \<Rightarrow> kmsg \<Rightarrow> u32 \<Rightarrow> bool \<Rightarrow> int \<Rightarrow> msq_ns \<Rightarrow> unit result turn \<times> msq_ns" where
  "msgsnd_try me i m flags interrupted now ns =
     (case ipc_lookup_locked ns i of
        None \<Rightarrow> (Return (Inl EINVAL), ns)
      | Some a \<Rightarrow>
          let q = the (ns_heap ns a) in
          if \<not> ipc_perm_ok q me IPC_W then (Return (Inl EACCES), ns)
          else if q_cbytes q + of_nat (km_len m) \<le> q_qbytes q \<and> q_qnum q < q_qbytes q
          then (Return ok, set_obj a (msq_append m me now q) ns)
          else if flags AND IPC_NOWAIT_K \<noteq> 0 then (Return (Inl EAGAIN), ns)
          else if interrupted then (Return (Inl EINTR), ns)
          else (Sleep a, upd_obj a (\<lambda>q. q\<lparr>q_wq := snd (waitq_add (t_task me) (q_wq q))\<rparr>) (ipc_hold a ns)))"

section \<open>Receiving\<close>

fun pick_from :: "u64 \<Rightarrow> u32 \<Rightarrow> nat \<Rightarrow> (nat \<times> u64) option \<Rightarrow> kmsg list \<Rightarrow> nat option" where
  "pick_from ty flags i best [] = map_option fst best"
| "pick_from ty flags i best (m # ms) =
     (if ty = 0 then Some i
      else if sint ty > 0 then
        (if (if flags AND MSG_EXCEPT \<noteq> 0 then km_type m \<noteq> ty else km_type m = ty) then Some i
         else pick_from ty flags (i + 1) best ms)
      else if sint (km_type m) \<le> sint (- ty) \<and>
              (case best of None \<Rightarrow> True | Some (j, bt) \<Rightarrow> sint (km_type m) < sint bt)
           then pick_from ty flags (i + 1) (Some (i, km_type m)) ms
           else pick_from ty flags (i + 1) best ms)"

definition pick :: "msq \<Rightarrow> u64 \<Rightarrow> u32 \<Rightarrow> nat option" where
  "pick q ty flags = pick_from ty flags 0 None (q_msgs q)"

text \<open>Unlinking the \<open>i\<close>-th message; a tail pointer to it is recomputed from the head.\<close>

definition msq_unlink :: "nat \<Rightarrow> ipc_task \<Rightarrow> int \<Rightarrow> msq \<Rightarrow> msq" where
  "msq_unlink i me now q =
     (let m = q_msgs q ! i;
          rest = take i (q_msgs q) @ drop (i + 1) (q_msgs q)
      in q\<lparr>q_msgs := rest,
           q_tail := (if q_tail q = Some (km_addr m)
                      then (if rest = [] then None else Some (km_addr (last rest))) else q_tail q),
           q_cbytes := q_cbytes q - of_nat (km_len m), q_qnum := q_qnum q - 1, q_rtime := now,
           q_lrpid := t_tgid me, q_wq := woken (q_wq q)\<rparr>)"

definition msgrcv_try ::
  "ipc_task \<Rightarrow> int \<Rightarrow> u64 \<Rightarrow> u64 \<Rightarrow> u32 \<Rightarrow> bool \<Rightarrow> int \<Rightarrow> msq_ns \<Rightarrow> kmsg result turn \<times> msq_ns" where
  "msgrcv_try me i len ty flags interrupted now ns =
     (case ipc_lookup_locked ns i of
        None \<Rightarrow> (Return (Inl EINVAL), ns)
      | Some a \<Rightarrow>
          let q = the (ns_heap ns a) in
          if \<not> ipc_perm_ok q me IPC_R then (Return (Inl EACCES), ns)
          else
            (case pick q ty flags of
               Some k \<Rightarrow>
                 if km_len (q_msgs q ! k) > unat len \<and> flags AND MSG_NOERROR = 0
                 then (Return (Inl E2BIG), ns)
                 else (Return (Inr (q_msgs q ! k)), set_obj a (msq_unlink k me now q) ns)
             | None \<Rightarrow>
                 if flags AND IPC_NOWAIT_K \<noteq> 0 then (Return (Inl ENOMSG), ns)
                 else if interrupted then (Return (Inl EINTR), ns)
                 else (Sleep a, upd_obj a (\<lambda>q. q\<lparr>q_rq := snd (waitq_add (t_task me) (q_rq q))\<rparr>) (ipc_hold a ns))))"

text \<open>After the loop: the copies to the user's buffer, which may fault.\<close>

definition msgrcv_finish :: "u64 \<Rightarrow> bool \<Rightarrow> kmsg \<Rightarrow> (nat \<times> u64 \<times> u8 list) result" where
  "msgrcv_finish len copy_ok m =
     (let n = (if km_len m < unat len then km_len m else unat len) in
      if copy_ok then Inr (n, km_type m, take n (km_data m)) else Inl EFAULT)"

section \<open>Waking up\<close>

text \<open>
  The end of \<open>waitq_block\<close> takes the caller off the wait queue; then, in the next critical section,
  the reference is dropped, and the call ends if the queue is gone (the first result).
\<close>

definition msg_unqueue :: "bool \<Rightarrow> ipc_task \<Rightarrow> nat \<Rightarrow> msq_ns \<Rightarrow> msq_ns" where
  "msg_unqueue sender me a ns =
     upd_obj a (\<lambda>q. if sender then q\<lparr>q_wq := waitq_del (t_task me) (q_wq q)\<rparr>
                    else q\<lparr>q_rq := waitq_del (t_task me) (q_rq q)\<rparr>) ns"

definition msg_resume :: "nat \<Rightarrow> msq_ns \<Rightarrow> bool \<times> msq_ns" where
  "msg_resume a ns =
     (case ns_heap ns a of Some q \<Rightarrow> io_dead q | None \<Rightarrow> False, ipc_put_locked msq_destroy a ns)"

section \<open>Control\<close>

record msqid_ds =
  ds_perm :: ipc_perm_user
  ds_stime :: int
  ds_rtime :: int
  ds_ctime :: int
  ds_cbytes :: u64
  ds_qnum :: u64
  ds_qbytes :: u64
  ds_lspid :: u32
  ds_lrpid :: u32

definition msq_stat :: "msq \<Rightarrow> msqid_ds" where
  "msq_stat q =
     \<lparr>ds_perm = ipc_fill_perm q, ds_stime = q_stime q, ds_rtime = q_rtime q, ds_ctime = q_ctime q,
      ds_cbytes = q_cbytes q, ds_qnum = q_qnum q, ds_qbytes = q_qbytes q, ds_lspid = q_lspid q,
      ds_lrpid = q_lrpid q\<rparr>"

text \<open>\<open>uds\<close> is what the copy from the user delivers for \<open>IPC_SET\<close>; the second result goes to the user.\<close>

definition sys_msgctl ::
  "ipc_task option \<Rightarrow> int \<Rightarrow> u64 \<Rightarrow> msqid_ds option \<Rightarrow> bool \<Rightarrow> int \<Rightarrow> msq_ns \<Rightarrow>
   unit result \<times> msqid_ds option \<times> msq_ns" where
  "sys_msgctl cur i cmd0 uds copy_ok now ns =
     (case cur of
        None \<Rightarrow> (Inl ESRCH, None, ns)
      | Some me \<Rightarrow>
          let cmd = cmd0 AND NOT 0x100 in
          if cmd = 1 \<and> uds = None then (Inl EFAULT, None, ns)
          else case ipc_lookup_locked ns i of
            None \<Rightarrow> (Inl EINVAL, None, ns)
          | Some a \<Rightarrow>
              let q = the (ns_heap ns a) in
              if cmd = 2 then
                (if \<not> ipc_perm_ok q me IPC_R then (Inl EACCES, None, ns)
                 else if copy_ok then (ok, Some (msq_stat q), ns) else (Inl EFAULT, None, ns))
              else if cmd = 1 then
                (if \<not> ipc_owner_ok q me then (Inl EPERM, None, ns)
                 else if ds_qbytes (the uds) > MSGMNB \<and> t_uid me \<noteq> 0 then (Inl EPERM, None, ns)
                 else (ok, None,
                       set_obj a ((ipc_set_perm (ds_perm (the uds)) q)
                                    \<lparr>q_qbytes := ds_qbytes (the uds), q_ctime := now, q_wq := woken (q_wq q)\<rparr>) ns))
              else if cmd = 0 then
                (if \<not> ipc_owner_ok q me then (Inl EPERM, None, ns)
                 else (ok, None,
                       ipc_remove_locked msq_destroy a
                         (upd_obj a (\<lambda>q. q\<lparr>q_rq := woken (q_rq q), q_wq := woken (q_wq q)\<rparr>) ns)))
              else (Inl EINVAL, None, ns))"

section \<open>Interleaved calls\<close>

text \<open>The arguments a blocked call keeps while it sleeps.\<close>

datatype msg_call =
    SndCall ipc_task int kmsg u32
  | RcvCall ipc_task int u64 u64 u32

fun call_task :: "msg_call \<Rightarrow> ipc_task" where
  "call_task (SndCall me i m flags) = me"
| "call_task (RcvCall me i len ty flags) = me"

fun is_snd :: "msg_call \<Rightarrow> bool" where
  "is_snd (SndCall me i m flags) = True"
| "is_snd (RcvCall me i len ty flags) = False"

text \<open>One turn of a call, with the held object if it goes to sleep.\<close>

definition sleeper :: "msg_call \<Rightarrow> 'r turn \<Rightarrow> (msg_call \<times> nat) list" where
  "sleeper c t = (case t of Return r \<Rightarrow> [] | Sleep a \<Rightarrow> [(c, a)])"

fun msg_turn :: "msg_call \<Rightarrow> bool \<Rightarrow> int \<Rightarrow> msq_ns \<Rightarrow> (msg_call \<times> nat) list \<times> msq_ns" where
  "msg_turn (SndCall me i m flags) intr now ns =
     (case msgsnd_try me i m flags intr now ns of (t, ns') \<Rightarrow> (sleeper (SndCall me i m flags) t, ns'))"
| "msg_turn (RcvCall me i len ty flags) intr now ns =
     (case msgrcv_try me i len ty flags intr now ns of (t, ns') \<Rightarrow> (sleeper (RcvCall me i len ty flags) t, ns'))"

text \<open>The messages of blocked senders.\<close>

definition pending :: "(msg_call \<times> nat) list \<Rightarrow> kmsg list" where
  "pending ws = List.map_filter (\<lambda>(c, a). case c of SndCall me i m flags \<Rightarrow> Some m | _ \<Rightarrow> None) ws"

definition queued :: "msq_ns \<Rightarrow> nat \<Rightarrow> bool" where
  "queued ns ad \<longleftrightarrow> (\<exists>a q m. ns_heap ns a = Some q \<and> m \<in> set (q_msgs q) \<and> km_addr m = ad)"

text \<open>
  The allocator hands out addresses that are not in use.  A new receiver starts in any state; a new
  sender brings the message \<open>msgsnd_prepare\<close> built.
\<close>

inductive msg_run :: "msq_ns \<times> (msg_call \<times> nat) list \<Rightarrow> bool" where
  start: "msg_run (msg_ns_init, [])"
| create: "msg_run (ns, ws) \<Longrightarrow> (\<And>a. mem = Some a \<Longrightarrow> ns_heap ns a = None) \<Longrightarrow>
    msg_run (snd (ipc_create_install msq_destroy (msq_create mem now) (\<lambda>_. None) key flags me ns), ws)"
| snd: "msg_run (ns, ws) \<Longrightarrow> msgsnd_prepare len mem ubuf = Inr m \<Longrightarrow>
    \<not> queued ns (km_addr m) \<Longrightarrow> km_addr m \<notin> km_addr ` set (pending ws) \<Longrightarrow>
    msg_turn (SndCall me i m flags) intr now ns = (sl, ns') \<Longrightarrow> msg_run (ns', sl @ ws)"
| rcv: "msg_run (ns, ws) \<Longrightarrow> msg_turn (RcvCall me i len ty flags) intr now ns = (sl, ns') \<Longrightarrow>
    msg_run (ns', sl @ ws)"
| unqueue: "msg_run (ns, ws) \<Longrightarrow> (c, a) \<in> set ws \<Longrightarrow>
    msg_run (msg_unqueue (is_snd c) (call_task c) a ns, ws)"
| gone: "msg_run (ns, xs @ (c, a) # ys) \<Longrightarrow> msg_resume a ns = (True, ns') \<Longrightarrow> msg_run (ns', xs @ ys)"
| retry: "msg_run (ns, xs @ (c, a) # ys) \<Longrightarrow> msg_resume a ns = (False, ns1) \<Longrightarrow>
    msg_turn c intr now ns1 = (sl, ns') \<Longrightarrow> msg_run (ns', sl @ xs @ ys)"
| ctl: "msg_run (ns, ws) \<Longrightarrow> sys_msgctl cur i cmd uds copy_ok now ns = (r, out, ns') \<Longrightarrow> msg_run (ns', ws)"

section \<open>Invariant\<close>

definition msq_ok :: "msq \<Rightarrow> bool" where
  "msq_ok q \<longleftrightarrow> tail_ok km_addr (q_tail q) (q_msgs q) \<and>
     q_cbytes q = of_nat (sum_list (map km_len (q_msgs q))) \<and> q_qnum q = of_nat (length (q_msgs q)) \<and>
     (\<forall>m\<in>set (q_msgs q). km_len m \<le> MSGMAX \<and> 0 < sint (km_type m))"

definition msg_inv :: "msq_ns \<times> (msg_call \<times> nat) list \<Rightarrow> bool" where
  "msg_inv s \<longleftrightarrow>
     (case s of (ns, ws) \<Rightarrow>
        ns_ok ns (map snd ws) \<and> (\<forall>a q. ns_heap ns a = Some q \<longrightarrow> msq_ok q) \<and>
        distinct (map km_addr (pending ws)) \<and>
        (\<forall>m\<in>set (pending ws). \<not> queued ns (km_addr m) \<and> km_len m \<le> MSGMAX \<and> 0 < sint (km_type m)))"

interpretation msg: ipc_kind msq_destroy
  by unfold_locales (simp_all add: msq_destroy_def)

lemma msgsnd_prepare_ok:
  "msgsnd_prepare len mem ubuf = Inr m \<Longrightarrow> km_len m \<le> MSGMAX \<and> 0 < sint (km_type m)"
  by (auto simp: msgsnd_prepare_def min_def split: if_splits option.splits)

lemma msq_append_ok:
  assumes "msq_ok q" "km_addr m \<notin> km_addr ` set (q_msgs q)" "km_len m \<le> MSGMAX" "0 < sint (km_type m)"
  shows "msq_ok (msq_append m me now q)" "q_msgs (msq_append m me now q) = q_msgs q @ [m]"
proof -
  have t: "tail_ok km_addr (q_tail q) (q_msgs q)" using assms(1) by (simp add: msq_ok_def)
  note l = link_tail_append [OF t, of m]
  from l show "q_msgs (msq_append m me now q) = q_msgs q @ [m]" by (simp add: msq_append_def)
  show "msq_ok (msq_append m me now q)"
    using assms tail_ok_append [OF t assms(2)] l by (auto simp: msq_ok_def msq_append_def)
qed

lemma msq_unlink_msgs: "q_msgs (msq_unlink k me now q) = take k (q_msgs q) @ drop (k + 1) (q_msgs q)"
  by (simp add: msq_unlink_def Let_def)

lemma tail_ok_unlink:
  assumes "tail_ok key (Some t) xs" "k < length xs" and rest: "rest = take k xs @ drop (Suc k) xs"
  shows "tail_ok key (if t = key (xs ! k) then (if rest = [] then None else Some (key (last rest))) else Some t) rest"
proof -
  have split: "xs = take k xs @ xs ! k # drop (Suc k) xs" using assms(2) by (rule id_take_nth_drop)
  have d: "distinct (map key xs)" and t: "t = key (last xs)" and ne: "xs \<noteq> []"
    using assms(1) by (auto simp: tail_ok_def split: if_splits)
  have "distinct (map key (take k xs @ xs ! k # drop (Suc k) xs))" using d split by metis
  then have dr: "distinct (map key rest)" by (auto simp: rest)
  show ?thesis
  proof (cases "drop (Suc k) xs = []")
    case True
    then have "last xs = xs ! k" using split by (metis last_snoc)
    with t dr show ?thesis by (simp add: tail_ok_def)
  next
    case False
    then have "last xs = last (drop (Suc k) xs)" by (metis last_drop drop_eq_Nil not_less)
    moreover have "key (xs ! k) \<notin> key ` set (drop (Suc k) xs)"
      using \<open>distinct (map key (take k xs @ xs ! k # drop (Suc k) xs))\<close> by auto
    ultimately have "key (xs ! k) \<noteq> t" using t False by (metis imageI last_in_set)
    moreover have "last rest = last xs" using False \<open>last xs = _\<close> by (simp add: rest)
    ultimately show ?thesis using t dr False by (auto simp: tail_ok_def rest)
  qed
qed

lemma msq_unlink_ok:
  assumes ok: "msq_ok q" and k: "k < length (q_msgs q)"
  shows "msq_ok (msq_unlink k me now q)"
proof -
  define xs where "xs = q_msgs q"
  define rest where "rest = take k xs @ drop (Suc k) xs"
  have k': "k < length xs" using k by (simp add: xs_def)
  have split: "xs = take k xs @ xs ! k # drop (Suc k) xs" using k' by (rule id_take_nth_drop)
  obtain t where t: "q_tail q = Some t" "tail_ok km_addr (Some t) xs"
    using ok k by (auto simp: msq_ok_def tail_ok_def xs_def split: if_splits)
  have "tail_ok km_addr (q_tail (msq_unlink k me now q)) rest"
    using tail_ok_unlink [OF t(2) k' rest_def] t(1)
    by (auto simp: msq_unlink_def Let_def xs_def [symmetric] rest_def [symmetric] split: if_splits)
  moreover have "q_msgs (msq_unlink k me now q) = rest" by (simp add: msq_unlink_msgs rest_def xs_def)
  moreover have "q_cbytes (msq_unlink k me now q) = of_nat (sum_list (map km_len rest))"
  proof -
    have "sum_list (map km_len xs) = km_len (xs ! k) + sum_list (map km_len rest)"
      by (subst split) (simp add: rest_def)
    then show ?thesis using ok by (simp add: msq_ok_def msq_unlink_def Let_def xs_def)
  qed
  moreover have "q_qnum (msq_unlink k me now q) = of_nat (length rest)"
  proof -
    have "length xs = Suc (length rest)" using k' by (simp add: rest_def)
    then show ?thesis using ok by (simp add: msq_ok_def msq_unlink_def Let_def xs_def)
  qed
  moreover have "set rest \<subseteq> set xs" by (auto simp: rest_def dest: in_set_takeD in_set_dropD)
  ultimately show ?thesis using ok by (auto simp: msq_ok_def xs_def)
qed

lemma queued_set_obj:
  "queued (set_obj a q ns) ad \<Longrightarrow> queued ns ad \<or> ad \<in> km_addr ` set (q_msgs q)"
  by (auto simp: queued_def split: if_splits)

lemma msg_invD:
  assumes "msg_inv (ns, ws)"
  shows "ns_ok ns (map snd ws)" "ns_heap ns a = Some q \<Longrightarrow> msq_ok q"
    and "m \<in> set (pending ws) \<Longrightarrow> \<not> queued ns (km_addr m)"
  using assms by (auto simp: msg_inv_def)

text \<open>Replacing the contents of a queue.\<close>

lemma msg_inv_set:
  assumes inv: "msg_inv (ns, ws)" and q: "ns_heap ns a = Some q" and ok: "msq_ok q'"
    and eq: "io_key q' = io_key q" "io_id q' = io_id q" "io_dead q' = io_dead q" "io_refs q' = io_refs q"
    and new: "\<And>m. m \<in> set (q_msgs q') \<Longrightarrow> m \<in> set (q_msgs q) \<or> km_addr m \<notin> km_addr ` set (pending ws)"
  shows "msg_inv (set_obj a q' ns, ws)"
proof -
  have "\<not> queued (set_obj a q' ns) (km_addr p)" if p: "p \<in> set (pending ws)" for p
  proof
    assume "queued (set_obj a q' ns) (km_addr p)"
    from queued_set_obj [OF this] msg_invD(3) [OF inv p] obtain m where
      m: "m \<in> set (q_msgs q')" "km_addr m = km_addr p" by auto
    have "m \<in> set (q_msgs q)" using new [OF m(1)] m(2) p by auto
    then have "queued ns (km_addr p)" using q m(2) by (auto simp: queued_def)
    with msg_invD(3) [OF inv p] show False ..
  qed
  with modify_ok [OF msg_invD(1) [OF inv] q eq] inv ok show ?thesis by (auto simp: msg_inv_def)
qed

text \<open>Updates of a queue that leave its messages alone.\<close>

definition same_msgs :: "(msq \<Rightarrow> msq) \<Rightarrow> bool" where
  "same_msgs f \<longleftrightarrow> (\<forall>q. q_msgs (f q) = q_msgs q \<and> msq_ok (f q) = msq_ok q \<and> io_key (f q) = io_key q \<and>
     io_id (f q) = io_id q \<and> io_dead (f q) = io_dead q \<and> io_refs (f q) = io_refs q)"

lemma msg_inv_upd:
  assumes inv: "msg_inv (ns, ws)" and f: "same_msgs f"
  shows "msg_inv (upd_obj a f ns, ws)"
proof (cases "ns_heap ns a")
  case (Some q)
  have "msg_inv (set_obj a (f q) ns, ws)"
    using f msg_invD(2) [OF inv Some] by (intro msg_inv_set [OF inv Some]) (auto simp: same_msgs_def)
  with Some show ?thesis by (simp add: upd_obj_def)
qed (simp add: upd_obj_def inv)

lemma queued_alt:
  "queued ns ad \<longleftrightarrow> (\<exists>a ms. map_option q_msgs (ns_heap ns a) = Some ms \<and> ad \<in> km_addr ` set ms)"
  by (auto simp: queued_def)

lemma queued_cong:
  "(\<And>b. map_option q_msgs (ns_heap ns' b) = map_option q_msgs (ns_heap ns b)) \<Longrightarrow> queued ns' = queued ns"
  by (simp add: fun_eq_iff queued_alt)

text \<open>A new, smaller or emptier collection of queues, and fewer sleepers.\<close>

lemma msg_inv_shrink:
  assumes inv: "msg_inv (ns, ws)" and ok: "ns_ok ns' (map snd ws')"
    and h: "\<And>b x. ns_heap ns' b = Some x \<Longrightarrow>
      msq_ok x \<and> (q_msgs x = [] \<or> (\<exists>q. ns_heap ns b = Some q \<and> q_msgs x = q_msgs q))"
    and pend: "set (pending ws') \<subseteq> set (pending ws)" "distinct (map km_addr (pending ws'))"
  shows "msg_inv (ns', ws')"
proof -
  have "queued ns ad" if q: "queued ns' ad" for ad
  proof -
    from q obtain b x m where x: "ns_heap ns' b = Some x" "m \<in> set (q_msgs x)" "km_addr m = ad"
      by (auto simp: queued_def)
    from h [OF x(1)] x(2) obtain y where "ns_heap ns b = Some y" "q_msgs x = q_msgs y" by auto
    with x(2,3) show ?thesis by (auto simp: queued_def)
  qed
  with inv ok h pend show ?thesis unfolding msg_inv_def by blast
qed

text \<open>What sending needs of the message of a call.\<close>

definition call_ready :: "msg_call \<Rightarrow> msq_ns \<Rightarrow> (msg_call \<times> nat) list \<Rightarrow> bool" where
  "call_ready c ns ws \<longleftrightarrow>
     (case c of
        SndCall me i m flags \<Rightarrow> \<not> queued ns (km_addr m) \<and> km_addr m \<notin> km_addr ` set (pending ws) \<and>
          km_len m \<le> MSGMAX \<and> 0 < sint (km_type m)
      | RcvCall me i len ty flags \<Rightarrow> True)"

text \<open>Going to sleep.\<close>

lemma msg_inv_hold:
  assumes inv: "msg_inv (ns, ws)" and q: "ns_heap ns a = Some q"
    and ready: "call_ready c ns ws"
  shows "msg_inv (ipc_hold a ns, (c, a) # ws)"
proof -
  have new: "\<not> queued ns (km_addr m) \<and> km_addr m \<notin> km_addr ` set (pending ws) \<and> km_len m \<le> MSGMAX \<and>
      0 < sint (km_type m)" if "pending [(c, a)] = [m]" for m
    using ready that by (cases c) (auto simp: call_ready_def pending_def map_filter_def)
  have h: "ipc_hold a ns = set_obj a (q\<lparr>io_refs := io_refs q + 1\<rparr>) ns"
    by (simp add: ipc_hold_def upd_obj_def q)
  then have qd: "queued (ipc_hold a ns) = queued ns" using q by (intro queued_cong) auto
  have "msq_ok (q\<lparr>io_refs := io_refs q + 1\<rparr>)" using msg_invD(2) [OF inv q] by (simp add: msq_ok_def)
  then have mo: "\<forall>b x. ns_heap (ipc_hold a ns) b = Some x \<longrightarrow> msq_ok x"
    using msg_invD(2) [OF inv] by (auto simp: h)
  have "pending ((c, a) # ws) = pending [(c, a)] @ pending ws" by (simp add: pending_def map_filter_def)
  moreover have "pending [(c, a)] = [] \<or> (\<exists>m. pending [(c, a)] = [m])"
    by (cases c) (auto simp: pending_def map_filter_def)
  ultimately show ?thesis
    using hold_ok [OF msg_invD(1) [OF inv] q] inv new mo by (auto simp: msg_inv_def qd)
qed

lemma not_queued: "\<not> queued ns ad \<Longrightarrow> ns_heap ns a = Some q \<Longrightarrow> ad \<notin> km_addr ` set (q_msgs q)"
  unfolding queued_def by blast

lemma lookup_obj:
  assumes "ipc_lookup_locked ns i = Some a"
  obtains q where "ns_heap ns a = Some q" "\<not> io_dead q" "io_id q = i"
  using lookup_SomeD [OF assms] by blast

lemma same_msgs_waitq [simp]:
  "same_msgs (\<lambda>q. q\<lparr>q_wq := f q\<rparr>)" "same_msgs (\<lambda>q. q\<lparr>q_rq := f q\<rparr>)"
  "same_msgs (\<lambda>q. q\<lparr>q_rq := f q, q_wq := g q\<rparr>)"
  "same_msgs (\<lambda>q. if P then q\<lparr>q_wq := f q\<rparr> else q\<lparr>q_rq := g q\<rparr>)"
  by (auto simp: same_msgs_def msq_ok_def)

lemma msgsnd_try_inv:
  assumes inv: "msg_inv (ns, ws)" and ready: "call_ready (SndCall me i m flags) ns ws"
    and t: "msgsnd_try me i m flags intr now ns = (t, ns')"
  shows "msg_inv (ns', sleeper (SndCall me i m flags) t @ ws)"
proof (cases "ipc_lookup_locked ns i")
  case None
  with t inv show ?thesis by (auto simp: msgsnd_try_def sleeper_def)
next
  case (Some a)
  then obtain q where q: "ns_heap ns a = Some q" by (rule lookup_obj)
  have fresh: "km_addr m \<notin> km_addr ` set (q_msgs q)" "km_addr m \<notin> km_addr ` set (pending ws)"
    "km_len m \<le> MSGMAX" "0 < sint (km_type m)"
    using ready not_queued [OF _ q, of "km_addr m"] by (auto simp: call_ready_def)
  note ap = msq_append_ok [OF msg_invD(2) [OF inv q] fresh(1,3,4), of me now]
  have app: "msg_inv (set_obj a (msq_append m me now q) ns, ws)"
    using ap fresh(2) by (intro msg_inv_set [OF inv q]) (auto simp: msq_append_def)
  have sl: "msg_inv (upd_obj a (\<lambda>q. q\<lparr>q_wq := snd (waitq_add (t_task me) (q_wq q))\<rparr>) (ipc_hold a ns),
      (SndCall me i m flags, a) # ws)"
    by (intro msg_inv_upd msg_inv_hold [OF inv q ready]) simp
  show ?thesis
    using t Some q inv app sl by (auto simp: msgsnd_try_def Let_def sleeper_def split: if_splits)
qed

lemma pick_from_bound:
  "pick_from ty flags i best ms = Some k \<Longrightarrow> (\<forall>j bt. best = Some (j, bt) \<longrightarrow> j < i) \<Longrightarrow> k < i + length ms"
proof (induction ms arbitrary: i best)
  case (Cons m ms)
  have "k < (i + 1) + length ms" if "pick_from ty flags (i + 1) b ms = Some k" "\<forall>j bt. b = Some (j, bt) \<longrightarrow> j < i + 1" for b
    using Cons.IH that by blast
  with Cons.prems show ?case by (auto split: if_splits) fastforce+
qed auto

lemma pick_bound: "pick q ty flags = Some k \<Longrightarrow> k < length (q_msgs q)"
  using pick_from_bound [of ty flags 0 None "q_msgs q" k] by (simp add: pick_def)

lemma msgrcv_try_inv:
  assumes inv: "msg_inv (ns, ws)" and t: "msgrcv_try me i len ty flags intr now ns = (t, ns')"
  shows "msg_inv (ns', sleeper (RcvCall me i len ty flags) t @ ws)"
proof (cases "ipc_lookup_locked ns i")
  case None
  with t inv show ?thesis by (auto simp: msgrcv_try_def sleeper_def)
next
  case (Some a)
  then obtain q where q: "ns_heap ns a = Some q" by (rule lookup_obj)
  have un: "msg_inv (set_obj a (msq_unlink k me now q) ns, ws)" if "pick q ty flags = Some k" for k
  proof (rule msg_inv_set [OF inv q])
    show "msq_ok (msq_unlink k me now q)" by (rule msq_unlink_ok [OF msg_invD(2) [OF inv q] pick_bound [OF that]])
  qed (auto simp: msq_unlink_def Let_def dest: in_set_takeD in_set_dropD)
  have sl: "msg_inv (upd_obj a (\<lambda>q. q\<lparr>q_rq := snd (waitq_add (t_task me) (q_rq q))\<rparr>) (ipc_hold a ns),
      (RcvCall me i len ty flags, a) # ws)"
    by (intro msg_inv_upd msg_inv_hold [OF inv q]) (simp_all add: call_ready_def)
  show ?thesis
    using t Some q inv un sl by (auto simp: msgrcv_try_def Let_def sleeper_def split: if_splits option.splits)
qed

lemma msg_turn_inv:
  "msg_inv (ns, ws) \<Longrightarrow> call_ready c ns ws \<Longrightarrow> msg_turn c intr now ns = (sl, ns') \<Longrightarrow> msg_inv (ns', sl @ ws)"
  by (cases c) (auto intro: msgsnd_try_inv msgrcv_try_inv split: prod.splits)

lemma pending_append: "pending (xs @ ys) = pending xs @ pending ys"
  by (simp add: pending_def map_filter_def)

lemma pending_Cons: "pending ((c, a) # ws) = (case c of SndCall me i m flags \<Rightarrow> [m] | _ \<Rightarrow> []) @ pending ws"
  by (auto simp: pending_def map_filter_def split: msg_call.split)

lemma put_heap:
  "ns_heap (ipc_put_locked msq_destroy a ns) b = Some x \<Longrightarrow>
   \<exists>q. ns_heap ns b = Some q \<and> q_msgs x = q_msgs q \<and> msq_ok x = msq_ok q"
  by (auto simp: ipc_put_locked_def Let_def msq_destroy_def msq_ok_def split: option.splits if_splits)

lemma remove_heap:
  "ns_heap (ipc_remove_locked msq_destroy a ns) b = Some x \<Longrightarrow>
   \<exists>q. ns_heap ns b = Some q \<and> q_msgs x = q_msgs q \<and> msq_ok x = msq_ok q"
  by (auto simp: ipc_remove_locked_def Let_def msq_destroy_def msq_ok_def split: option.splits if_splits)

lemma msg_resume_inv:
  assumes inv: "msg_inv (ns, xs @ (c, a) # ys)" and r: "msg_resume a ns = (g, ns')"
  shows "msg_inv (ns', xs @ ys)" "call_ready c ns' (xs @ ys)"
proof -
  have ns': "ns' = ipc_put_locked msq_destroy a ns" using r by (simp add: msg_resume_def)
  have ok: "ns_ok ns' (map snd (xs @ ys))"
    using msg.put_ok_middle [of ns "map snd xs" a "map snd ys"] msg_invD(1) [OF inv] by (simp add: ns')
  have h: "\<exists>q. ns_heap ns b = Some q \<and> q_msgs x = q_msgs q \<and> msq_ok x = msq_ok q" if "ns_heap ns' b = Some x" for b x
    using put_heap [of a ns b x] that by (simp add: ns')
  have d: "distinct (map km_addr (pending (xs @ (c, a) # ys)))" using inv by (simp add: msg_inv_def)
  show "msg_inv (ns', xs @ ys)"
  proof (rule msg_inv_shrink [OF inv ok])
    show "msq_ok x \<and> (q_msgs x = [] \<or> (\<exists>q. ns_heap ns b = Some q \<and> q_msgs x = q_msgs q))"
      if "ns_heap ns' b = Some x" for b x using h [OF that] msg_invD(2) [OF inv] by blast
  qed (use d in \<open>auto simp: pending_append pending_Cons\<close>)
  have q: "queued ns' ad \<Longrightarrow> queued ns ad" for ad using h by (fastforce simp: queued_def)
  show "call_ready c ns' (xs @ ys)"
  proof (cases c)
    case (SndCall me i m flags)
    then have "m \<in> set (pending (xs @ (c, a) # ys))" by (simp add: pending_append pending_Cons)
    with inv have "\<not> queued ns (km_addr m)" "km_len m \<le> MSGMAX" "0 < sint (km_type m)" by (auto simp: msg_inv_def)
    moreover have "km_addr m \<notin> km_addr ` set (pending (xs @ ys))"
      using d SndCall by (auto simp: pending_append pending_Cons)
    ultimately show ?thesis using q SndCall by (auto simp: call_ready_def)
  qed (simp add: call_ready_def)
qed

lemma msq_create_ok: "msq_create mem now = Inr (a, q) \<Longrightarrow> mem = Some a \<and> msq_ok q \<and> q_msgs q = []"
  by (auto simp: msq_create_def msq_ok_def split: option.splits)

lemma install_heap:
  assumes "ns_heap (snd (ipc_create_install msq_destroy created check key flags me ns)) b = Some x"
  shows "(\<exists>q. ns_heap ns b = Some q \<and> x = q) \<or>
    (\<exists>q. created = Inr (b, q) \<and> q_msgs x = q_msgs q \<and> msq_ok x = msq_ok q)"
  using assms
  by (auto simp: ipc_create_install_def ipc_get_install_def Let_def msq_destroy_def ipc_fresh_def msq_ok_def
      split: sum.splits prod.splits option.splits if_splits)

lemma msg_create_inv:
  assumes inv: "msg_inv (ns, ws)" and fresh: "\<And>a. mem = Some a \<Longrightarrow> ns_heap ns a = None"
  shows "msg_inv (snd (ipc_create_install msq_destroy (msq_create mem now) check key flags me ns), ws)"
proof (rule msg_inv_shrink [OF inv])
  show "ns_ok (snd (ipc_create_install msq_destroy (msq_create mem now) check key flags me ns)) (map snd ws)"
    using fresh msq_create_ok by (intro msg.create_install_ok [OF msg_invD(1) [OF inv]]) blast
  show "msq_ok x \<and> (q_msgs x = [] \<or> (\<exists>q. ns_heap ns b = Some q \<and> q_msgs x = q_msgs q))"
    if "ns_heap (snd (ipc_create_install msq_destroy (msq_create mem now) check key flags me ns)) b = Some x" for b x
    using install_heap [OF that] msg_invD(2) [OF inv] msq_create_ok [of mem now b] by force
qed (use inv in \<open>auto simp: msg_inv_def\<close>)

lemma msg_remove_inv:
  assumes inv: "msg_inv (ns, ws)" and q: "ns_heap ns a = Some q" "\<not> io_dead q"
  shows "msg_inv (ipc_remove_locked msq_destroy a ns, ws)"
proof (rule msg_inv_shrink [OF inv])
  show "ns_ok (ipc_remove_locked msq_destroy a ns) (map snd ws)"
    by (rule msg.remove_ok [OF msg_invD(1) [OF inv] q])
  show "msq_ok x \<and> (q_msgs x = [] \<or> (\<exists>q. ns_heap ns b = Some q \<and> q_msgs x = q_msgs q))"
    if "ns_heap (ipc_remove_locked msq_destroy a ns) b = Some x" for b x
    using remove_heap [OF that] msg_invD(2) [OF inv] by blast
qed (use inv in \<open>auto simp: msg_inv_def\<close>)

lemma msgctl_inv:
  assumes inv: "msg_inv (ns, ws)" and c: "sys_msgctl cur i cmd uds copy_ok now ns = (r, res, ns')"
  shows "msg_inv (ns', ws)"
proof (cases "ipc_lookup_locked ns i")
  case None
  with inv c show ?thesis by (auto simp: sys_msgctl_def Let_def split: option.splits if_splits)
next
  case (Some a)
  then obtain q where q: "ns_heap ns a = Some q" "\<not> io_dead q" by (rule lookup_obj)
  have set: "msg_inv (set_obj a ((ipc_set_perm p q)\<lparr>q_qbytes := n, q_ctime := now, q_wq := w\<rparr>) ns, ws)" for p n w
    using msg_invD(2) [OF inv q(1)] by (intro msg_inv_set [OF inv q(1)]) (auto simp: ipc_set_perm_def msq_ok_def)
  let ?ns = "upd_obj a (\<lambda>q. q\<lparr>q_rq := woken (q_rq q), q_wq := woken (q_wq q)\<rparr>) ns"
  have "msg_inv (ipc_remove_locked msq_destroy a ?ns, ws)"
  proof (rule msg_remove_inv [OF msg_inv_upd [OF inv]])
    show "ns_heap ?ns a = Some (q\<lparr>q_rq := woken (q_rq q), q_wq := woken (q_wq q)\<rparr>)" using q by simp
  qed (use q in simp_all)
  with set inv c q Some show ?thesis
    by (auto simp: sys_msgctl_def Let_def split: option.splits if_splits)
qed

lemma msg_run_inv: "msg_run s \<Longrightarrow> msg_inv s"
proof (induction rule: msg_run.induct)
  case start
  show ?case
    by (simp add: msg_inv_def msg_ns_init_def ns_ok_def slots_ok_def keys_unique_def pending_def map_filter_def IPC_SLOTS_def)
next
  case (create ns ws mem now key flags me)
  then show ?case by (intro msg_create_inv) auto
next
  case (snd ns ws len mem ubuf m me i flags intr now sl ns')
  then have "call_ready (SndCall me i m flags) ns ws"
    using msgsnd_prepare_ok by (auto simp: call_ready_def)
  with snd show ?case by (intro msg_turn_inv)
next
  case (rcv ns ws me i len ty flags intr now sl ns')
  then show ?case by (intro msg_turn_inv [of ns ws "RcvCall me i len ty flags"]) (simp_all add: call_ready_def)
next
  case (unqueue ns ws c a)
  then show ?case by (simp add: msg_unqueue_def msg_inv_upd)
next
  case (gone ns xs c a ys ns')
  show ?case by (rule msg_resume_inv(1) [OF gone.IH gone.hyps(2)])
next
  case (retry ns xs c a ys ns1 intr now sl ns')
  note r = msg_resume_inv [OF retry.IH retry.hyps(2)]
  show ?case by (rule msg_turn_inv [OF r retry.hyps(3)])
next
  case (ctl ns ws cur i cmd uds copy_ok now r res ns')
  show ?case by (rule msgctl_inv [OF ctl.IH ctl.hyps(2)])
qed

section \<open>Which message is received\<close>

definition selectable :: "u64 \<Rightarrow> u32 \<Rightarrow> kmsg \<Rightarrow> bool" where
  "selectable ty flags m \<longleftrightarrow>
     (if ty = 0 then True
      else if sint ty > 0 then (if flags AND MSG_EXCEPT \<noteq> 0 then km_type m \<noteq> ty else km_type m = ty)
      else sint (km_type m) \<le> sint (- ty))"

lemma pick_from_first:
  "sint ty \<ge> 0 \<Longrightarrow> pick_from ty flags i None ms = map_option ((+) i) (find_slot (selectable ty flags) ms)"
proof (induction ms arbitrary: i)
  case (Cons m ms)
  have "ty \<noteq> 0 \<Longrightarrow> sint ty > 0" 
    using Cons.prems sint_inj [of ty 0] by (cases "sint ty = 0") auto
  with Cons show ?case
    by (auto simp: selectable_def option.map_comp comp_def intro!: option.map_cong0)
qed simp

text \<open>The best message of a prefix, for a negative type.\<close>

definition best_of :: "u64 \<Rightarrow> u32 \<Rightarrow> kmsg list \<Rightarrow> nat \<Rightarrow> bool" where
  "best_of ty flags xs k \<longleftrightarrow> k < length xs \<and> selectable ty flags (xs ! k) \<and>
     (\<forall>j<length xs. selectable ty flags (xs ! j) \<longrightarrow>
        sint (km_type (xs ! k)) < sint (km_type (xs ! j)) \<or> km_type (xs ! k) = km_type (xs ! j) \<and> k \<le> j)"

lemma best_of_keep:
  "best_of ty flags xs k \<Longrightarrow> \<not> selectable ty flags m \<or> \<not> sint (km_type m) < sint (km_type (xs ! k)) \<Longrightarrow>
   best_of ty flags (xs @ [m]) k"
  by (auto simp: best_of_def nth_append less_Suc_eq order.order_iff_strict not_less dest: sint_inj)

lemma best_of_new:
  "best_of ty flags xs k \<and> sint (km_type m) < sint (km_type (xs ! k)) \<or> (\<forall>x\<in>set xs. \<not> selectable ty flags x) \<Longrightarrow>
   selectable ty flags m \<Longrightarrow> best_of ty flags (xs @ [m]) (length xs)"
  by (auto simp: best_of_def nth_append less_Suc_eq all_set_conv_all_nth)

lemma pick_from_best:
  assumes "sint ty < 0"
    and "case best of None \<Rightarrow> \<forall>x\<in>set pre. \<not> selectable ty flags x
         | Some (j, bt) \<Rightarrow> best_of ty flags pre j \<and> bt = km_type (pre ! j)"
  shows "case pick_from ty flags (length pre) best ms of
           None \<Rightarrow> \<forall>x\<in>set (pre @ ms). \<not> selectable ty flags x
         | Some k \<Rightarrow> best_of ty flags (pre @ ms) k"
  using assms
proof (induction ms arbitrary: pre best)
  case Nil
  then show ?case by (auto split: option.splits)
next
  case (Cons m ms)
  have nz: "ty \<noteq> 0" "\<not> 0 < sint ty" using Cons.prems(1) by auto
  have sel: "selectable ty flags m \<longleftrightarrow> sint (km_type m) \<le> sint (- ty)" using nz by (simp add: selectable_def)
  let ?better = "selectable ty flags m \<and> (case best of None \<Rightarrow> True | Some (j, bt) \<Rightarrow> sint (km_type m) < sint bt)"
  let ?best = "if ?better then Some (length pre, km_type m) else best"
  have "case ?best of None \<Rightarrow> \<forall>x\<in>set (pre @ [m]). \<not> selectable ty flags x
      | Some (j, bt) \<Rightarrow> best_of ty flags (pre @ [m]) j \<and> bt = km_type ((pre @ [m]) ! j)"
  proof (cases best)
    case None
    with Cons.prems(2) show ?thesis using best_of_new [of ty flags pre] by auto
  next
    case (Some p)
    obtain j bt where p: "p = (j, bt)" by (meson surj_pair)
    have b: "best_of ty flags pre j" "bt = km_type (pre ! j)" using Cons.prems(2) Some p by auto
    then have "j < length pre" by (simp add: best_of_def)
    with b Some p best_of_new [of ty flags pre j m] best_of_keep [OF b(1), of m] show ?thesis
      by (auto simp: nth_append)
  qed
  note ih = Cons.IH [OF Cons.prems(1) this, unfolded append_assoc append_Cons append_Nil]
  have "pick_from ty flags (length pre) best (m # ms) = pick_from ty flags (length (pre @ [m])) ?best ms"
    using nz sel by auto
  with ih show ?case by simp
qed

lemma pick_correct:
  "case pick q ty flags of
     None \<Rightarrow> \<forall>m\<in>set (q_msgs q). \<not> selectable ty flags m
   | Some k \<Rightarrow> k < length (q_msgs q) \<and> selectable ty flags (q_msgs q ! k) \<and>
       (\<forall>j<length (q_msgs q). selectable ty flags (q_msgs q ! j) \<longrightarrow>
          (if sint ty < 0
           then sint (km_type (q_msgs q ! k)) < sint (km_type (q_msgs q ! j)) \<or>
                km_type (q_msgs q ! k) = km_type (q_msgs q ! j) \<and> k \<le> j
           else k \<le> j))"
proof (cases "sint ty < 0")
  case True
  then show ?thesis
    using pick_from_best [OF True, where best = None and pre = "[]" and flags = flags and ms = "q_msgs q"] by (auto simp: pick_def best_of_def split: option.splits)
next
  case False
  then have eq: "pick q ty flags = find_slot (selectable ty flags) (q_msgs q)"
    using pick_from_first [of ty flags 0 "q_msgs q"]
    by (cases "find_slot (selectable ty flags) (q_msgs q)") (simp_all add: pick_def)
  show ?thesis
  proof (cases "find_slot (selectable ty flags) (q_msgs q)")
    case None
    then have "\<forall>m\<in>set (q_msgs q). \<not> selectable ty flags m" by (simp add: find_slot_None_iff)
    with None show ?thesis by (simp add: eq)
  next
    case (Some k)
    then show ?thesis using find_slot_SomeD [OF Some] False by (auto simp: eq not_less [symmetric])
  qed
qed

section \<open>Properties\<close>

text \<open>One queue, created by root with key 7 and mode 0666, with two messages of types 5 and 3.\<close>

definition demo_ns :: msq_ns where
  "demo_ns = snd (ipc_create_install msq_destroy (msq_create (Some 100) 0) (\<lambda>_. None) 7 0x3B6 root_task msg_ns_init)"

definition demo_msg :: "nat \<Rightarrow> u64 \<Rightarrow> kmsg" where
  "demo_msg a ty = \<lparr>km_addr = a, km_type = ty, km_data = [1, 2, 3]\<rparr>"

definition demo_ns2 :: msq_ns where
  "demo_ns2 = snd (msgsnd_try root_task 256 (demo_msg 200 5) 0 False 1 demo_ns)"

definition demo_ns3 :: msq_ns where
  "demo_ns3 = snd (msgsnd_try root_task 256 (demo_msg 201 3) 0 False 1 demo_ns2)"

lemma demo_run1: "msg_run (demo_ns, [])"
  unfolding demo_ns_def by (rule msg_run.create [OF msg_run.start]) (simp add: msg_ns_init_def)

lemma demo_prepare: "msgsnd_prepare 3 (Some 200) (Some (5, [1, 2, 3])) = Inr (demo_msg 200 5)"
  "msgsnd_prepare 3 (Some 201) (Some (3, [1, 2, 3])) = Inr (demo_msg 201 3)"
  by (simp_all add: msgsnd_prepare_def MSGMAX_def demo_msg_def)

definition demo_q :: msq where
  "demo_q = snd (projr (msq_create (Some 100) 0))
     \<lparr>io_key := 7, io_mode := 0x1B6, io_seq := 1, io_id := 256\<rparr>"

lemma demo_ns_eq:
  "demo_ns = \<lparr>ns_slot = (replicate IPC_SLOTS None)[0 := Some 100], ns_seq = 1,
              ns_heap = (\<lambda>_. None)(100 := Some demo_q), ns_env = ()\<rparr>"
  by (simp add: demo_ns_def demo_q_def ipc_create_install_def ipc_get_install_def msq_create_def msg_ns_init_def
      Let_def find_key_locked_def slot_has_key_def IPC_SLOTS_def ipc_fresh_def root_task_def upd_obj_def
      set_obj_def IPC_PRIVATE_K_def fun_eq_iff)

lemma demo_obj: "ns_heap demo_ns 100 = Some demo_q" "ns_slot demo_ns ! 0 = Some 100"
  by (simp_all add: demo_ns_eq IPC_SLOTS_def)

lemma demo_q_simps [simp]:
  "io_id demo_q = 256" "\<not> io_dead demo_q" "q_msgs demo_q = []" "q_tail demo_q = None" "q_cbytes demo_q = 0"
  "q_qnum demo_q = 0" "q_qbytes demo_q = 16384"
  by (simp_all add: demo_q_def msq_create_def MSGMNB_def)

lemma demo_slots: "slot_of 256 = 0" "(0 :: nat) < IPC_SLOTS" by (simp_all add: slot_of_def IPC_SLOTS_def)

lemma demo_lookup: "ipc_lookup_locked demo_ns 256 = Some 100"
  by (simp add: ipc_lookup_locked_def demo_obj demo_slots)

lemma demo_send1: "msgsnd_try root_task 256 (demo_msg 200 5) 0 False 1 demo_ns =
    (Return ok, set_obj 100 (msq_append (demo_msg 200 5) root_task 1 demo_q) demo_ns)"
  by (simp add: msgsnd_try_def demo_lookup demo_obj demo_msg_def)

lemma demo_ns2_eq: "demo_ns2 = set_obj 100 (msq_append (demo_msg 200 5) root_task 1 demo_q) demo_ns"
  by (simp add: demo_ns2_def demo_send1)

lemma demo_lookup2: "ipc_lookup_locked demo_ns2 256 = Some 100"
  by (simp add: ipc_lookup_locked_def demo_ns2_eq demo_obj demo_slots msq_append_def)

lemma demo_send2: "msgsnd_try root_task 256 (demo_msg 201 3) 0 False 1 demo_ns2 =
    (Return ok, set_obj 100 (msq_append (demo_msg 201 3) root_task 1
       (msq_append (demo_msg 200 5) root_task 1 demo_q)) demo_ns2)"
  by (simp add: msgsnd_try_def demo_lookup2) (simp add: demo_ns2_eq msq_append_def demo_msg_def)

lemma demo_ns3_eq: "demo_ns3 = set_obj 100 (msq_append (demo_msg 201 3) root_task 1
       (msq_append (demo_msg 200 5) root_task 1 demo_q)) demo_ns2"
  by (simp add: demo_ns3_def demo_send2)

lemma demo_eval: "map_option q_msgs (ns_heap demo_ns 100) = Some []"
  "map_option q_msgs (ns_heap demo_ns2 100) = Some [demo_msg 200 5]"
  "map_option q_msgs (ns_heap demo_ns3 100) = Some [demo_msg 200 5, demo_msg 201 3]"
  "ipc_lookup_locked demo_ns3 256 = Some 100"
proof -
  show "ipc_lookup_locked demo_ns3 256 = Some 100"
    by (simp add: ipc_lookup_locked_def demo_ns3_eq demo_ns2_eq demo_obj demo_slots msq_append_def)
qed (simp_all add: demo_ns3_eq demo_ns2_eq demo_obj msq_append_def link_tail_def demo_msg_def)

lemma queued_one:
  "(\<And>b. b \<noteq> a \<Longrightarrow> ns_heap ns b = None) \<Longrightarrow> map_option q_msgs (ns_heap ns a) = Some ms \<Longrightarrow>
   queued ns ad \<longleftrightarrow> ad \<in> km_addr ` set ms"
  unfolding queued_alt by (metis option.map_disc_iff option.simps(3) option.inject)

lemma demo_heap: "b \<noteq> 100 \<Longrightarrow> ns_heap demo_ns b = None"
  by (simp add: demo_ns_eq)

lemma try_heap: "ipc_lookup_locked ns i = Some a \<Longrightarrow> b \<noteq> a \<Longrightarrow>
    ns_heap (snd (msgsnd_try me i m flags intr now ns)) b = ns_heap ns b"
  by (simp add: msgsnd_try_def Let_def ipc_hold_def)

lemma demo_heap2: "b \<noteq> 100 \<Longrightarrow> ns_heap demo_ns2 b = None"
  unfolding demo_ns2_def by (simp add: try_heap [OF demo_lookup] demo_heap)

lemma demo_run2: "msg_run (demo_ns2, [])"
proof -
  have "\<not> queued demo_ns 200" using queued_one [OF demo_heap demo_eval(1)] by simp
  moreover have "msgsnd_try root_task 256 (demo_msg 200 5) 0 False 1 demo_ns = (Return ok, demo_ns2)"
    by (simp add: demo_ns2_eq demo_send1)
  ultimately have "msg_run (demo_ns2, [] @ [])"
    by (intro msg_run.snd [OF demo_run1 demo_prepare(1), where me = root_task and i = 256 and flags = 0 and intr = False and now = 1])
       (simp_all add: demo_msg_def pending_def map_filter_def sleeper_def)
  then show ?thesis by simp
qed

text \<open>
  C4. Whatever calls are interleaved, a system call that sleeps in \<open>msgsnd\<close> or \<open>msgrcv\<close> never finds
  its queue freed under it, and queues are neither leaked nor reachable after removal: reference
  counts are the numbers of sleepers, removed queues stay allocated exactly while somebody sleeps on
  them, live queues and slots correspond, and keys are unique.  Every queue is intact: its tail
  pointer is its last message, its counters are the number and the total size of its messages.
\<close>

theorem msg_run_safe:
  assumes "msg_run (ns, ws)"
  shows "ns_ok ns (map snd ws) \<and> (\<forall>a q. ns_heap ns a = Some q \<longrightarrow> msq_ok q)"
  using msg_run_inv [OF assms] by (simp add: msg_inv_def)

theorem msg_run_safe_witness:
  "ns_ok demo_ns2 [] \<and> msq_ok (the (ns_heap demo_ns2 100)) \<and>
   map_option q_msgs (ns_heap demo_ns2 100) = Some [demo_msg 200 5]"
  using msg_run_safe [OF demo_run2] demo_eval(2) by auto



text \<open>
  C27. A successful \<open>msgsnd\<close> appends its message at the end of the queue it names, within the queue's
  limits, and touches no other queue; a failing one changes no queue at all.
\<close>

theorem msgsnd_refines:
  assumes "msg_run (ns, ws)" "\<not> queued ns (km_addr m)" "msgsnd_try me i m flags intr now ns = (Return r, ns')"
  shows "if r = ok
    then \<exists>a q q'. ipc_lookup_locked ns i = Some a \<and> ns_heap ns a = Some q \<and> ns_heap ns' = (ns_heap ns)(a := Some q') \<and>
      q_msgs q' = q_msgs q @ [m] \<and> q_cbytes q' \<le> q_qbytes q' \<and> q_qnum q' \<le> q_qbytes q'
    else ns' = ns"
proof (cases "ipc_lookup_locked ns i")
  case None
  with assms(3) show ?thesis by (auto simp: msgsnd_try_def)
next
  case (Some a)
  then obtain q where q: "ns_heap ns a = Some q" by (rule lookup_obj)
  have "msq_ok q" using msg_run_inv [OF assms(1)] q by (auto simp: msg_inv_def)
  then have "link_tail km_addr (q_tail q) m (q_msgs q) = q_msgs q @ [m]" by (simp add: msq_ok_def link_tail_append)
  then show ?thesis
    using assms(3) Some q
    by (auto simp: msgsnd_try_def Let_def msq_append_def inc_le split: if_splits)
qed

theorem msgsnd_refines_witness:
  "\<exists>q'. ns_heap demo_ns3 100 = Some q' \<and> q_msgs q' = [demo_msg 200 5] @ [demo_msg 201 3]"
proof -
  have nq: "\<not> queued demo_ns2 (km_addr (demo_msg 201 3))"
    using queued_one [OF demo_heap2 demo_eval(2)] by (simp add: demo_msg_def)
  have "msgsnd_try root_task 256 (demo_msg 201 3) 0 False 1 demo_ns2 = (Return ok, demo_ns3)"
    by (simp add: demo_ns3_eq demo_send2)
  from msgsnd_refines [OF demo_run2 nq this] demo_eval(2) demo_lookup2 show ?thesis by auto
qed




text \<open>A receiver sleeps on the empty queue of the demonstration.\<close>

definition demo_call :: msg_call where
  "demo_call = RcvCall root_task 256 10 0 0"

lemma demo_sleep: "msg_run (snd (msgrcv_try root_task 256 10 0 0 False 1 demo_ns), [(demo_call, 100)])"
proof -
  let ?t = "msgrcv_try root_task 256 10 0 0 False 1 demo_ns"
  have "fst ?t = Sleep 100"
    by (simp add: msgrcv_try_def demo_lookup demo_obj pick_def)
  then obtain ns1 where t: "?t = (Sleep 100, ns1)" by (metis surjective_pairing)
  then have "msg_turn demo_call False 1 demo_ns = ([(demo_call, 100)], ns1)"
    by (simp add: demo_call_def sleeper_def)
  from msg_run.rcv [OF demo_run1 this [unfolded demo_call_def]] t show ?thesis by (simp add: demo_call_def)
qed


text \<open>
  The most negative type, whose negation overflows, selects nothing: \<open>msgrcv\<close> with \<open>msgtyp\<close> equal to
  \<open>LONG_MIN\<close> waits for ever (or fails) however many messages the queue holds.
\<close>

theorem pick_most_negative:
  assumes "msq_ok q"
  shows "pick q 0x8000000000000000 flags = None"
proof -
  have s: "sint (0x8000000000000000 :: u64) = - 0x8000000000000000" "- (0x8000000000000000 :: u64) = 0x8000000000000000" by simp_all
  have nz: "(0x8000000000000000 :: u64) \<noteq> 0" "\<not> sint (0x8000000000000000 :: u64) > 0" by simp_all
  have "\<not> selectable 0x8000000000000000 flags m" if "m \<in> set (q_msgs q)" for m
  proof -
    have "0 < sint (km_type m)" using assms that by (simp add: msq_ok_def)
    with nz show ?thesis unfolding selectable_def s by (simp only: if_False s)
  qed
  then show ?thesis
    using pick_correct [of q "0x8000000000000000" flags] by (auto split: option.splits)
qed

theorem pick_most_negative_witness: "pick (the (ns_heap demo_ns2 100)) 0x8000000000000000 0 = None"
proof -
  have "msq_ok (the (ns_heap demo_ns2 100))"
    using msg_run_inv [OF demo_run2] demo_eval(2) by (auto simp: msg_inv_def)
  then show ?thesis by (rule pick_most_negative)
qed

end
