(* ===== verification/Semset.thy ===== *)
theory Semset
  imports Ipc Waitq
begin

text \<open>
  System V semaphore sets, \<^verbatim>\<open>kernel/src/ipc/sem.c\<close>.  Besides the sets there are the undo records: each
  belongs to the chain of a process leader (\<open>se_chain\<close>) and to the chain of a set (\<open>ss_undos\<close>), and
  points to the set unless the set was destroyed.  As in \<^verbatim>\<open>msg.c\<close> the blocking call is a loop around
  \<open>waitq_block\<close>: \<open>semop_try\<close> is one turn of it, \<open>semop_resume\<close> what follows the sleep.
\<close>

definition SEMMSL :: nat where "SEMMSL = 250"
definition SEMOPM :: nat where "SEMOPM = 500"
definition SEMVMX :: int where "SEMVMX = 32767"
definition SEM_UNDO :: u16 where "SEM_UNDO = 0x1000"

definition SEM_NOWAIT :: u16 where "SEM_NOWAIT = 0x800"

record k_sembuf =
  sb_num :: nat
  sb_op :: int
  sb_flg :: u16

record ksem =
  sm_val :: int
  sm_pid :: u32
  sm_ncnt :: int
  sm_zcnt :: int

record semset = ipc_obj +
  ss_sem :: "ksem list"
  ss_otime :: int
  ss_ctime :: int
  ss_wq :: waitq
  ss_undos :: "nat list"

record sem_undo =
  un_set :: "nat option"
  un_adj :: "16 word list"

record sem_env =
  se_undo :: "nat \<Rightarrow> sem_undo option"
  se_chain :: "nat \<Rightarrow> nat list"

type_synonym sem_ns = "(unit semset_ext, sem_env) ipc_ns"

definition sem_ns_init :: sem_ns where
  "sem_ns_init = \<lparr>ns_slot = replicate IPC_SLOTS None, ns_seq = 0, ns_heap = (\<lambda>_. None),
                  ns_env = \<lparr>se_undo = (\<lambda>_. None), se_chain = (\<lambda>_. [])\<rparr>\<rparr>"

definition upd_undo :: "nat \<Rightarrow> (sem_undo \<Rightarrow> sem_undo) \<Rightarrow> sem_env \<Rightarrow> sem_env" where
  "upd_undo u f e = e\<lparr>se_undo := (se_undo e)(u := map_option f (se_undo e u))\<rparr>"

definition set_destroy :: "nat \<Rightarrow> sem_ns \<Rightarrow> sem_ns" where
  "set_destroy a ns =
     ns\<lparr>ns_env := (case ns_heap ns a of
                     None \<Rightarrow> ns_env ns
                   | Some s \<Rightarrow> foldl (\<lambda>e u. upd_undo u (\<lambda>r. r\<lparr>un_set := None\<rparr>) e) (ns_env ns) (ss_undos s)),
        ns_heap := (ns_heap ns)(a := None)\<rparr>"

definition set_create :: "int \<Rightarrow> nat option \<Rightarrow> int \<Rightarrow> errno + (nat \<times> semset)" where
  "set_create nsems mem now =
     (if nsems \<le> 0 \<or> nsems > int SEMMSL then Inl EINVAL
      else case mem of
        None \<Rightarrow> Inl ENOMEM
      | Some a \<Rightarrow>
          Inr (a, \<lparr>io_key = 0, io_id = 0, io_uid = 0, io_gid = 0, io_cuid = 0, io_cgid = 0, io_mode = 0,
                   io_seq = 0, io_dead = False, io_refs = 0,
                   ss_sem = replicate (nat nsems) \<lparr>sm_val = 0, sm_pid = 0, sm_ncnt = 0, sm_zcnt = 0\<rparr>,
                   ss_otime = 0, ss_ctime = now, ss_wq = waitq_empty, ss_undos = []\<rparr>))"

definition set_check :: "int \<Rightarrow> semset \<Rightarrow> errno option" where
  "set_check nsems s = (if nsems > int (length (ss_sem s)) then Some EINVAL else None)"

definition sys_semget ::
  "u64 \<Rightarrow> u64 \<Rightarrow> u64 \<Rightarrow> ipc_task option \<Rightarrow> nat option \<Rightarrow> int \<Rightarrow> sem_ns \<Rightarrow> int result \<times> sem_ns" where
  "sys_semget key nsems flags me mem now ns =
     (if sint nsems < 0 \<or> unat nsems > SEMMSL then (Inl EINVAL, ns)
      else ipc_get set_destroy (set_create (uint nsems) mem now) (set_check (uint nsems))
             (sint (ucast key :: u32)) (ucast flags) me ns)"

section \<open>Undo records\<close>

text \<open>The record of the process for the set at \<open>a\<close>, created if there is none.\<close>

definition undo_for :: "nat \<Rightarrow> nat \<Rightarrow> nat option \<Rightarrow> sem_ns \<Rightarrow> nat option \<times> sem_ns" where
  "undo_for a leader mem ns =
     (case List.find (\<lambda>u. map_option un_set (se_undo (ns_env ns) u) = Some (Some a)) (se_chain (ns_env ns) leader) of
        Some u \<Rightarrow> (Some u, ns)
      | None \<Rightarrow>
          (case mem of
             None \<Rightarrow> (None, ns)
           | Some u \<Rightarrow>
               let n = length (ss_sem (the (ns_heap ns a)));
                   e = ns_env ns
               in (Some u, upd_obj a (\<lambda>s. s\<lparr>ss_undos := u # ss_undos s\<rparr>) ns
                     \<lparr>ns_env := e\<lparr>se_undo := (se_undo e)(u := Some \<lparr>un_set = Some a, un_adj = replicate n 0\<rparr>),
                                  se_chain := (se_chain e)(leader := u # se_chain e leader)\<rparr>\<rparr>)))"

text \<open>\<open>num < 0\<close> clears the adjustments of all semaphores.\<close>

definition clear_adj :: "int \<Rightarrow> sem_undo \<Rightarrow> sem_undo" where
  "clear_adj num r =
     (if num < 0 then r\<lparr>un_adj := replicate (length (un_adj r)) 0\<rparr>
      else if num < int (length (un_adj r)) then r\<lparr>un_adj := (un_adj r)[nat num := 0]\<rparr>
      else r)"

definition clear_undo :: "semset \<Rightarrow> int \<Rightarrow> sem_env \<Rightarrow> sem_env" where
  "clear_undo s num e = foldl (\<lambda>e u. upd_undo u (clear_adj num) e) e (ss_undos s)"

section \<open>Operations\<close>

text \<open>The first loop: the values the operations lead to, or the first one that must wait, or overflow.\<close>

datatype plan = Plan "nat \<Rightarrow> int" | Wait nat | Overflow

fun plan_ops :: "nat \<Rightarrow> k_sembuf list \<Rightarrow> (nat \<Rightarrow> int) \<Rightarrow> plan" where
  "plan_ops i [] tmp = Plan tmp"
| "plan_ops i (p # ops) tmp =
     (let num = sb_num p; opn = sb_op p; v = tmp num in
      if opn > 0 then
        (if v + opn > SEMVMX then Overflow else plan_ops (i + 1) ops (tmp(num := v + opn)))
      else if opn = 0 then
        (if v \<noteq> 0 then Wait i else plan_ops (i + 1) ops tmp)
      else
        (if v + opn < 0 then Wait i else plan_ops (i + 1) ops (tmp(num := v + opn))))"

definition wants_undo :: "k_sembuf \<Rightarrow> bool" where
  "wants_undo p \<longleftrightarrow> sb_flg p AND SEM_UNDO \<noteq> 0 \<and> sb_op p \<noteq> 0"

text \<open>The last loop: the values are stored, and the adjustments of the undo record \<open>u\<close> lowered.\<close>

definition commit_op :: "ipc_task \<Rightarrow> (nat \<Rightarrow> int) \<Rightarrow> nat \<Rightarrow> nat \<Rightarrow> k_sembuf \<Rightarrow> sem_ns \<Rightarrow> sem_ns" where
  "commit_op me tmp a u p ns =
     (let num = sb_num p;
          ns1 = upd_obj a (\<lambda>s. s\<lparr>ss_sem := (ss_sem s)[num := (ss_sem s ! num)\<lparr>sm_val := tmp num, sm_pid := t_tgid me\<rparr>]\<rparr>) ns
      in if wants_undo p
         then ns1\<lparr>ns_env := upd_undo u (\<lambda>r. r\<lparr>un_adj := (un_adj r)[num := un_adj r ! num - of_int (sb_op p)]\<rparr>) (ns_env ns1)\<rparr>
         else ns1)"

datatype tried = Failed errno | Blocked nat | Committed

definition try_ops ::
  "nat \<Rightarrow> k_sembuf list \<Rightarrow> ipc_task \<Rightarrow> nat option \<Rightarrow> int \<Rightarrow> sem_ns \<Rightarrow> tried \<times> sem_ns" where
  "try_ops a ops me mem now ns =
     (case plan_ops 0 ops (\<lambda>n. sm_val (ss_sem (the (ns_heap ns a)) ! n)) of
        Overflow \<Rightarrow> (Failed ERANGE, ns)
      | Wait i \<Rightarrow> (Blocked i, ns)
      | Plan tmp \<Rightarrow>
          (case (if list_ex wants_undo ops then undo_for a (t_leader me) mem ns else (Some 0, ns)) of
             (None, ns1) \<Rightarrow> (Failed ENOMEM, ns1)
           | (Some u, ns1) \<Rightarrow>
               (Committed,
                upd_obj a (\<lambda>s. s\<lparr>ss_otime := now, ss_wq := woken (ss_wq s)\<rparr>)
                  (foldl (\<lambda>ns p. commit_op me tmp a u p ns) ns1 ops))))"

text \<open>
  Before the loop: the operations are copied in and the deadline computed, from the seconds and
  nanoseconds the user gives (\<open>Some None\<close>: a time-out that cannot be read).
\<close>

definition semop_prepare ::
  "nat \<Rightarrow> bool \<Rightarrow> k_sembuf list option \<Rightarrow> (int \<times> int) option option \<Rightarrow> u64 \<Rightarrow> (k_sembuf list \<times> u64) result" where
  "semop_prepare nsops mem_ok uops uts now_ns =
     (if nsops = 0 \<or> nsops > SEMOPM then Inl EINVAL
      else if \<not> mem_ok then Inl ENOMEM
      else case uops of
        None \<Rightarrow> Inl EFAULT
      | Some ops \<Rightarrow>
          (case uts of
             None \<Rightarrow> Inr (ops, 0)
           | Some None \<Rightarrow> Inl EFAULT
           | Some (Some (sec, nsec)) \<Rightarrow>
               if sec < 0 \<or> nsec < 0 \<or> nsec \<ge> 1000000000 then Inl EINVAL
               else Inr (ops, now_ns + of_int sec * 1000000000 + of_int nsec)))"

definition bump :: "nat \<Rightarrow> bool \<Rightarrow> int \<Rightarrow> semset \<Rightarrow> semset" where
  "bump num zero d s =
     s\<lparr>ss_sem := (ss_sem s)[num := (if zero then (ss_sem s ! num)\<lparr>sm_zcnt := sm_zcnt (ss_sem s ! num) + d\<rparr>
                                     else (ss_sem s ! num)\<lparr>sm_ncnt := sm_ncnt (ss_sem s ! num) + d\<rparr>)]\<rparr>"

text \<open>A turn ends the call, or it sleeps: on a set, for a semaphore, to become zero or to grow.\<close>

datatype sem_turn = SemReturn "unit result" | SemSleep nat nat bool

definition semop_try ::
  "ipc_task \<Rightarrow> int \<Rightarrow> k_sembuf list \<Rightarrow> bool \<Rightarrow> bool \<Rightarrow> nat option \<Rightarrow> int \<Rightarrow> sem_ns \<Rightarrow> sem_turn \<times> sem_ns" where
  "semop_try me i ops expired interrupted mem now ns =
     (case ipc_lookup_locked ns i of
        None \<Rightarrow> (SemReturn (Inl EINVAL), ns)
      | Some a \<Rightarrow>
          let s = the (ns_heap ns a) in
          if list_ex (\<lambda>p. sb_num p \<ge> length (ss_sem s)) ops then (SemReturn (Inl EFBIG), ns)
          else if \<not> ipc_perm_ok s me (if list_ex (\<lambda>p. sb_op p \<noteq> 0) ops then IPC_W else IPC_R)
          then (SemReturn (Inl EACCES), ns)
          else
            (case try_ops a ops me mem now ns of
               (Failed e, ns1) \<Rightarrow> (SemReturn (Inl e), ns1)
             | (Committed, ns1) \<Rightarrow> (SemReturn ok, ns1)
             | (Blocked k, ns1) \<Rightarrow>
                 if sb_flg (ops ! k) AND SEM_NOWAIT \<noteq> 0 then (SemReturn (Inl EAGAIN), ns1)
                 else if expired then (SemReturn (Inl EAGAIN), ns1)
                 else if interrupted then (SemReturn (Inl EINTR), ns1)
                 else (SemSleep a (sb_num (ops ! k)) (sb_op (ops ! k) = 0),
                       upd_obj a (\<lambda>s. s\<lparr>ss_wq := snd (waitq_add (t_task me) (ss_wq s))\<rparr>)
                         (ipc_hold a (upd_obj a (bump (sb_num (ops ! k)) (sb_op (ops ! k) = 0) 1) ns1)))))"

text \<open>After the sleep; the first result tells whether the set is gone.\<close>

definition semop_unqueue :: "ipc_task \<Rightarrow> nat \<Rightarrow> sem_ns \<Rightarrow> sem_ns" where
  "semop_unqueue me a ns = upd_obj a (\<lambda>s. s\<lparr>ss_wq := waitq_del (t_task me) (ss_wq s)\<rparr>) ns"

definition semop_resume :: "nat \<Rightarrow> nat \<Rightarrow> bool \<Rightarrow> sem_ns \<Rightarrow> bool \<times> sem_ns" where
  "semop_resume a num zero ns =
     (let gone = (case ns_heap ns a of Some s \<Rightarrow> io_dead s | None \<Rightarrow> False);
          ns1 = (if gone then ns else upd_obj a (bump num zero (- 1)) ns)
      in (gone, ipc_put_locked set_destroy a ns1))"

section \<open>Control\<close>

datatype sem_cmd =
    GETPID | GETVAL | GETALL | GETNCNT | GETZCNT | SETVAL | SETALL | SEM_SET | SEM_STAT | SEM_RMID | SEM_OTHER

definition decode_cmd :: "u64 \<Rightarrow> sem_cmd" where
  "decode_cmd cmd0 =
     (let cmd = cmd0 AND NOT 0x100 in
      if cmd = 11 then GETPID else if cmd = 12 then GETVAL else if cmd = 13 then GETALL
      else if cmd = 14 then GETNCNT else if cmd = 15 then GETZCNT else if cmd = 16 then SETVAL
      else if cmd = 17 then SETALL else if cmd = 0 then SEM_RMID else if cmd = 1 then SEM_SET
      else if cmd = 2 then SEM_STAT else SEM_OTHER)"

record semid_ds =
  sd_perm :: ipc_perm_user
  sd_otime :: int
  sd_ctime :: int
  sd_nsems :: nat

datatype sem_out = NoOut | OutVals "u16 list" | OutDs semid_ds

text \<open>
  \<open>uds\<close> and \<open>uvals\<close> are what the copies from the user deliver for \<open>IPC_SET\<close> and \<open>SETALL\<close>; the value
  array is read between two critical sections, of which the first only looks up the set.
\<close>

definition semctl_locked ::
  "ipc_task \<Rightarrow> int \<Rightarrow> nat \<Rightarrow> sem_cmd \<Rightarrow> int \<Rightarrow> semid_ds option \<Rightarrow> u16 list \<Rightarrow> int \<Rightarrow> sem_ns \<Rightarrow>
   int result \<times> sem_out \<times> sem_ns" where
  "semctl_locked me i num cmd arg uds vals now ns =
     (case ipc_lookup_locked ns i of
        None \<Rightarrow> (Inl EINVAL, NoOut, ns)
      | Some a \<Rightarrow>
          let s = the (ns_heap ns a); k = ss_sem s ! num in
          if cmd \<in> {GETPID, GETVAL, GETNCNT, GETZCNT, SETVAL} \<and> num \<ge> length (ss_sem s)
          then (Inl EINVAL, NoOut, ns)
          else
            (case cmd of
               SETVAL \<Rightarrow>
                 if \<not> ipc_perm_ok s me IPC_W then (Inl EACCES, NoOut, ns)
                 else if arg < 0 \<or> arg > SEMVMX then (Inl ERANGE, NoOut, ns)
                 else (Inr 0, NoOut,
                       (set_obj a (s\<lparr>ss_sem := (ss_sem s)[num := k\<lparr>sm_val := arg, sm_pid := t_tgid me\<rparr>],
                                     ss_ctime := now, ss_wq := woken (ss_wq s)\<rparr>) ns)
                         \<lparr>ns_env := clear_undo s (int num) (ns_env ns)\<rparr>)
             | SETALL \<Rightarrow>
                 if \<not> ipc_perm_ok s me IPC_W then (Inl EACCES, NoOut, ns)
                 else if list_ex (\<lambda>j. uint (vals ! j) > SEMVMX) [0..<length (ss_sem s)] then (Inl ERANGE, NoOut, ns)
                 else (Inr 0, NoOut,
                       (set_obj a (s\<lparr>ss_sem := map (\<lambda>j. (ss_sem s ! j)\<lparr>sm_val := uint (vals ! j), sm_pid := t_tgid me\<rparr>)
                                                 [0..<length (ss_sem s)],
                                     ss_ctime := now, ss_wq := woken (ss_wq s)\<rparr>) ns)
                         \<lparr>ns_env := clear_undo s (- 1) (ns_env ns)\<rparr>)
             | SEM_SET \<Rightarrow>
                 if \<not> ipc_owner_ok s me then (Inl EPERM, NoOut, ns)
                 else (Inr 0, NoOut, set_obj a ((ipc_set_perm (sd_perm (the uds)) s)\<lparr>ss_ctime := now\<rparr>) ns)
             | SEM_RMID \<Rightarrow>
                 if \<not> ipc_owner_ok s me then (Inl EPERM, NoOut, ns)
                 else (Inr 0, NoOut,
                       ipc_remove_locked set_destroy a (upd_obj a (\<lambda>s. s\<lparr>ss_wq := woken (ss_wq s)\<rparr>) ns))
             | SEM_OTHER \<Rightarrow> (Inl EINVAL, NoOut, ns)
             | _ \<Rightarrow>
                 if \<not> ipc_perm_ok s me IPC_R then (Inl EACCES, NoOut, ns)
                 else
                   (case cmd of
                      GETPID \<Rightarrow> (Inr (uint (sm_pid k)), NoOut, ns)
                    | GETVAL \<Rightarrow> (Inr (sm_val k), NoOut, ns)
                    | GETNCNT \<Rightarrow> (Inr (sm_ncnt k), NoOut, ns)
                    | GETZCNT \<Rightarrow> (Inr (sm_zcnt k), NoOut, ns)
                    | GETALL \<Rightarrow> (Inr 0, OutVals (map (\<lambda>m. of_int (sm_val m)) (ss_sem s)), ns)
                    | _ \<Rightarrow> (Inr 0, OutDs \<lparr>sd_perm = ipc_fill_perm s, sd_otime = ss_otime s,
                                          sd_ctime = ss_ctime s, sd_nsems = length (ss_sem s)\<rparr>, ns))))"

text \<open>\<open>sys_semctl\<close> around it: the copies in and out, \<open>copy_ok\<close> being whether the last one succeeds.\<close>

definition sys_semctl ::
  "ipc_task option \<Rightarrow> int \<Rightarrow> nat \<Rightarrow> u64 \<Rightarrow> int \<Rightarrow> semid_ds option \<Rightarrow> u16 list option \<Rightarrow> bool \<Rightarrow> int \<Rightarrow> sem_ns \<Rightarrow>
   int result \<times> sem_out \<times> sem_ns" where
  "sys_semctl cur i num cmd0 arg uds uvals copy_ok now ns =
     (case cur of
        None \<Rightarrow> (Inl ESRCH, NoOut, ns)
      | Some me \<Rightarrow>
          let cmd = decode_cmd cmd0 in
          if cmd = SEM_SET \<and> uds = None then (Inl EFAULT, NoOut, ns)
          else if cmd = SETALL \<and> ipc_lookup_locked ns i = None then (Inl EINVAL, NoOut, ns)
          else if cmd = SETALL \<and> uvals = None then (Inl EFAULT, NoOut, ns)
          else
            (case semctl_locked me i num cmd arg uds (case uvals of Some v \<Rightarrow> v | None \<Rightarrow> []) now ns of
               (r, res, ns') \<Rightarrow>
                 if res \<noteq> NoOut \<and> \<not> copy_ok then (Inl EFAULT, NoOut, ns') else (r, res, ns')))"

section \<open>Process exit\<close>

definition clamp_sem :: "int \<Rightarrow> int" where
  "clamp_sem v = (if v < 0 then 0 else if v > SEMVMX then SEMVMX else v)"

definition apply_undo :: "u32 \<Rightarrow> 16 word list \<Rightarrow> semset \<Rightarrow> semset" where
  "apply_undo pid adj s =
     s\<lparr>ss_sem := map (\<lambda>j. if j < length adj
                          then (ss_sem s ! j)\<lparr>sm_val := clamp_sem (sm_val (ss_sem s ! j) + sint (adj ! j)),
                                              sm_pid := (if adj ! j \<noteq> 0 then pid else sm_pid (ss_sem s ! j))\<rparr>
                          else ss_sem s ! j)
                      [0..<length (ss_sem s)]\<rparr>"

definition exit_undo :: "u32 \<Rightarrow> sem_ns \<Rightarrow> nat \<Rightarrow> sem_ns" where
  "exit_undo pid ns u =
     (case se_undo (ns_env ns) u of
        None \<Rightarrow> ns
      | Some r \<Rightarrow>
          let ns1 = (case un_set r of
                       None \<Rightarrow> ns
                     | Some a \<Rightarrow>
                         upd_obj a (\<lambda>s. (apply_undo pid (un_adj r) s)
                                          \<lparr>ss_undos := remove1 u (ss_undos s), ss_wq := woken (ss_wq s)\<rparr>) ns)
          in ns1\<lparr>ns_env := (ns_env ns1)\<lparr>se_undo := (se_undo (ns_env ns1))(u := None)\<rparr>\<rparr>)"

definition sem_exit_group :: "nat \<Rightarrow> u32 \<Rightarrow> sem_ns \<Rightarrow> sem_ns" where
  "sem_exit_group leader pid ns =
     foldl (exit_undo pid)
       (ns\<lparr>ns_env := (ns_env ns)\<lparr>se_chain := (se_chain (ns_env ns))(leader := [])\<rparr>\<rparr>)
       (se_chain (ns_env ns) leader)"

end
