(* ===== verification/Semset_Correct.thy ===== *)
theory Semset_Correct
  imports Semset
begin

text \<open>
  The invariant of the semaphore sets under arbitrary interleaving of the system calls and of process
  exits: values stay in range, undo records and sets point to each other consistently, and the
  numbers of waiting processes that \<^verbatim>\<open>semctl\<close> reports are exact.
\<close>

section \<open>Interleaved calls\<close>

record sem_call =
  sc_task :: ipc_task
  sc_id :: int
  sc_ops :: "k_sembuf list"

text \<open>A sleeper: the call, the set it holds, the semaphore, and whether it waits for zero.\<close>

type_synonym sem_sleeper = "sem_call \<times> nat \<times> nat \<times> bool"

definition sem_sleeper_of :: "sem_call \<Rightarrow> sem_turn \<Rightarrow> sem_sleeper list" where
  "sem_sleeper_of c t = (case t of SemReturn r \<Rightarrow> [] | SemSleep a num zero \<Rightarrow> [(c, a, num, zero)])"

definition held_set :: "sem_sleeper \<Rightarrow> nat" where
  "held_set w = fst (snd w)"

text \<open>The memory for a set or an undo record is fresh.\<close>

definition fresh_undo :: "nat option \<Rightarrow> sem_ns \<Rightarrow> bool" where
  "fresh_undo mem ns \<longleftrightarrow> (\<forall>u. mem = Some u \<longrightarrow> se_undo (ns_env ns) u = None)"

inductive sem_run :: "sem_ns \<times> sem_sleeper list \<Rightarrow> bool" where
  start: "sem_run (sem_ns_init, [])"
| create: "sem_run (ns, ws) \<Longrightarrow> (\<And>a. mem = Some a \<Longrightarrow> ns_heap ns a = None) \<Longrightarrow>
    sem_run (snd (ipc_create_install set_destroy (set_create n mem now) (set_check n) key flags me ns), ws)"
| semop: "sem_run (ns, ws) \<Longrightarrow> fresh_undo mem ns \<Longrightarrow>
    semop_try (sc_task c) (sc_id c) (sc_ops c) expired intr mem now ns = (t, ns') \<Longrightarrow>
    sem_run (ns', sem_sleeper_of c t @ ws)"
| unqueue: "sem_run (ns, ws) \<Longrightarrow> sem_run (semop_unqueue me a ns, ws)"
| gone: "sem_run (ns, xs @ (c, a, num, zero) # ys) \<Longrightarrow> semop_resume a num zero ns = (True, ns') \<Longrightarrow>
    sem_run (ns', xs @ ys)"
| retry: "sem_run (ns, xs @ (c, a, num, zero) # ys) \<Longrightarrow> semop_resume a num zero ns = (False, ns1) \<Longrightarrow>
    fresh_undo mem ns1 \<Longrightarrow>
    semop_try (sc_task c) (sc_id c) (sc_ops c) expired intr mem now ns1 = (t, ns') \<Longrightarrow>
    sem_run (ns', sem_sleeper_of c t @ xs @ ys)"
| ctl: "sem_run (ns, ws) \<Longrightarrow> (\<And>a s. ns_heap ns a = Some s \<Longrightarrow> length (ss_sem s) \<le> length vals) \<Longrightarrow>
    semctl_locked me i num cmd arg uds vals now ns = (r, res, ns') \<Longrightarrow> sem_run (ns', ws)"
| exit: "sem_run (ns, ws) \<Longrightarrow> sem_run (sem_exit_group leader pid ns, ws)"

section \<open>Invariant\<close>

definition set_ok :: "semset \<Rightarrow> bool" where
  "set_ok s \<longleftrightarrow> 0 < length (ss_sem s) \<and> length (ss_sem s) \<le> SEMMSL \<and> distinct (ss_undos s) \<and>
     (\<forall>k\<in>set (ss_sem s). 0 \<le> sm_val k \<and> sm_val k \<le> SEMVMX)"

definition points :: "sem_env \<Rightarrow> nat \<Rightarrow> nat \<Rightarrow> bool" where
  "points e u a \<longleftrightarrow> (\<exists>r. se_undo e u = Some r \<and> un_set r = Some a)"

definition undo_ok :: "(nat \<Rightarrow> semset option) \<Rightarrow> sem_env \<Rightarrow> bool" where
  "undo_ok h e \<longleftrightarrow>
     (\<forall>a s u. h a = Some s \<longrightarrow> (u \<in> set (ss_undos s) \<longleftrightarrow> points e u a)) \<and>
     (\<forall>u r a. se_undo e u = Some r \<longrightarrow> un_set r = Some a \<longrightarrow>
        (\<exists>s. h a = Some s \<and> length (un_adj r) = length (ss_sem s)))"

definition chains_ok :: "sem_env \<Rightarrow> bool" where
  "chains_ok e \<longleftrightarrow> (\<forall>l. distinct (se_chain e l) \<and> (\<forall>u\<in>set (se_chain e l). se_undo e u \<noteq> None)) \<and>
     (\<forall>l m. l \<noteq> m \<longrightarrow> set (se_chain e l) \<inter> set (se_chain e m) = {})"

definition waits_ok :: "(nat \<Rightarrow> semset option) \<Rightarrow> sem_sleeper list \<Rightarrow> bool" where
  "waits_ok h ws \<longleftrightarrow>
     (\<forall>a s. h a = Some s \<longrightarrow> \<not> io_dead s \<longrightarrow> (\<forall>n<length (ss_sem s).
        sm_ncnt (ss_sem s ! n) = int (count_list (map snd ws) (a, n, False)) \<and>
        sm_zcnt (ss_sem s ! n) = int (count_list (map snd ws) (a, n, True))))"

definition sem_inv :: "sem_ns \<times> sem_sleeper list \<Rightarrow> bool" where
  "sem_inv z \<longleftrightarrow>
     (case z of (ns, ws) \<Rightarrow>
        ns_ok ns (map held_set ws) \<and> (\<forall>a s. ns_heap ns a = Some s \<longrightarrow> set_ok s) \<and>
        undo_ok (ns_heap ns) (ns_env ns) \<and> chains_ok (ns_env ns) \<and> waits_ok (ns_heap ns) ws)"

lemma sem_invD:
  assumes "sem_inv (ns, ws)"
  shows "ns_ok ns (map held_set ws)" "\<And>a s. ns_heap ns a = Some s \<Longrightarrow> set_ok s"
    "undo_ok (ns_heap ns) (ns_env ns)" "chains_ok (ns_env ns)" "waits_ok (ns_heap ns) ws"
  using assms by (auto simp: sem_inv_def)

lemma sem_invI:
  assumes "ns_ok ns (map held_set ws)" "\<And>a s. ns_heap ns a = Some s \<Longrightarrow> set_ok s"
    "undo_ok (ns_heap ns) (ns_env ns)" "chains_ok (ns_env ns)" "waits_ok (ns_heap ns) ws"
  shows "sem_inv (ns, ws)"
  using assms by (simp add: sem_inv_def)

section \<open>Undo records\<close>

lemma undo_okI:
  assumes "\<And>a s u. h a = Some s \<Longrightarrow> u \<in> set (ss_undos s) \<longleftrightarrow> points e u a"
    and "\<And>u r a. se_undo e u = Some r \<Longrightarrow> un_set r = Some a \<Longrightarrow>
      \<exists>s. h a = Some s \<and> length (un_adj r) = length (ss_sem s)"
  shows "undo_ok h e"
  using assms by (simp add: undo_ok_def)

lemma undo_okD:
  assumes "undo_ok h e"
  shows "\<And>a s u. h a = Some s \<Longrightarrow> u \<in> set (ss_undos s) \<longleftrightarrow> points e u a"
    and "\<And>u r a. se_undo e u = Some r \<Longrightarrow> un_set r = Some a \<Longrightarrow>
      \<exists>s. h a = Some s \<and> length (un_adj r) = length (ss_sem s)"
  using assms by (simp_all add: undo_ok_def)

text \<open>Updates of a set that keep its undo chain and its number of semaphores.\<close>

lemma undo_ok_set:
  assumes uo: "undo_ok h e" and s: "h a = Some s" "ss_undos s' = ss_undos s" "length (ss_sem s') = length (ss_sem s)"
  shows "undo_ok (h(a := Some s')) e"
proof (rule undo_okI)
  show "u \<in> set (ss_undos x) \<longleftrightarrow> points e u b" if "(h(a := Some s')) b = Some x" for b x u
    using that undo_okD(1) [OF uo, of b] s by (cases "b = a") auto
  show "\<exists>x. (h(a := Some s')) b = Some x \<and> length (un_adj r) = length (ss_sem x)"
    if "se_undo e u = Some r" "un_set r = Some b" for u r b
    using undo_okD(2) [OF uo that] s by (cases "b = a") auto
qed

text \<open>Updates of a record that keep its set and its size.\<close>

lemma undo_ok_upd:
  assumes uo: "undo_ok h e" and f: "\<And>r. un_set (f r) = un_set r \<and> length (un_adj (f r)) = length (un_adj r)"
  shows "undo_ok h (upd_undo u f e)"
proof (rule undo_okI)
  have "points (upd_undo u f e) v b = points e v b" for v b
    using f by (auto simp: points_def upd_undo_def)
  then show "v \<in> set (ss_undos s) \<longleftrightarrow> points (upd_undo u f e) v b" if "h b = Some s" for b s v
    using undo_okD(1) [OF uo that] by simp
  show "\<exists>s. h b = Some s \<and> length (un_adj r) = length (ss_sem s)"
    if r: "se_undo (upd_undo u f e) v = Some r" "un_set r = Some b" for v r b
  proof -
    obtain r' where "se_undo e v = Some r'" "un_set r' = un_set r" "length (un_adj r') = length (un_adj r)"
      using r(1) f by (cases "v = u") (auto simp: upd_undo_def)
    then show ?thesis using undo_okD(2) [OF uo, of v r' b] r(2) by simp
  qed
qed

lemma chains_ok_upd: "chains_ok e \<Longrightarrow> chains_ok (upd_undo u f e)"
  by (auto simp: chains_ok_def upd_undo_def)

lemma undo_ok_fold:
  assumes "undo_ok h e" "\<And>r. un_set (f r) = un_set r \<and> length (un_adj (f r)) = length (un_adj r)"
  shows "undo_ok h (foldl (\<lambda>e u. upd_undo u f e) e us)"
  using assms by (induction us arbitrary: e) (simp_all add: undo_ok_upd)

lemma chains_ok_fold: "chains_ok e \<Longrightarrow> chains_ok (foldl (\<lambda>e u. upd_undo u f e) e us)"
  by (induction us arbitrary: e) (simp_all add: chains_ok_upd)

lemma clear_adj_shape: "un_set (clear_adj n r) = un_set r \<and> length (un_adj (clear_adj n r)) = length (un_adj r)"
  by (simp add: clear_adj_def)

lemma fold_unset:
  assumes "distinct us"
  shows "se_undo (foldl (\<lambda>e u. upd_undo u (\<lambda>r. r\<lparr>un_set := None\<rparr>) e) e us) v =
    (if v \<in> set us then map_option (\<lambda>r. r\<lparr>un_set := None\<rparr>) (se_undo e v) else se_undo e v)"
  using assms by (induction us arbitrary: e) (auto simp: upd_undo_def)

lemma undo_ok_destroy:
  assumes uo: "undo_ok h e" and s: "h a = Some s" "distinct (ss_undos s)"
  shows "undo_ok (h(a := None)) (foldl (\<lambda>e u. upd_undo u (\<lambda>r. r\<lparr>un_set := None\<rparr>) e) e (ss_undos s))"
    (is "undo_ok _ ?e")
proof (rule undo_okI)
  note u = undo_okD(1) [OF uo s(1)]
  have p: "points ?e v b \<longleftrightarrow> points e v b \<and> v \<notin> set (ss_undos s)" for v b
    by (auto simp: points_def fold_unset [OF s(2)])
  show "v \<in> set (ss_undos x) \<longleftrightarrow> points ?e v b" if "(h(a := None)) b = Some x" for b x v
  proof -
    have b: "b \<noteq> a" "h b = Some x" using that by (auto split: if_splits)
    have "points e v b \<Longrightarrow> \<not> points e v a" using b(1) by (auto simp: points_def)
    then show ?thesis using undo_okD(1) [OF uo b(2)] u p by blast
  qed
  show "\<exists>x. (h(a := None)) b = Some x \<and> length (un_adj r) = length (ss_sem x)"
    if r: "se_undo ?e v = Some r" "un_set r = Some b" for v r b
  proof -
    have v: "v \<notin> set (ss_undos s)" "se_undo e v = Some r"
      using r by (auto simp: fold_unset [OF s(2)] split: if_splits)
    then have "b \<noteq> a" using u [of v] r(2) by (auto simp: points_def)
    with undo_okD(2) [OF uo v(2) r(2)] show ?thesis by auto
  qed
qed

interpretation sem: ipc_kind set_destroy
  by unfold_locales (simp_all add: set_destroy_def)

section \<open>Updating a set\<close>

definition same_shape :: "semset \<Rightarrow> semset \<Rightarrow> bool" where
  "same_shape s' s \<longleftrightarrow> io_key s' = io_key s \<and> io_id s' = io_id s \<and> io_dead s' = io_dead s \<and> io_refs s' = io_refs s \<and>
     ss_undos s' = ss_undos s \<and> length (ss_sem s') = length (ss_sem s) \<and>
     (\<forall>n<length (ss_sem s). sm_ncnt (ss_sem s' ! n) = sm_ncnt (ss_sem s ! n) \<and> sm_zcnt (ss_sem s' ! n) = sm_zcnt (ss_sem s ! n))"

lemma waits_ok_set:
  assumes "waits_ok h ws" "h a = Some s" "io_dead s' = io_dead s" "length (ss_sem s') = length (ss_sem s)"
    and "\<And>n. n < length (ss_sem s) \<Longrightarrow>
      sm_ncnt (ss_sem s' ! n) = sm_ncnt (ss_sem s ! n) \<and> sm_zcnt (ss_sem s' ! n) = sm_zcnt (ss_sem s ! n)"
  shows "waits_ok (h(a := Some s')) ws"
  using assms by (auto simp: waits_ok_def)

lemma sem_inv_set:
  assumes inv: "sem_inv (ns, ws)" and s: "ns_heap ns a = Some s" and sh: "same_shape s' s" and ok: "set_ok s'"
  shows "sem_inv (set_obj a s' ns, ws)"
proof (rule sem_invI)
  show "ns_ok (set_obj a s' ns) (map held_set ws)"
    using sh by (intro modify_ok [OF sem_invD(1) [OF inv] s]) (auto simp: same_shape_def)
  show "ns_heap (set_obj a s' ns) b = Some x \<Longrightarrow> set_ok x" for b x
    using sem_invD(2) [OF inv] ok by (auto split: if_splits)
  show "undo_ok (ns_heap (set_obj a s' ns)) (ns_env (set_obj a s' ns))"
    using undo_ok_set [OF sem_invD(3) [OF inv] s] sh by (simp add: same_shape_def)
  show "waits_ok (ns_heap (set_obj a s' ns)) ws"
    using waits_ok_set [OF sem_invD(5) [OF inv] s] sh by (simp add: same_shape_def)
qed (simp add: sem_invD(4) [OF inv])

lemma sem_inv_upd:
  assumes inv: "sem_inv (ns, ws)" and f: "\<And>s. ns_heap ns a = Some s \<Longrightarrow> same_shape (f s) s \<and> set_ok (f s)"
  shows "sem_inv (upd_obj a f ns, ws)"
proof (cases "ns_heap ns a")
  case (Some s)
  with f [OF Some] show ?thesis using sem_inv_set [OF inv Some, of "f s"] by (simp add: upd_obj_def)
qed (simp add: upd_obj_def inv)

lemma sem_inv_env:
  assumes inv: "sem_inv (ns, ws)" and "undo_ok (ns_heap ns) e" "chains_ok e"
  shows "sem_inv (ns\<lparr>ns_env := e\<rparr>, ws)"
  using assms sem_invD [OF inv]
  by (intro sem_invI) (auto intro: ns_ok_cong)

lemma sem_inv_heap: "sem_inv (ns, ws) \<Longrightarrow> ns_slot ns' = ns_slot ns \<Longrightarrow> ns_heap ns' = ns_heap ns \<Longrightarrow>
    ns_env ns' = ns_env ns \<Longrightarrow> sem_inv (ns', ws)"
  using sem_invD [of ns ws] by (intro sem_invI) (auto intro: ns_ok_cong)

section \<open>Operations\<close>

lemma plan_ops_Cons:
  assumes "plan_ops i (p # ops) tmp = Plan t"
  shows "plan_ops (i + 1) ops (tmp(sb_num p := tmp (sb_num p) + sb_op p)) = Plan t \<and>
    (0 \<le> tmp (sb_num p) \<and> tmp (sb_num p) \<le> SEMVMX \<longrightarrow>
       0 \<le> tmp (sb_num p) + sb_op p \<and> tmp (sb_num p) + sb_op p \<le> SEMVMX)"
proof (cases "sb_op p = 0")
  case True
  then show ?thesis using assms by (simp add: Let_def split: if_splits)
next
  case False
  then show ?thesis using assms by (simp add: Let_def split: if_splits)
qed

lemma plan_ops_range:
  assumes "plan_ops i ops tmp = Plan t" "\<And>n. n < len \<Longrightarrow> 0 \<le> tmp n \<and> tmp n \<le> SEMVMX"
    and "\<forall>p\<in>set ops. sb_num p < len" "n < len"
  shows "0 \<le> t n \<and> t n \<le> SEMVMX"
  using assms
proof (induction ops arbitrary: i tmp)
  case (Cons p ops)
  note c = plan_ops_Cons [OF Cons.prems(1)]
  have r: "0 \<le> tmp (sb_num p) + sb_op p \<and> tmp (sb_num p) + sb_op p \<le> SEMVMX"
    using c Cons.prems(2) [of "sb_num p"] Cons.prems(3) by simp
  show ?case
  proof (rule Cons.IH [OF conjunct1 [OF c]])
    show "0 \<le> (tmp(sb_num p := tmp (sb_num p) + sb_op p)) m \<and>
        (tmp(sb_num p := tmp (sb_num p) + sb_op p)) m \<le> SEMVMX" if "m < len" for m
      using r Cons.prems(2) [OF that] by (cases "m = sb_num p") auto
  qed (use Cons.prems in auto)
qed simp

lemma plan_ops_other:
  "plan_ops i ops tmp = Plan t \<Longrightarrow> \<forall>p\<in>set ops. sb_num p \<noteq> n \<Longrightarrow> t n = tmp n"
proof (induction ops arbitrary: i tmp)
  case (Cons p ops)
  from Cons.IH [OF conjunct1 [OF plan_ops_Cons [OF Cons.prems(1)]]] Cons.prems(2) show ?case by simp
qed simp

text \<open>What a committed operation does to a set.\<close>

definition store_val :: "ipc_task \<Rightarrow> (nat \<Rightarrow> int) \<Rightarrow> nat \<Rightarrow> semset \<Rightarrow> semset" where
  "store_val me tmp n s = s\<lparr>ss_sem := (ss_sem s)[n := (ss_sem s ! n)\<lparr>sm_val := tmp n, sm_pid := t_tgid me\<rparr>]\<rparr>"

lemma store_val_shape:
  assumes "set_ok s" "n < length (ss_sem s)" "0 \<le> tmp n" "tmp n \<le> SEMVMX"
  shows "same_shape (store_val me tmp n s) s" "set_ok (store_val me tmp n s)"
proof -
  show "same_shape (store_val me tmp n s) s"
    using assms(2) by (auto simp: same_shape_def store_val_def nth_list_update)
  have "set ((ss_sem s)[n := x]) \<subseteq> insert x (set (ss_sem s))" for x by (rule set_update_subset_insert)
  with assms show "set_ok (store_val me tmp n s)"
    by (fastforce simp: set_ok_def store_val_def)
qed

lemma commit_op_alt:
  "commit_op me tmp a u p ns =
     (let ns1 = upd_obj a (store_val me tmp (sb_num p)) ns in
      if wants_undo p
      then ns1\<lparr>ns_env := upd_undo u (\<lambda>r. r\<lparr>un_adj := (un_adj r)[sb_num p := un_adj r ! sb_num p - of_int (sb_op p)]\<rparr>) (ns_env ns1)\<rparr>
      else ns1)"
  by (simp add: commit_op_def store_val_def [abs_def] Let_def)

lemma commit_op_heap:
  "ns_heap (commit_op me tmp a u p ns) = (ns_heap ns)(a := map_option (store_val me tmp (sb_num p)) (ns_heap ns a))"
  by (simp add: commit_op_alt Let_def)

lemma commit_op_inv:
  assumes inv: "sem_inv (ns, ws)" and s: "ns_heap ns a = Some s" and n: "sb_num p < length (ss_sem s)"
    and r: "0 \<le> tmp (sb_num p)" "tmp (sb_num p) \<le> SEMVMX"
  shows "sem_inv (commit_op me tmp a u p ns, ws)"
proof -
  have up: "sem_inv (upd_obj a (store_val me tmp (sb_num p)) ns, ws)"
    using store_val_shape [where tmp = tmp and me = me, OF sem_invD(2) [OF inv s] n r] s
    by (intro sem_inv_upd [OF inv]) auto
  let ?ns = "upd_obj a (store_val me tmp (sb_num p)) ns"
  have "sem_inv (?ns\<lparr>ns_env := upd_undo u (\<lambda>r. r\<lparr>un_adj := (un_adj r)[sb_num p := un_adj r ! sb_num p - of_int (sb_op p)]\<rparr>) (ns_env ?ns)\<rparr>, ws)"
    using sem_invD(3,4) [OF up] by (intro sem_inv_env [OF up] undo_ok_upd chains_ok_upd) auto
  with up show ?thesis by (simp add: commit_op_alt Let_def)
qed

lemma commit_fold:
  assumes "sem_inv (ns, ws)" "ns_heap ns a = Some s"
    and "\<forall>p\<in>set ops. sb_num p < length (ss_sem s) \<and> 0 \<le> tmp (sb_num p) \<and> tmp (sb_num p) \<le> SEMVMX"
  shows "sem_inv (foldl (\<lambda>ns p. commit_op me tmp a u p ns) ns ops, ws) \<and>
    (\<exists>s'. ns_heap (foldl (\<lambda>ns p. commit_op me tmp a u p ns) ns ops) = (ns_heap ns)(a := Some s') \<and>
      io_id s' = io_id s \<and> io_dead s' = io_dead s \<and> length (ss_sem s') = length (ss_sem s) \<and>
      (\<forall>n<length (ss_sem s). sm_val (ss_sem s' ! n) = (if n \<in> sb_num ` set ops then tmp n else sm_val (ss_sem s ! n))))"
  using assms
proof (induction ops arbitrary: ns s)
  case Nil
  then have "ns_heap ns = (ns_heap ns)(a := Some s)" by (simp add: fun_upd_idem)
  with Nil show ?case by (metis empty_iff empty_set foldl_Nil image_empty)
next
  case (Cons p ops)
  let ?ns = "commit_op me tmp a u p ns" and ?s = "store_val me tmp (sb_num p) s"
  have inv: "sem_inv (?ns, ws)" using Cons.prems by (intro commit_op_inv) auto
  have h: "ns_heap ?ns = (ns_heap ns)(a := Some ?s)" using Cons.prems(2) by (simp add: commit_op_heap)
  have sh: "io_id ?s = io_id s" "io_dead ?s = io_dead s" "length (ss_sem ?s) = length (ss_sem s)"
    by (simp_all add: store_val_def)
  have v: "sm_val (ss_sem ?s ! n) = (if n = sb_num p then tmp n else sm_val (ss_sem s ! n))" if "n < length (ss_sem s)" for n
    using that by (simp add: store_val_def nth_list_update)
  let ?ns' = "foldl (\<lambda>ns p. commit_op me tmp a u p ns) ?ns ops"
  have hs: "ns_heap ?ns a = Some ?s" by (simp add: h)
  have "\<forall>p\<in>set ops. sb_num p < length (ss_sem ?s) \<and> 0 \<le> tmp (sb_num p) \<and> tmp (sb_num p) \<le> SEMVMX"
    using Cons.prems(3) sh(3) by simp
  from Cons.IH [OF inv hs this] obtain s' where
    s': "sem_inv (?ns', ws)" "ns_heap ?ns' = (ns_heap ?ns)(a := Some s')" "io_id s' = io_id ?s" "io_dead s' = io_dead ?s"
      "length (ss_sem s') = length (ss_sem ?s)"
      "\<forall>n<length (ss_sem ?s). sm_val (ss_sem s' ! n) = (if n \<in> sb_num ` set ops then tmp n else sm_val (ss_sem ?s ! n))"
    by blast
  have "ns_heap ?ns' = (ns_heap ns)(a := Some s')" using s'(2) by (simp only: h fun_upd_upd)
  moreover have "\<forall>n<length (ss_sem s). sm_val (ss_sem s' ! n) =
      (if n \<in> sb_num ` set (p # ops) then tmp n else sm_val (ss_sem s ! n))"
    using s'(6) v sh(3) by auto
  ultimately show ?case using s' sh by (intro conjI exI [of _ s']) simp_all
qed

lemma undo_ok_new:
  assumes uo: "undo_ok h e" and s: "h a = Some s" and new: "se_undo e u = None"
    and e': "se_undo e' = (se_undo e)(u := Some \<lparr>un_set = Some a, un_adj = replicate (length (ss_sem s)) 0\<rparr>)"
  shows "undo_ok (h(a := Some (s\<lparr>ss_undos := u # ss_undos s\<rparr>))) e'"
proof (rule undo_okI)
  have p: "points e' v b \<longleftrightarrow> (if v = u then b = a else points e v b)" for v b
    by (auto simp: points_def e')
  have np: "\<not> points e u b" for b using new by (simp add: points_def)
  show "v \<in> set (ss_undos x) \<longleftrightarrow> points e' v b"
    if "(h(a := Some (s\<lparr>ss_undos := u # ss_undos s\<rparr>))) b = Some x" for b x v
    using that undo_okD(1) [OF uo] s p [of v b] np [of b] by (cases "b = a") auto
  show "\<exists>x. (h(a := Some (s\<lparr>ss_undos := u # ss_undos s\<rparr>))) b = Some x \<and> length (un_adj r) = length (ss_sem x)"
    if "se_undo e' v = Some r" "un_set r = Some b" for v r b
    using that undo_okD(2) [OF uo, of v r b] s by (cases "v = u"; cases "b = a") (auto simp: e')
qed

lemma undo_for_inv:
  assumes inv: "sem_inv (ns, ws)" and s: "ns_heap ns a = Some s" and fr: "fresh_undo mem ns"
    and uf: "undo_for a leader mem ns = (r, ns1)"
  shows "sem_inv (ns1, ws)" "\<exists>us. ns_heap ns1 = (ns_heap ns)(a := Some (s\<lparr>ss_undos := us\<rparr>))"
    and "r = None \<Longrightarrow> ns1 = ns"
proof -
  note d = sem_invD [OF inv]
  have same: "ns_heap ns = (ns_heap ns)(a := Some (s\<lparr>ss_undos := ss_undos s\<rparr>))" using s by (simp add: fun_upd_idem)
  consider "ns1 = ns" | u where "mem = Some u" "r = Some u" "ns_slot ns1 = ns_slot ns"
      "ns_heap ns1 = (ns_heap ns)(a := Some (s\<lparr>ss_undos := u # ss_undos s\<rparr>))"
      "se_undo (ns_env ns1) = (se_undo (ns_env ns))(u := Some \<lparr>un_set = Some a, un_adj = replicate (length (ss_sem s)) 0\<rparr>)"
      "se_chain (ns_env ns1) = (se_chain (ns_env ns))(leader := u # se_chain (ns_env ns) leader)"
    using uf s by (auto simp: undo_for_def Let_def split: option.splits)
  note c = this
  show "\<exists>us. ns_heap ns1 = (ns_heap ns)(a := Some (s\<lparr>ss_undos := us\<rparr>))"
    using c same by metis
  show "r = None \<Longrightarrow> ns1 = ns" using c by auto
  show "sem_inv (ns1, ws)"
    using c
  proof cases
    case 1
    with inv show ?thesis by simp
  next
    case (2 u)
    have new: "se_undo (ns_env ns) u = None" using fr 2(1) by (simp add: fresh_undo_def)
    let ?s = "s\<lparr>ss_undos := u # ss_undos s\<rparr>"
    have "u \<notin> set (ss_undos s)" using undo_okD(1) [OF d(3) s] new by (simp add: points_def)
    then have so: "set_ok ?s" using d(2) [OF s] by (simp add: set_ok_def)
    have ok: "ns_ok ns1 (map held_set ws)"
      by (rule ns_ok_cong [OF modify_ok [OF d(1) s, of ?s]]) (simp_all add: 2)
    show ?thesis
    proof (rule sem_invI [OF ok])
      show "set_ok x" if "ns_heap ns1 b = Some x" for b x
        using that d(2) [of b x] so 2(4) by (cases "b = a") simp_all
      show "undo_ok (ns_heap ns1) (ns_env ns1)" unfolding 2(4) by (rule undo_ok_new [OF d(3) s new 2(5)])
      have "u \<notin> set (se_chain (ns_env ns) l)" for l
        using d(4) new unfolding chains_ok_def by blast
      then show "chains_ok (ns_env ns1)" using d(4) by (auto simp: chains_ok_def 2(5,6))
      show "waits_ok (ns_heap ns1) ws" unfolding 2(4) by (rule waits_ok_set [OF d(5) s]) simp_all
    qed
  qed
qed

text \<open>A whole array of operations: all of them or none.\<close>

lemma try_ops_inv:
  assumes inv: "sem_inv (ns, ws)" and s: "ns_heap ns a = Some s" and fr: "fresh_undo mem ns"
    and nums: "\<forall>p\<in>set ops. sb_num p < length (ss_sem s)" and t: "try_ops a ops me mem now ns = (t, ns')"
  shows "sem_inv (ns', ws) \<and>
    (\<exists>s'. ns_heap ns' = (ns_heap ns)(a := Some s') \<and> io_id s' = io_id s \<and> io_dead s' = io_dead s \<and>
       length (ss_sem s') = length (ss_sem s) \<and>
       (if t = Committed
        then (\<exists>v. plan_ops 0 ops (\<lambda>n. sm_val (ss_sem s ! n)) = Plan v \<and> (\<forall>n<length (ss_sem s). sm_val (ss_sem s' ! n) = v n))
        else ns' = ns \<and> s' = s))"
proof (cases "plan_ops 0 ops (\<lambda>n. sm_val (ss_sem s ! n))")
  case (Plan v)
  obtain r ns1 where r: "(if list_ex wants_undo ops then undo_for a (t_leader me) mem ns else (Some 0, ns)) = (r, ns1)"
    by (meson surj_pair)
  have u: "sem_inv (ns1, ws)" "\<exists>us. ns_heap ns1 = (ns_heap ns)(a := Some (s\<lparr>ss_undos := us\<rparr>))" "r = None \<Longrightarrow> ns1 = ns"
  proof (atomize (full), cases "list_ex wants_undo ops")
    case True
    then show "sem_inv (ns1, ws) \<and> (\<exists>us. ns_heap ns1 = (ns_heap ns)(a := Some (s\<lparr>ss_undos := us\<rparr>))) \<and> (r = None \<longrightarrow> ns1 = ns)"
      using undo_for_inv [OF inv s fr, of "t_leader me" r ns1] r by auto
  next
    case False
    have "\<exists>us. ns_heap ns = (ns_heap ns)(a := Some (s\<lparr>ss_undos := us\<rparr>))"
      using s by (intro exI [of _ "ss_undos s"]) (simp add: fun_upd_idem)
    with False r inv show "sem_inv (ns1, ws) \<and> (\<exists>us. ns_heap ns1 = (ns_heap ns)(a := Some (s\<lparr>ss_undos := us\<rparr>))) \<and> (r = None \<longrightarrow> ns1 = ns)"
      by simp
  qed
  then obtain us where us: "ns_heap ns1 = (ns_heap ns)(a := Some (s\<lparr>ss_undos := us\<rparr>))" by blast
  let ?s1 = "s\<lparr>ss_undos := us\<rparr>"
  show ?thesis
  proof (cases r)
    case None
    have "ns_heap ns = (ns_heap ns)(a := Some s)" using s by (simp add: fun_upd_idem)
    moreover have "t = Failed ENOMEM" "ns' = ns"
      using t Plan s r None u(3) by (auto simp: try_ops_def)
    ultimately show ?thesis using inv by auto
  next
    case (Some w)
    have range: "0 \<le> v n \<and> v n \<le> SEMVMX" if "n < length (ss_sem s)" for n
      using plan_ops_range [OF Plan _ nums that] sem_invD(2) [OF inv s] by (auto simp: set_ok_def)
    let ?f = "foldl (\<lambda>ns p. commit_op me v a w p ns) ns1 ops"
    have h1: "ns_heap ns1 a = Some ?s1" by (simp add: us)
    have pre: "\<forall>p\<in>set ops. sb_num p < length (ss_sem ?s1) \<and> 0 \<le> v (sb_num p) \<and> v (sb_num p) \<le> SEMVMX"
      using nums range by simp
    from commit_fold [OF u(1) h1 pre, of me w] obtain s2 where
      s2: "sem_inv (?f, ws)" "ns_heap ?f = (ns_heap ns1)(a := Some s2)" "io_id s2 = io_id ?s1" "io_dead s2 = io_dead ?s1"
        "length (ss_sem s2) = length (ss_sem ?s1)"
        "\<forall>n<length (ss_sem ?s1). sm_val (ss_sem s2 ! n) = (if n \<in> sb_num ` set ops then v n else sm_val (ss_sem ?s1 ! n))"
      by blast
    let ?g = "\<lambda>s. s\<lparr>ss_otime := now, ss_wq := woken (ss_wq s)\<rparr> :: semset"
    have ns': "t = Committed" "ns' = upd_obj a ?g ?f" using t Plan s r Some by (simp_all add: try_ops_def)
    have "sem_inv (ns', ws)"
      unfolding ns' using sem_invD(2) [OF s2(1)] by (intro sem_inv_upd [OF s2(1)]) (auto simp: same_shape_def set_ok_def)
    moreover have "ns_heap ns' = (ns_heap ns)(a := Some (?g s2))" unfolding ns' by (simp add: s2(2) us)
    moreover have "\<forall>n<length (ss_sem s). sm_val (ss_sem (?g s2) ! n) = v n"
    proof (intro allI impI)
      fix n assume "n < length (ss_sem s)"
      then show "sm_val (ss_sem (?g s2) ! n) = v n"
        using s2(6) plan_ops_other [OF Plan, of n] by (cases "n \<in> sb_num ` set ops") fastforce+
    qed
    ultimately show ?thesis using ns'(1) s2(3,4,5) Plan by (intro conjI exI [of _ "?g s2"]) simp_all
  qed
qed (use t s inv in \<open>auto simp: try_ops_def fun_upd_idem intro!: exI [of _ s]\<close>)

section \<open>Sleeping and waking\<close>

lemma bump_simps [simp]:
  "length (ss_sem (bump n z d s)) = length (ss_sem s)" "ss_undos (bump n z d s) = ss_undos s"
  "io_key (bump n z d s) = io_key s" "io_id (bump n z d s) = io_id s" "io_dead (bump n z d s) = io_dead s"
  "io_refs (bump n z d s) = io_refs s"
  by (simp_all add: bump_def)

lemma bump_nth:
  "m < length (ss_sem s) \<Longrightarrow>
   sm_val (ss_sem (bump n z d s) ! m) = sm_val (ss_sem s ! m) \<and>
   sm_ncnt (ss_sem (bump n z d s) ! m) = sm_ncnt (ss_sem s ! m) + (if m = n \<and> \<not> z then d else 0) \<and>
   sm_zcnt (ss_sem (bump n z d s) ! m) = sm_zcnt (ss_sem s ! m) + (if m = n \<and> z then d else 0)"
  by (cases "m = n") (auto simp: bump_def)

lemma bump_set_ok: "set_ok s \<Longrightarrow> set_ok (bump n z d s)"
proof -
  assume ok: "set_ok s"
  have "0 \<le> sm_val (ss_sem (bump n z d s) ! m) \<and> sm_val (ss_sem (bump n z d s) ! m) \<le> SEMVMX"
    if "m < length (ss_sem s)" for m
    using ok bump_nth [OF that, of n z d] that by (simp add: set_ok_def)
  then show ?thesis using ok by (auto simp: set_ok_def in_set_conv_nth)
qed

lemma sem_sleep_inv:
  assumes inv: "sem_inv (ns, ws)" and s: "ns_heap ns a = Some s"
  shows "sem_inv (ipc_hold a (upd_obj a (bump n z 1) ns), (c, a, n, z) # ws)" (is "sem_inv (?ns, ?ws)")
proof (rule sem_invI)
  note d = sem_invD [OF inv]
  let ?b = "bump n z 1 s"
  have eq: "upd_obj a (bump n z 1) ns = set_obj a ?b ns" by (simp add: upd_obj_def s)
  have ok: "ns_ok (set_obj a ?b ns) (map held_set ws)" by (rule modify_ok [OF d(1) s]) simp_all
  show "ns_ok ?ns (map held_set ?ws)"
    using hold_ok [OF ok, of a ?b] by (simp add: eq held_set_def)
  let ?s = "?b\<lparr>io_refs := io_refs ?b + 1\<rparr>"
  have h: "ns_heap ?ns = (ns_heap ns)(a := Some ?s)" by (simp add: ipc_hold_def s)
  have e: "ns_env ?ns = ns_env ns" by (simp add: ipc_hold_def)
  have so: "set_ok ?s" using bump_set_ok [OF d(2) [OF s]] by (simp add: set_ok_def)
  show "set_ok x" if "ns_heap ?ns b = Some x" for b x
    using that d(2) [of b x] so by (cases "b = a") (simp_all add: h)
  show "undo_ok (ns_heap ?ns) (ns_env ?ns)" unfolding h e by (rule undo_ok_set [OF d(3) s]) simp_all
  show "chains_ok (ns_env ?ns)" unfolding e by (rule d(4))
  show "waits_ok (ns_heap ?ns) ?ws"
    unfolding waits_ok_def
  proof (intro allI impI)
    fix b x m assume x: "ns_heap ?ns b = Some x" "\<not> io_dead x" "m < length (ss_sem x)"
    show "sm_ncnt (ss_sem x ! m) = int (count_list (map snd ?ws) (b, m, False)) \<and>
        sm_zcnt (ss_sem x ! m) = int (count_list (map snd ?ws) (b, m, True))"
    proof (cases "b = a")
      case True
      with x have "x = ?s" "\<not> io_dead s" "m < length (ss_sem s)" by (auto simp: h)
      with d(5) s bump_nth [of m s n z 1] True show ?thesis by (auto simp: waits_ok_def)
    next
      case False
      with x d(5) show ?thesis by (auto simp: waits_ok_def h)
    qed
  qed
qed

text \<open>Dropping the reference of a sleeper.\<close>

lemma put_heap_sem:
  assumes "ns_heap ns a = Some s"
  shows "ns_heap (ipc_put_locked set_destroy a ns) =
    (ns_heap ns)(a := (if io_refs s = 1 \<and> io_dead s then None else Some (s\<lparr>io_refs := io_refs s - 1\<rparr>)))"
    and "ns_env (ipc_put_locked set_destroy a ns) =
      (if io_refs s = 1 \<and> io_dead s
       then foldl (\<lambda>e u. upd_undo u (\<lambda>r. r\<lparr>un_set := None\<rparr>) e) (ns_env ns) (ss_undos s) else ns_env ns)"
  using assms by (auto simp: ipc_put_locked_def Let_def set_destroy_def)

lemma semop_resume_inv:
  assumes inv: "sem_inv (ns, xs @ (c, a, n, z) # ys)" and r: "semop_resume a n z ns = (g, ns')"
  shows "sem_inv (ns', xs @ ys)"
proof -
  note d = sem_invD [OF inv]
  have "a \<in> set (map held_set (xs @ (c, a, n, z) # ys))" by (simp add: held_set_def)
  then obtain s where s: "ns_heap ns a = Some s" using ns_okD(3) [OF d(1)] by blast
  define s1 where "s1 = (if io_dead s then s else bump n z (- 1) s)"
  define ns1 where "ns1 = (if io_dead s then ns else upd_obj a (bump n z (- 1)) ns)"
  have ns1: "ns_heap ns1 = (ns_heap ns)(a := Some s1)" "ns_env ns1 = ns_env ns" "ns_heap ns1 a = Some s1"
    using s by (auto simp: ns1_def s1_def fun_upd_idem)
  have ns': "ns' = ipc_put_locked set_destroy a ns1" using r s by (auto simp: semop_resume_def ns1_def Let_def)
  have sh: "io_dead s1 = io_dead s" "ss_undos s1 = ss_undos s" "length (ss_sem s1) = length (ss_sem s)" "io_id s1 = io_id s"
    "io_key s1 = io_key s" "io_refs s1 = io_refs s"
    by (simp_all add: s1_def)
  have so: "set_ok s1" using d(2) [OF s] bump_set_ok by (simp add: s1_def)
  have uo: "undo_ok (ns_heap ns1) (ns_env ns)" unfolding ns1 by (rule undo_ok_set [OF d(3) s]) (simp_all add: sh)
  have ok1: "ns_ok ns1 (map held_set (xs @ (c, a, n, z) # ys))"
    using d(1) modify_ok [OF d(1) s, of "bump n z (- 1) s"] s by (auto simp: ns1_def upd_obj_def)
  let ?del = "io_refs s1 = 1 \<and> io_dead s1"
  note ph = put_heap_sem [OF ns1(3)]
  show ?thesis
  proof (rule sem_invI)
    show "ns_ok ns' (map held_set (xs @ ys))"
      using sem.put_ok_middle [of ns1 "map held_set xs" a "map held_set ys"] ok1 by (simp add: ns' held_set_def)
    show "set_ok x" if "ns_heap ns' b = Some x" for b x
      using that so d(2) [of b x] by (cases "b = a") (auto simp: ns' ph ns1(1) set_ok_def split: if_splits)
    show "undo_ok (ns_heap ns') (ns_env ns')"
    proof (cases ?del)
      case True
      have "undo_ok ((ns_heap ns1)(a := None)) (foldl (\<lambda>e u. upd_undo u (\<lambda>r. r\<lparr>un_set := None\<rparr>) e) (ns_env ns) (ss_undos s1))"
        using so by (intro undo_ok_destroy [OF uo ns1(3)]) (simp add: set_ok_def)
      with True show ?thesis by (simp add: ns' ph ns1(2))
    next
      case False
      have "undo_ok ((ns_heap ns1)(a := Some (s1\<lparr>io_refs := io_refs s1 - 1\<rparr>))) (ns_env ns)"
        by (rule undo_ok_set [OF uo ns1(3)]) simp_all
      with False show ?thesis by (auto simp: ns' ph ns1(2))
    qed
    show "chains_ok (ns_env ns')" using d(4) by (simp add: ns' ph ns1(2) chains_ok_fold)
    show "waits_ok (ns_heap ns') (xs @ ys)"
      unfolding waits_ok_def
    proof (intro allI impI)
      fix b x m assume x: "ns_heap ns' b = Some x" "\<not> io_dead x" "m < length (ss_sem x)"
      have cm: "count_list (map snd (xs @ (c, a, n, z) # ys)) y = count_list (map snd (xs @ ys)) y + (if (a, n, z) = y then 1 else 0)" for y
        by simp
      show "sm_ncnt (ss_sem x ! m) = int (count_list (map snd (xs @ ys)) (b, m, False)) \<and>
          sm_zcnt (ss_sem x ! m) = int (count_list (map snd (xs @ ys)) (b, m, True))"
      proof (cases "b = a")
        case True
        with x have xx: "x = s1\<lparr>io_refs := io_refs s1 - 1\<rparr>" "\<not> io_dead s" "m < length (ss_sem s)"
          using sh by (auto simp: ns' ph split: if_splits)
        then have "sm_ncnt (ss_sem s ! m) = int (count_list (map snd (xs @ (c, a, n, z) # ys)) (a, m, False))"
          "sm_zcnt (ss_sem s ! m) = int (count_list (map snd (xs @ (c, a, n, z) # ys)) (a, m, True))"
          using d(5) s unfolding waits_ok_def by blast+
        with bump_nth [OF xx(3), of n z "- 1"] xx(1,2) True show ?thesis by (auto simp: s1_def cm)
      next
        case False
        with x d(5) show ?thesis unfolding waits_ok_def by (auto simp: ns' ph ns1(1) cm)
      qed
    qed
  qed
qed

lemma sem_lookup:
  assumes "ipc_lookup_locked ns i = Some a"
  obtains s where "ns_heap ns a = Some s" "\<not> io_dead s" "io_id s = i"
  using lookup_SomeD [OF assms] by blast

lemma semop_try_inv:
  assumes inv: "sem_inv (ns, ws)" and fr: "fresh_undo mem ns"
    and t: "semop_try (sc_task c) (sc_id c) (sc_ops c) expired intr mem now ns = (t, ns')"
  shows "sem_inv (ns', sem_sleeper_of c t @ ws)"
proof (cases "ipc_lookup_locked ns (sc_id c)")
  case None
  with t inv show ?thesis by (auto simp: semop_try_def sem_sleeper_of_def)
next
  case (Some a)
  then obtain s where s: "ns_heap ns a = Some s" by (rule sem_lookup)
  obtain r ns1 where r: "try_ops a (sc_ops c) (sc_task c) mem now ns = (r, ns1)" by (meson surj_pair)
  show ?thesis
  proof (cases "\<forall>p\<in>set (sc_ops c). sb_num p < length (ss_sem s)")
    case False
    then have "list_ex (\<lambda>p. sb_num p \<ge> length (ss_sem s)) (sc_ops c)" by (auto simp: list_ex_iff not_less)
    with t s Some inv show ?thesis by (auto simp: semop_try_def sem_sleeper_of_def)
  next
    case True
    then have le: "\<not> list_ex (\<lambda>p. sb_num p \<ge> length (ss_sem s)) (sc_ops c)" by (auto simp: list_ex_iff)
    from try_ops_inv [OF inv s fr True r] obtain s1 where i1: "sem_inv (ns1, ws)" and s1: "ns_heap ns1 a = Some s1"
      by auto
    have sl: "sem_inv (upd_obj a (\<lambda>s. s\<lparr>ss_wq := w s\<rparr>) (ipc_hold a (upd_obj a (bump n z 1) ns1)), (c, a, n, z) # ws)" for w n z
    proof -
      have i2: "sem_inv (ipc_hold a (upd_obj a (bump n z 1) ns1), (c, a, n, z) # ws)" (is "sem_inv (?n2, _)")
        by (rule sem_sleep_inv [OF i1 s1])
      show ?thesis
        by (rule sem_inv_upd [OF i2]) (use sem_invD(2) [OF i2] in \<open>auto simp: same_shape_def set_ok_def\<close>)
    qed
    show ?thesis using t s Some le r i1 sl inv
      by (auto simp: semop_try_def sem_sleeper_of_def split: if_splits tried.splits)
  qed
qed

section \<open>Creation, removal, control, exit\<close>

lemma install_sem:
  assumes new: "ns_heap ns a = None" and u: "ss_undos q = []" and c: "created = Inr (a, q)"
    and r: "ns' = snd (ipc_create_install set_destroy created check key flags me ns)"
  shows "ns_env ns' = ns_env ns"
    and "ns_heap ns' = ns_heap ns \<or>
      (\<exists>x. ns_heap ns' = (ns_heap ns)(a := Some x) \<and> ss_sem x = ss_sem q \<and> ss_undos x = [])"
  unfolding r ipc_create_install_def c using new u
  by (auto simp: ipc_get_install_def Let_def set_destroy_def ipc_fresh_def fun_upd_idem
      split: option.splits if_splits)

lemma undo_ok_add:
  assumes uo: "undo_ok h e" and "h a = None" "ss_undos x = []"
  shows "undo_ok (h(a := Some x)) e"
proof (rule undo_okI)
  have np: "\<not> points e u a" for u using undo_okD(2) [OF uo, of u _ a] assms(2) by (auto simp: points_def)
  show "u \<in> set (ss_undos s) \<longleftrightarrow> points e u b" if "(h(a := Some x)) b = Some s" for b s u
    using that np undo_okD(1) [OF uo, of b s u] assms(3) by (cases "b = a") auto
  show "\<exists>s. (h(a := Some x)) b = Some s \<and> length (un_adj r) = length (ss_sem s)"
    if "se_undo e u = Some r" "un_set r = Some b" for u r b
    using undo_okD(2) [OF uo that] assms(2) by auto
qed

lemma sem_create_inv:
  assumes inv: "sem_inv (ns, ws)" and fresh: "\<And>a. mem = Some a \<Longrightarrow> ns_heap ns a = None"
  shows "sem_inv (snd (ipc_create_install set_destroy (set_create n mem now) check key flags me ns), ws)"
    (is "sem_inv (?ns, ws)")
proof (cases "set_create n mem now")
  case (Inl e)
  with inv show ?thesis by (simp add: ipc_create_install_def)
next
  case (Inr aq)
  note d = sem_invD [OF inv]
  obtain a q where aq: "aq = (a, q)" by (cases aq)
  have q: "mem = Some a" "ss_undos q = []" "0 < n" "n \<le> int SEMMSL"
      "ss_sem q = replicate (nat n) \<lparr>sm_val = 0, sm_pid = 0, sm_ncnt = 0, sm_zcnt = 0\<rparr>"
    using Inr by (auto simp: aq set_create_def split: if_splits option.splits)
  note new = fresh [OF q(1)]
  note i = install_sem [OF new q(2), of "set_create n mem now" ?ns check key flags me, unfolded Inr aq, OF refl refl, folded aq Inr]
  have ok: "ns_ok ?ns (map held_set ws)"
    using new aq Inr by (intro sem.create_install_ok [OF d(1)]) auto
  from i(2) show ?thesis
  proof (elim disjE exE conjE)
    assume "ns_heap ?ns = ns_heap ns"
    with ok d i(1) show ?thesis by (intro sem_invI) simp_all
  next
    fix x assume x: "ns_heap ?ns = (ns_heap ns)(a := Some x)" "ss_sem x = ss_sem q" "ss_undos x = []"
    show ?thesis
    proof (rule sem_invI [OF ok])
      show "set_ok y" if "ns_heap ?ns b = Some y" for b y
        using that d(2) [of b y] x q by (cases "b = a") (auto simp: set_ok_def SEMVMX_def)
      show "undo_ok (ns_heap ?ns) (ns_env ?ns)" unfolding x i(1) by (rule undo_ok_add [OF d(3) new x(3)])
      have "a \<notin> set (map held_set ws)" using ns_okD(3) [OF d(1)] new by blast
      then have "count_list (map snd ws) (a, m, z) = 0" for m z by (force simp: count_list_0_iff held_set_def)
      with d(5) show "waits_ok (ns_heap ?ns) ws" unfolding x by (auto simp: waits_ok_def x(2) q(5))
    qed (simp add: i(1) d(4))
  qed
qed

lemma remove_sem:
  assumes "ns_heap ns a = Some s" "ns_slot ns ! slot_of (io_id s) = Some a"
  shows "ns_heap (ipc_remove_locked set_destroy a ns) =
      (ns_heap ns)(a := (if io_refs s = 0 then None else Some (s\<lparr>io_dead := True\<rparr>)))"
    and "ns_env (ipc_remove_locked set_destroy a ns) =
      (if io_refs s = 0 then foldl (\<lambda>e u. upd_undo u (\<lambda>r. r\<lparr>un_set := None\<rparr>) e) (ns_env ns) (ss_undos s) else ns_env ns)"
  using assms by (auto simp: ipc_remove_locked_def Let_def set_destroy_def)

lemma sem_remove_inv:
  assumes inv: "sem_inv (ns, ws)" and s: "ns_heap ns a = Some s" "\<not> io_dead s"
  shows "sem_inv (ipc_remove_locked set_destroy a ns, ws)" (is "sem_inv (?ns, ws)")
proof (rule sem_invI)
  note d = sem_invD [OF inv]
  have "ns_slot ns ! slot_of (io_id s) = Some a" using ns_ok_obj [OF d(1) s(1)] s(2) by (simp add: obj_ok_def)
  note r = remove_sem [OF s(1) this]
  show "ns_ok ?ns (map held_set ws)" by (rule sem.remove_ok [OF d(1) s])
  show "set_ok x" if "ns_heap ?ns b = Some x" for b x
    using that d(2) [of b x] d(2) [OF s(1)] by (cases "b = a") (auto simp: r set_ok_def split: if_splits)
  show "undo_ok (ns_heap ?ns) (ns_env ?ns)"
  proof (cases "io_refs s = 0")
    case True
    then show ?thesis using undo_ok_destroy [OF d(3) s(1)] d(2) [OF s(1)] by (simp add: r set_ok_def)
  next
    case False
    then show ?thesis using undo_ok_set [OF d(3) s(1), of "s\<lparr>io_dead := True\<rparr>"] by (simp add: r)
  qed
  show "chains_ok (ns_env ?ns)" using d(4) by (simp add: r chains_ok_fold)
  show "waits_ok (ns_heap ?ns) ws" using d(5) by (auto simp: waits_ok_def r)
qed

lemma sem_inv_clear:
  assumes "sem_inv (ns, ws)"
  shows "sem_inv (ns\<lparr>ns_env := clear_undo s n (ns_env ns)\<rparr>, ws)"
  using sem_invD(3,4) [OF assms] unfolding clear_undo_def
  by (intro sem_inv_env [OF assms]) (auto intro: undo_ok_fold chains_ok_fold simp: clear_adj_shape)

lemma nth_update_counts:
  "n < length xs \<Longrightarrow> sm_ncnt (xs[i := (xs ! i)\<lparr>sm_val := v, sm_pid := q\<rparr>] ! n) = sm_ncnt (xs ! n)"
  "n < length xs \<Longrightarrow> sm_zcnt (xs[i := (xs ! i)\<lparr>sm_val := v, sm_pid := q\<rparr>] ! n) = sm_zcnt (xs ! n)"
  by (cases "n = i"; simp)+

lemma semctl_inv:
  assumes inv: "sem_inv (ns, ws)" and c: "semctl_locked me i num cmd arg uds vals now ns = (r, res, ns')"
  shows "sem_inv (ns', ws)"
proof (cases "ipc_lookup_locked ns i")
  case None
  with c inv show ?thesis by (auto simp: semctl_locked_def)
next
  case (Some a)
  then obtain s where s: "ns_heap ns a = Some s" "\<not> io_dead s" by (rule sem_lookup)
  note so = sem_invD(2) [OF inv s(1)]
  have set: "sem_inv ((set_obj a s' ns)\<lparr>ns_env := clear_undo s n (ns_env ns)\<rparr>, ws)"
    if "same_shape s' s" "set_ok s'" for s' n
    using sem_inv_clear [OF sem_inv_set [OF inv s(1) that], of s n] by (simp add: set_obj_def)
  have perm: "sem_inv (set_obj a ((ipc_set_perm p s)\<lparr>ss_ctime := now\<rparr>) ns, ws)" for p
    using so by (intro sem_inv_set [OF inv s(1)]) (auto simp: same_shape_def set_ok_def ipc_set_perm_def)
  let ?w = "\<lambda>s. s\<lparr>ss_wq := woken (ss_wq s)\<rparr> :: semset"
  have rm: "sem_inv (ipc_remove_locked set_destroy a (upd_obj a ?w ns), ws)"
  proof (rule sem_remove_inv)
    show "sem_inv (upd_obj a ?w ns, ws)"
      using sem_invD(2) [OF inv] by (intro sem_inv_upd [OF inv]) (auto simp: same_shape_def set_ok_def)
    show "ns_heap (upd_obj a ?w ns) a = Some (?w s)" using s by simp
  qed (use s in simp_all)
  have v1: "sem_inv ((set_obj a (s\<lparr>ss_sem := (ss_sem s)[num := (ss_sem s ! num)\<lparr>sm_val := arg, sm_pid := t_tgid me\<rparr>],
        ss_ctime := now, ss_wq := woken (ss_wq s)\<rparr>) ns)\<lparr>ns_env := clear_undo s (int num) (ns_env ns)\<rparr>, ws)"
    if "\<not> (arg < 0 \<or> arg > SEMVMX)"
    using so that by (intro set) (auto simp: same_shape_def set_ok_def nth_update_counts dest!: set_update_subset_insert [THEN subsetD])
  have v2: "sem_inv ((set_obj a (s\<lparr>ss_sem := map (\<lambda>j. (ss_sem s ! j)\<lparr>sm_val := uint (vals ! j), sm_pid := t_tgid me\<rparr>)
        [0..<length (ss_sem s)], ss_ctime := now, ss_wq := woken (ss_wq s)\<rparr>) ns)\<lparr>ns_env := clear_undo s (- 1) (ns_env ns)\<rparr>, ws)"
    if "\<not> list_ex (\<lambda>j. uint (vals ! j) > SEMVMX) [0..<length (ss_sem s)]"
    using so that by (intro set) (auto simp: same_shape_def set_ok_def list_ex_iff not_less)
  show ?thesis
    using c Some s inv perm rm v1 v2
    by (cases cmd) (simp_all add: semctl_locked_def Let_def split: if_splits, auto)
qed

lemma apply_undo_shape:
  "length (ss_sem (apply_undo pid adj s)) = length (ss_sem s)" "ss_undos (apply_undo pid adj s) = ss_undos s"
  "io_key (apply_undo pid adj s) = io_key s" "io_id (apply_undo pid adj s) = io_id s"
  "io_dead (apply_undo pid adj s) = io_dead s" "io_refs (apply_undo pid adj s) = io_refs s"
  by (simp_all add: apply_undo_def)

lemma apply_undo_nth:
  assumes "n < length (ss_sem s)"
  shows "sm_ncnt (ss_sem (apply_undo pid adj s) ! n) = sm_ncnt (ss_sem s ! n)"
    "sm_zcnt (ss_sem (apply_undo pid adj s) ! n) = sm_zcnt (ss_sem s ! n)"
    "sm_val (ss_sem (apply_undo pid adj s) ! n) =
      (if n < length adj then clamp_sem (sm_val (ss_sem s ! n) + sint (adj ! n)) else sm_val (ss_sem s ! n))"
  using assms by (simp_all add: apply_undo_def)

lemma clamp_range: "0 \<le> clamp_sem v \<and> clamp_sem v \<le> SEMVMX"
  by (simp add: clamp_sem_def SEMVMX_def)

lemma apply_undo_ok: "set_ok s \<Longrightarrow> \<forall>k\<in>set (ss_sem (apply_undo pid adj s)). 0 \<le> sm_val k \<and> sm_val k \<le> SEMVMX"
  by (auto simp: apply_undo_def set_ok_def clamp_range)

lemma exit_undo_inv:
  assumes inv: "sem_inv (ns, ws)" and u: "\<And>l. u \<notin> set (se_chain (ns_env ns) l)"
  shows "sem_inv (exit_undo pid ns u, ws)"
proof (cases "se_undo (ns_env ns) u")
  case None
  with inv show ?thesis by (simp add: exit_undo_def)
next
  case (Some r)
  note d = sem_invD [OF inv]
  let ?e = "(ns_env ns)\<lparr>se_undo := (se_undo (ns_env ns))(u := None)\<rparr>"
  have ch: "chains_ok ?e" using d(4) u by (auto simp: chains_ok_def)
  have pt: "points ?e v b \<longleftrightarrow> v \<noteq> u \<and> points (ns_env ns) v b" for v b by (simp add: points_def)
  show ?thesis
  proof (cases "un_set r")
    case None
    have "undo_ok (ns_heap ns) ?e"
    proof (rule undo_okI)
      show "v \<in> set (ss_undos s) \<longleftrightarrow> points ?e v b" if "ns_heap ns b = Some s" for b s v
        using undo_okD(1) [OF d(3) that] Some None pt [of v b] by (cases "v = u") (auto simp: points_def)
      show "\<exists>s. ns_heap ns b = Some s \<and> length (un_adj q) = length (ss_sem s)"
        if "se_undo ?e v = Some q" "un_set q = Some b" for v q b
        using undo_okD(2) [OF d(3), of v q b] that by (auto split: if_splits)
    qed
    then show ?thesis using Some None sem_inv_env [OF inv _ ch] by (simp add: exit_undo_def)
  next
    fix a assume a: "un_set r = Some a"
    then obtain s where s: "ns_heap ns a = Some s" "length (un_adj r) = length (ss_sem s)"
      using undo_okD(2) [OF d(3) Some] by blast
    let ?s = "(apply_undo pid (un_adj r) s)\<lparr>ss_undos := remove1 u (ss_undos s), ss_wq := woken (ss_wq s)\<rparr>"
    have so: "set_ok ?s" using d(2) [OF s(1)] apply_undo_ok [OF d(2) [OF s(1)]]
      by (simp add: set_ok_def apply_undo_shape)
    have uo: "undo_ok ((ns_heap ns)(a := Some ?s)) ?e"
    proof (rule undo_okI)
      have only: "b = a" if "points (ns_env ns) u b" for b using that Some a by (auto simp: points_def)
      show "v \<in> set (ss_undos x) \<longleftrightarrow> points ?e v b" if "((ns_heap ns)(a := Some ?s)) b = Some x" for b x v
        using that undo_okD(1) [OF d(3), of b] s(1) d(2) [OF s(1)] pt [of v b] only
        by (cases "b = a") (auto simp: set_ok_def)
      show "\<exists>x. ((ns_heap ns)(a := Some ?s)) b = Some x \<and> length (un_adj q) = length (ss_sem x)"
        if "se_undo ?e v = Some q" "un_set q = Some b" for v q b
        using undo_okD(2) [OF d(3), of v q b] that s(1) by (cases "b = a") (auto simp: apply_undo_shape split: if_splits)
    qed
    have eq: "exit_undo pid ns u = (set_obj a ?s ns)\<lparr>ns_env := ?e\<rparr>"
      using Some a s(1) by (simp add: exit_undo_def upd_obj_def set_obj_def)
    show ?thesis
    proof (rule sem_invI)
      have "ns_ok (set_obj a ?s ns) (map held_set ws)"
        by (rule modify_ok [OF d(1) s(1)]) (simp_all add: apply_undo_shape)
      then show "ns_ok (exit_undo pid ns u) (map held_set ws)" unfolding eq by (rule ns_ok_cong) simp_all
      show "set_ok x" if "ns_heap (exit_undo pid ns u) b = Some x" for b x
        using that d(2) [of b x] so by (cases "b = a") (simp_all add: eq)
      show "waits_ok (ns_heap (exit_undo pid ns u)) ws"
        using waits_ok_set [OF d(5) s(1), of ?s] by (simp add: eq apply_undo_shape apply_undo_nth)
    qed (use uo ch in \<open>simp_all add: eq\<close>)
  qed
qed

lemma exit_undo_chain [simp]: "se_chain (ns_env (exit_undo pid ns u)) = se_chain (ns_env ns)"
  by (simp add: exit_undo_def Let_def split: option.split)

lemma exit_fold_inv:
  "sem_inv (ns, ws) \<Longrightarrow> (\<And>u l. u \<in> set us \<Longrightarrow> u \<notin> set (se_chain (ns_env ns) l)) \<Longrightarrow>
   sem_inv (foldl (exit_undo pid) ns us, ws)"
proof (induction us arbitrary: ns)
  case (Cons u us)
  have "sem_inv (foldl (exit_undo pid) (exit_undo pid ns u) us, ws)"
    by (rule Cons.IH) (use Cons.prems in \<open>auto intro: exit_undo_inv\<close>)
  then show ?case by simp
qed simp

lemma sem_exit_inv:
  assumes inv: "sem_inv (ns, ws)"
  shows "sem_inv (sem_exit_group leader pid ns, ws)"
proof -
  note d = sem_invD [OF inv]
  let ?e = "(ns_env ns)\<lparr>se_chain := (se_chain (ns_env ns))(leader := [])\<rparr>"
  have "undo_ok (ns_heap ns) ?e" using d(3) by (simp add: undo_ok_def points_def)
  moreover have "chains_ok ?e" using d(4) by (auto simp: chains_ok_def)
  ultimately have i: "sem_inv (ns\<lparr>ns_env := ?e\<rparr>, ws)" by (rule sem_inv_env [OF inv])
  have "u \<notin> set (se_chain ?e l)" if "u \<in> set (se_chain (ns_env ns) leader)" for u l
    using d(4) that unfolding chains_ok_def by (cases "l = leader") (simp, fastforce)
  then show ?thesis unfolding sem_exit_group_def by (intro exit_fold_inv [OF i]) simp
qed

lemma sem_run_inv: "sem_run z \<Longrightarrow> sem_inv z"
proof (induction rule: sem_run.induct)
  case start
  show ?case
    by (rule sem_invI) (auto simp: sem_ns_init_def ns_ok_def slots_ok_def keys_unique_def undo_ok_def points_def
        chains_ok_def waits_ok_def)
next
  case (create ns ws mem n now key flags me)
  show ?case by (rule sem_create_inv [OF create.IH create.hyps(2)])
next
  case (semop ns ws mem c expired intr now t ns')
  show ?case by (rule semop_try_inv [OF semop.IH semop.hyps(2,3)])
next
  case (unqueue ns ws me a)
  show ?case unfolding semop_unqueue_def
    by (rule sem_inv_upd [OF unqueue.IH]) (use sem_invD(2) [OF unqueue.IH] in \<open>auto simp: same_shape_def set_ok_def\<close>)
next
  case (gone ns xs c a num zero ys ns')
  show ?case by (rule semop_resume_inv [OF gone.IH gone.hyps(2)])
next
  case (retry ns xs c a num zero ys ns1 mem expired intr now t ns')
  show ?case by (rule semop_try_inv [OF semop_resume_inv [OF retry.IH retry.hyps(2)] retry.hyps(3,4)])
next
  case (ctl ns ws vals me i num cmd arg uds now r res ns')
  show ?case by (rule semctl_inv [OF ctl.IH ctl.hyps(3)])
next
  case (exit ns ws leader pid)
  show ?case by (rule sem_exit_inv [OF exit.IH])
qed

section \<open>All or nothing\<close>

definition opsum :: "k_sembuf list \<Rightarrow> nat \<Rightarrow> int" where
  "opsum ops n = sum_list (map sb_op (filter (\<lambda>p. sb_num p = n) ops))"

text \<open>The operations can all be done, one after the other, from the values \<open>v\<close>.\<close>

definition doable :: "k_sembuf list \<Rightarrow> (nat \<Rightarrow> int) \<Rightarrow> bool" where
  "doable ops v \<longleftrightarrow>
     (\<forall>k<length ops. let p = ops ! k; x = v (sb_num p) + opsum (take k ops) (sb_num p) in
        if sb_op p = 0 then x = 0 else 0 \<le> x + sb_op p \<and> x + sb_op p \<le> SEMVMX)"

lemma opsum_simps [simp]: "opsum [] n = 0"
  "opsum (p # ops) n = (if sb_num p = n then sb_op p else 0) + opsum ops n"
  by (simp_all add: opsum_def)

lemma doable_Cons:
  "doable (p # ops) v \<longleftrightarrow>
     (let x = v (sb_num p) in if sb_op p = 0 then x = 0 else 0 \<le> x + sb_op p \<and> x + sb_op p \<le> SEMVMX) \<and>
     doable ops (v(sb_num p := v (sb_num p) + sb_op p))"
proof -
  let ?w = "v(sb_num p := v (sb_num p) + sb_op p)"
  have *: "v n + opsum (take (Suc k) (p # ops)) n = ?w n + opsum (take k ops) n" for n k by simp
  have "(\<forall>k<length (p # ops). Q k) \<longleftrightarrow> Q 0 \<and> (\<forall>k<length ops. Q (Suc k))" for Q
    by (auto simp: less_Suc_eq_0_disj)
  then show ?thesis unfolding doable_def by (simp only: *) simp
qed

lemma plan_ops_doable:
  assumes "\<And>p. p \<in> set ops \<Longrightarrow> 0 \<le> v (sb_num p) \<and> v (sb_num p) \<le> SEMVMX"
  shows "if doable ops v then plan_ops i ops v = Plan (\<lambda>n. v n + opsum ops n)
    else plan_ops i ops v = Overflow \<or> (\<exists>k. plan_ops i ops v = Wait k)"
  using assms
proof (induction ops arbitrary: i v)
  case Nil
  show ?case by (simp add: doable_def)
next
  case (Cons p ops)
  let ?x = "v (sb_num p)" and ?w = "v(sb_num p := v (sb_num p) + sb_op p)"
  have x: "0 \<le> ?x \<and> ?x \<le> SEMVMX" using Cons.prems [of p] by simp
  have f: "(\<lambda>n. ?w n + opsum ops n) = (\<lambda>n. v n + opsum (p # ops) n)" by auto
  show ?case
  proof (cases "if sb_op p = 0 then ?x = 0 else 0 \<le> ?x + sb_op p \<and> ?x + sb_op p \<le> SEMVMX")
    case True
    then have step: "plan_ops i (p # ops) v = plan_ops (i + 1) ops ?w" by (auto simp: Let_def fun_upd_idem split: if_splits)
    have "if doable ops ?w then plan_ops (i + 1) ops ?w = Plan (\<lambda>n. ?w n + opsum ops n)
        else plan_ops (i + 1) ops ?w = Overflow \<or> (\<exists>k. plan_ops (i + 1) ops ?w = Wait k)"
      using Cons.prems True x by (intro Cons.IH) (auto simp: SEMVMX_def split: if_splits)
    moreover have "doable (p # ops) v = doable ops ?w" using True by (simp add: doable_Cons Let_def)
    ultimately show ?thesis unfolding step f by simp
  next
    case False
    then have "\<not> doable (p # ops) v" by (auto simp: doable_Cons Let_def)
    moreover have "plan_ops i (p # ops) v = Overflow \<or> (\<exists>k. plan_ops i (p # ops) v = Wait k)"
      using False x by (auto simp: Let_def split: if_splits)
    ultimately show ?thesis by simp
  qed
qed

lemma try_ops_spec:
  assumes inv: "sem_inv (ns, ws)" and s: "ns_heap ns a = Some s" and fr: "fresh_undo mem ns"
    and nums: "\<forall>p\<in>set ops. sb_num p < length (ss_sem s)" and t: "try_ops a ops me mem now ns = (t, ns')"
    and mem: "mem \<noteq> None"
  shows "\<exists>s'. ns_heap ns' = (ns_heap ns)(a := Some s') \<and> length (ss_sem s') = length (ss_sem s) \<and>
    (if doable ops (\<lambda>n. sm_val (ss_sem s ! n))
     then t = Committed \<and> (\<forall>n<length (ss_sem s). sm_val (ss_sem s' ! n) = sm_val (ss_sem s ! n) + opsum ops n)
     else t \<noteq> Committed \<and> s' = s)"
proof -
  let ?v = "\<lambda>n. sm_val (ss_sem s ! n)"
  have p: "if doable ops ?v then plan_ops 0 ops ?v = Plan (\<lambda>n. ?v n + opsum ops n)
      else plan_ops 0 ops ?v = Overflow \<or> (\<exists>k. plan_ops 0 ops ?v = Wait k)"
    using nums sem_invD(2) [OF inv s] by (intro plan_ops_doable) (auto simp: set_ok_def)
  have c: "t = Committed" if "plan_ops 0 ops ?v = Plan f" for f
    using t s that mem by (auto simp: try_ops_def undo_for_def Let_def split: option.splits if_splits)
  from try_ops_inv [OF inv s fr nums t] obtain s' where
    s': "ns_heap ns' = (ns_heap ns)(a := Some s')" "length (ss_sem s') = length (ss_sem s)"
      "if t = Committed then (\<exists>v. plan_ops 0 ops ?v = Plan v \<and> (\<forall>n<length (ss_sem s). sm_val (ss_sem s' ! n) = v n))
       else ns' = ns \<and> s' = s"
    by blast
  show ?thesis
    using s' p c by (intro exI [of _ s']) (auto split: if_splits)
qed

section \<open>Undoing at exit\<close>

lemma commit_op_env:
  "se_chain (ns_env (commit_op me tmp a u p ns)) = se_chain (ns_env ns)"
  "se_undo (ns_env ns) u = Some r \<Longrightarrow> se_undo (ns_env (commit_op me tmp a u p ns)) u =
     Some (if wants_undo p then r\<lparr>un_adj := (un_adj r)[sb_num p := un_adj r ! sb_num p - of_int (sb_op p)]\<rparr> else r)"
  by (simp_all add: commit_op_def Let_def upd_undo_def)

lemma commit_adj:
  assumes "se_undo (ns_env ns) u = Some r" "\<forall>p\<in>set ops. sb_num p < length (un_adj r)"
  shows "\<exists>r'. se_undo (ns_env (foldl (\<lambda>ns p. commit_op me tmp a u p ns) ns ops)) u = Some r' \<and> un_set r' = un_set r \<and>
    length (un_adj r') = length (un_adj r) \<and>
    (\<forall>n<length (un_adj r). un_adj r' ! n = un_adj r ! n - of_int (opsum (filter wants_undo ops) n))"
  using assms
proof (induction ops arbitrary: ns r)
  case (Cons p ops)
  let ?ns = "commit_op me tmp a u p ns"
  let ?r = "if wants_undo p then r\<lparr>un_adj := (un_adj r)[sb_num p := un_adj r ! sb_num p - of_int (sb_op p)]\<rparr> else r"
  have r: "se_undo (ns_env ?ns) u = Some ?r" by (rule commit_op_env(2) [OF Cons.prems(1)])
  have "\<forall>p\<in>set ops. sb_num p < length (un_adj ?r)" using Cons.prems(2) by simp
  from Cons.IH [OF r this] obtain r' where
    r': "se_undo (ns_env (foldl (\<lambda>ns p. commit_op me tmp a u p ns) ?ns ops)) u = Some r'" "un_set r' = un_set ?r"
      "length (un_adj r') = length (un_adj ?r)"
      "\<forall>n<length (un_adj ?r). un_adj r' ! n = un_adj ?r ! n - of_int (opsum (filter wants_undo ops) n)"
    by blast
  have "un_adj r' ! n = un_adj r ! n - of_int (opsum (filter wants_undo (p # ops)) n)" if "n < length (un_adj r)" for n
    using r'(4) that Cons.prems(2) by (cases "n = sb_num p"; cases "wants_undo p") auto
  with r' show ?case by (intro exI [of _ r']) (simp split: if_splits)
qed simp

lemma commit_chain: "se_chain (ns_env (foldl (\<lambda>ns p. commit_op me tmp a u p ns) ns ops)) = se_chain (ns_env ns)"
  by (induction ops arbitrary: ns) (simp_all add: commit_op_env)

lemma opsum_undo: "\<forall>p\<in>set ops. wants_undo p \<or> sb_op p = 0 \<Longrightarrow> opsum (filter wants_undo ops) n = opsum ops n"
  by (induction ops) auto

lemma sint_adj:
  assumes "0 \<le> v" "v \<le> SEMVMX" "0 \<le> v + x" "v + x \<le> SEMVMX"
  shows "clamp_sem (v + x + sint (0 - of_int x :: 16 word)) = v"
proof -
  have "sint (of_int (- x) :: 16 word) = - x"
    using assms by (subst int_word_sint) (simp add: SEMVMX_def)
  then show ?thesis using assms by (simp add: clamp_sem_def)
qed

lemma commit_undoable:
  assumes inv: "sem_inv (ns, ws)" and s: "ns_heap ns a = Some s" and fr: "fresh_undo mem ns"
    and nums: "\<forall>p\<in>set ops. sb_num p < length (ss_sem s)" and t: "try_ops a ops me mem now ns = (Committed, ns')"
    and un: "\<forall>p\<in>set ops. wants_undo p \<or> sb_op p = 0" "list_ex wants_undo ops"
    and ch: "se_chain (ns_env ns) (t_leader me) = []"
  shows "\<exists>u r. se_chain (ns_env ns') (t_leader me) = [u] \<and> se_undo (ns_env ns') u = Some r \<and> un_set r = Some a \<and>
    length (un_adj r) = length (ss_sem s) \<and> (\<forall>n<length (ss_sem s). un_adj r ! n = 0 - of_int (opsum ops n))"
proof -
  obtain u f where u: "mem = Some u" "plan_ops 0 ops (\<lambda>n. sm_val (ss_sem s ! n)) = Plan f"
    using t s un(2) ch by (auto simp: try_ops_def undo_for_def split: plan.splits option.splits)
  let ?r = "\<lparr>un_set = Some a, un_adj = replicate (length (ss_sem s)) 0\<rparr> :: sem_undo"
  obtain ns0 where w: "undo_for a (t_leader me) mem ns = (Some u, ns0)" "se_chain (ns_env ns0) (t_leader me) = [u]"
    "se_undo (ns_env ns0) u = Some ?r"
    using s ch u by (auto simp: undo_for_def Let_def)
  let ?f = "foldl (\<lambda>ns p. commit_op me f a u p ns) ns0 ops"
  have "ns_env ns' = ns_env ?f" using t s un(2) u(2) w(1) by (auto simp: try_ops_def)
  moreover from commit_adj [OF w(3), of ops me f a] nums obtain r' where
    "se_undo (ns_env ?f) u = Some r'" "un_set r' = Some a" "length (un_adj r') = length (ss_sem s)"
      "\<forall>n<length (ss_sem s). un_adj r' ! n = 0 - of_int (opsum ops n)"
    using opsum_undo [OF un(1)] by auto
  ultimately show ?thesis using w(2) commit_chain [of me f a u ns0 ops] by auto
qed

section \<open>Properties\<close>

lemma sem_run_facts:
  assumes "sem_run (ns, ws)"
  shows "ns_ok ns (map held_set ws)"
    and "ns_heap ns a = Some s \<Longrightarrow> n < length (ss_sem s) \<Longrightarrow>
      0 \<le> sm_val (ss_sem s ! n) \<and> sm_val (ss_sem s ! n) \<le> SEMVMX \<and>
      (io_dead s \<or> sm_ncnt (ss_sem s ! n) = int (count_list (map snd ws) (a, n, False)) \<and>
                   sm_zcnt (ss_sem s ! n) = int (count_list (map snd ws) (a, n, True)))"
    and "se_undo (ns_env ns) u = Some r \<Longrightarrow> un_set r = Some b \<Longrightarrow>
      \<exists>s. ns_heap ns b = Some s \<and> length (un_adj r) = length (ss_sem s) \<and> u \<in> set (ss_undos s)"
proof -
  note d = sem_invD [OF sem_run_inv [OF assms]]
  show "ns_ok ns (map held_set ws)" by (rule d(1))
  show "0 \<le> sm_val (ss_sem s ! n) \<and> sm_val (ss_sem s ! n) \<le> SEMVMX \<and>
      (io_dead s \<or> sm_ncnt (ss_sem s ! n) = int (count_list (map snd ws) (a, n, False)) \<and>
                   sm_zcnt (ss_sem s ! n) = int (count_list (map snd ws) (a, n, True)))"
    if "ns_heap ns a = Some s" "n < length (ss_sem s)"
    using that d(2) [OF that(1)] d(5) by (auto simp: set_ok_def waits_ok_def)
  show "\<exists>s. ns_heap ns b = Some s \<and> length (un_adj r) = length (ss_sem s) \<and> u \<in> set (ss_undos s)"
    if "se_undo (ns_env ns) u = Some r" "un_set r = Some b"
    using that undo_okD [OF d(3)] by (metis points_def)
qed

text \<open>C5. In every state reachable by interleaving semget, semop, semctl and process exits, the value
  of each semaphore stays between 0 and SEMVMX, the numbers of waiting processes reported for a
  live set are exactly the numbers of sleeping calls, and an undo record never refers to a freed
  set.\<close>

theorem sem_run_safe:
  assumes "sem_run (ns, ws)"
  shows "ns_ok ns (map held_set ws) \<and>
    (\<forall>a s n. ns_heap ns a = Some s \<and> n < length (ss_sem s) \<longrightarrow>
      0 \<le> sm_val (ss_sem s ! n) \<and> sm_val (ss_sem s ! n) \<le> SEMVMX \<and>
      (io_dead s \<or> sm_ncnt (ss_sem s ! n) = int (count_list (map snd ws) (a, n, False)) \<and>
                   sm_zcnt (ss_sem s ! n) = int (count_list (map snd ws) (a, n, True)))) \<and>
    (\<forall>u r b. se_undo (ns_env ns) u = Some r \<and> un_set r = Some b \<longrightarrow>
      (\<exists>s. ns_heap ns b = Some s \<and> length (un_adj r) = length (ss_sem s) \<and> u \<in> set (ss_undos s)))"
  using sem_run_facts [OF assms] by blast

text \<open>C6. One semop call applies all its operations in order or none of them: when the sequence can be
  done from the current values, the call returns success and each semaphore has moved by the sum of
  its operations; otherwise no value changes and the call sleeps or reports an error.\<close>

theorem semop_all_or_nothing:
  assumes "sem_run (ns, ws)" "fresh_undo mem ns" "mem \<noteq> None"
    and "ipc_lookup_locked ns i = Some a" "ns_heap ns a = Some s"
    and "\<forall>p\<in>set ops. sb_num p < length (ss_sem s)" "ipc_perm_ok s me IPC_W" "ipc_perm_ok s me IPC_R"
    and "semop_try me i ops expired intr mem now ns = (t, ns')"
  shows "\<exists>s'. ns_heap ns' a = Some s' \<and>
    (if doable ops (\<lambda>n. sm_val (ss_sem s ! n))
     then t = SemReturn ok \<and> (\<forall>n<length (ss_sem s). sm_val (ss_sem s' ! n) = sm_val (ss_sem s ! n) + opsum ops n)
     else t \<noteq> SemReturn ok \<and> (\<forall>n<length (ss_sem s). sm_val (ss_sem s' ! n) = sm_val (ss_sem s ! n)))"
proof -
  obtain r ns1 where r: "try_ops a ops me mem now ns = (r, ns1)" by (meson surj_pair)
  have le: "\<not> list_ex (\<lambda>p. sb_num p \<ge> length (ss_sem s)) ops" using assms(6) by (auto simp: list_ex_iff)
  from try_ops_spec [OF sem_run_inv [OF assms(1)] assms(5,2,6) r assms(3)] obtain s1 where
    s1: "ns_heap ns1 = (ns_heap ns)(a := Some s1)" "length (ss_sem s1) = length (ss_sem s)"
      "if doable ops (\<lambda>n. sm_val (ss_sem s ! n))
       then r = Committed \<and> (\<forall>n<length (ss_sem s). sm_val (ss_sem s1 ! n) = sm_val (ss_sem s ! n) + opsum ops n)
       else r \<noteq> Committed \<and> s1 = s"
    by blast
  have "(case r of Failed e \<Rightarrow> t = SemReturn (Inl e) \<and> ns' = ns1 | Committed \<Rightarrow> t = SemReturn ok \<and> ns' = ns1
      | Blocked k \<Rightarrow> t \<noteq> SemReturn ok \<and> (\<exists>s'. ns_heap ns' a = Some s' \<and>
          (\<forall>n<length (ss_sem s). sm_val (ss_sem s' ! n) = sm_val (ss_sem s1 ! n))))"
    using assms(4,5,7,8,9) le r s1(1,2)
    by (auto simp: semop_try_def ipc_hold_def bump_nth split: tried.splits if_splits)
  then show ?thesis
    using s1 by (cases r) (auto split: if_splits)
qed

text \<open>C29. SEM_UNDO: when a process without undo records makes one successful semop call in which every
  operation that changes a value asks for undo, and then exits, all values of the set are back at
  what they were.\<close>

theorem sem_exit_undoes:
  assumes "sem_run (ns, ws)" "fresh_undo mem ns" "mem \<noteq> None" "se_chain (ns_env ns) (t_leader me) = []"
    and "ipc_lookup_locked ns i = Some a" "ns_heap ns a = Some s"
    and "\<forall>p\<in>set ops. wants_undo p \<or> sb_op p = 0" "list_ex wants_undo ops"
    and "semop_try me i ops expired intr mem now ns = (SemReturn ok, ns')"
  shows "\<exists>s'. ns_heap (sem_exit_group (t_leader me) pid ns') a = Some s' \<and>
    map sm_val (ss_sem s') = map sm_val (ss_sem s)"
proof -
  note inv = sem_run_inv [OF assms(1)]
  have nums: "\<forall>p\<in>set ops. sb_num p < length (ss_sem s)"
    using assms(5,6,9) by (auto simp: semop_try_def list_ex_iff split: if_splits)
  have t: "try_ops a ops me mem now ns = (Committed, ns')"
    using assms(5,6,9) by (auto simp: semop_try_def split: if_splits prod.splits tried.splits)
  from commit_undoable [OF inv assms(6,2) nums t assms(7,8,4)] obtain u r where
    u: "se_chain (ns_env ns') (t_leader me) = [u]" "se_undo (ns_env ns') u = Some r" "un_set r = Some a"
      "length (un_adj r) = length (ss_sem s)" "\<forall>n<length (ss_sem s). un_adj r ! n = 0 - of_int (opsum ops n)"
    by blast
  from try_ops_spec [OF inv assms(6,2) nums t assms(3)] obtain s1 where
    s1: "ns_heap ns' a = Some s1" "length (ss_sem s1) = length (ss_sem s)"
      "\<forall>n<length (ss_sem s). sm_val (ss_sem s1 ! n) = sm_val (ss_sem s ! n) + opsum ops n"
    by (auto split: if_splits)
  have ok: "set_ok s" "set_ok s1"
    using sem_invD(2) [OF inv assms(6)] try_ops_inv [OF inv assms(6,2) nums t] sem_invD(2) [of ns' ws a s1] s1(1) by auto
  have "sm_val (ss_sem (apply_undo pid (un_adj r) s1) ! n) = sm_val (ss_sem s ! n)" if n: "n < length (ss_sem s)" for n
  proof -
    have "0 \<le> sm_val (ss_sem s1 ! n) \<and> sm_val (ss_sem s1 ! n) \<le> SEMVMX" "0 \<le> sm_val (ss_sem s ! n) \<and> sm_val (ss_sem s ! n) \<le> SEMVMX"
      using ok n s1(2) by (auto simp: set_ok_def)
    then show ?thesis using n u(4,5) s1(2,3) sint_adj [of "sm_val (ss_sem s ! n)" "opsum ops n"] by (simp add: apply_undo_nth)
  qed
  then have "map sm_val (ss_sem (apply_undo pid (un_adj r) s1)) = map sm_val (ss_sem s)"
    using s1(2) by (intro nth_equalityI) (simp_all add: apply_undo_shape)
  then show ?thesis using u(1,2,3) s1(1) by (simp add: sem_exit_group_def exit_undo_def)
qed

text \<open>The adjustments are 16 bits wide and wrap: a process that raises a semaphore by 32767 with
  SEM_UNDO twice (another process having taken the value down in between) leaves an adjustment of
  +2 instead of -65534, so that its exit raises the semaphore instead of lowering it.\<close>

theorem undo_adj_wraps:
  fixes ns :: sem_ns
  assumes "se_undo (ns_env ns) u = Some \<lparr>un_set = Some a, un_adj = [0]\<rparr>" "wants_undo p" "sb_num p = 0" "sb_op p = 32767"
    and "ns2 = commit_op me tmp2 a u p (commit_op me tmp1 a u p ns)"
    and "ns_heap ns a = Some s" "length (ss_sem s) = 1" "tmp2 0 = 100"
  shows "\<exists>s'. ns_heap (exit_undo pid ns2 u) a = Some s' \<and> map sm_val (ss_sem s') = [102]"
proof -
  obtain k where k: "ss_sem s = [k]" using assms(7) by (cases "ss_sem s") auto
  have w: "- 32767 - 32767 = (2 :: 16 word)" by simp
  show ?thesis
    using assms k by (simp add: commit_op_def Let_def upd_undo_def exit_undo_def apply_undo_def clamp_sem_def SEMVMX_def w)
qed

section \<open>Examples\<close>

definition sem_demo :: sem_ns where
  "sem_demo = snd (ipc_create_install set_destroy (set_create 2 (Some 100) 0) (set_check 2) 7 0x3B6 root_task sem_ns_init)"

definition sem_demo_set :: semset where
  "sem_demo_set = snd (projr (set_create 2 (Some 100) 0))\<lparr>io_key := 7, io_mode := 0x1B6, io_seq := 1, io_id := 256\<rparr>"

definition sem_demo_ops :: "k_sembuf list" where
  "sem_demo_ops = [\<lparr>sb_num = 0, sb_op = 3, sb_flg = 0x1000\<rparr>, \<lparr>sb_num = 1, sb_op = 0, sb_flg = 0\<rparr>]"

lemma sem_demo_run: "sem_run (sem_demo, [])"
  unfolding sem_demo_def by (rule sem_run.create [OF sem_run.start]) (simp add: sem_ns_init_def)

lemma sem_demo_eq:
  "sem_demo = \<lparr>ns_slot = (replicate IPC_SLOTS None)[0 := Some 100], ns_seq = 1,
              ns_heap = (\<lambda>_. None)(100 := Some sem_demo_set), ns_env = \<lparr>se_undo = (\<lambda>_. None), se_chain = (\<lambda>_. [])\<rparr>\<rparr>"
  by (simp add: sem_demo_def sem_demo_set_def ipc_create_install_def ipc_get_install_def set_create_def sem_ns_init_def
      Let_def find_key_locked_def slot_has_key_def IPC_SLOTS_def ipc_fresh_def root_task_def upd_obj_def
      set_obj_def IPC_PRIVATE_K_def SEMMSL_def fun_eq_iff)

lemma sem_demo_set_simps [simp]:
  "io_id sem_demo_set = 256" "\<not> io_dead sem_demo_set" "ss_undos sem_demo_set = []"
  "ss_sem sem_demo_set = replicate 2 \<lparr>sm_val = 0, sm_pid = 0, sm_ncnt = 0, sm_zcnt = 0\<rparr>"
  by (simp_all add: sem_demo_set_def set_create_def SEMMSL_def)

lemma sem_demo_at: "ns_heap sem_demo 100 = Some sem_demo_set" "ipc_lookup_locked sem_demo 256 = Some 100"
  "fresh_undo (Some 200) sem_demo" "se_chain (ns_env sem_demo) l = []"
  by (simp_all add: sem_demo_eq ipc_lookup_locked_def slot_of_def IPC_SLOTS_def fresh_undo_def)

lemma sem_demo_ops_ok:
  "\<forall>p\<in>set sem_demo_ops. sb_num p < length (ss_sem sem_demo_set)"
  "\<forall>p\<in>set sem_demo_ops. wants_undo p \<or> sb_op p = 0" "list_ex wants_undo sem_demo_ops"
  "doable sem_demo_ops (\<lambda>n. sm_val (ss_sem sem_demo_set ! n))" "opsum sem_demo_ops 0 = 3"
  by (simp_all add: sem_demo_ops_def wants_undo_def SEM_UNDO_def doable_Cons SEMVMX_def doable_def [of "[]"])

lemma sem_demo_returns:
  "\<exists>ns'. semop_try root_task 256 sem_demo_ops False False (Some 200) 1 sem_demo = (SemReturn ok, ns')"
  by (simp add: semop_try_def sem_demo_at try_ops_def undo_for_def sem_demo_ops_def Let_def wants_undo_def SEM_UNDO_def SEMVMX_def)

theorem sem_run_safe_witness:
  "ns_ok sem_demo [] \<and> 0 \<le> sm_val (ss_sem sem_demo_set ! 1) \<and> sm_val (ss_sem sem_demo_set ! 1) \<le> SEMVMX"
  using sem_run_safe [OF sem_demo_run] sem_demo_at(1) by (simp add: SEMVMX_def)

theorem semop_all_or_nothing_witness:
  "\<exists>ns' s'. semop_try root_task 256 sem_demo_ops False False (Some 200) 1 sem_demo = (SemReturn ok, ns') \<and>
     ns_heap ns' 100 = Some s' \<and> sm_val (ss_sem s' ! 0) = 3"
proof -
  obtain ns' where r: "semop_try root_task 256 sem_demo_ops False False (Some 200) 1 sem_demo = (SemReturn ok, ns')"
    using sem_demo_returns by blast
  from semop_all_or_nothing [OF sem_demo_run sem_demo_at(3) _ sem_demo_at(2,1) sem_demo_ops_ok(1) _ _ r] obtain s' where
    "ns_heap ns' 100 = Some s'" "sm_val (ss_sem s' ! 0) = 3"
    using sem_demo_ops_ok(4,5) by fastforce
  with r show ?thesis by blast
qed

theorem sem_exit_undoes_witness:
  "\<exists>ns' s'. semop_try root_task 256 sem_demo_ops False False (Some 200) 1 sem_demo = (SemReturn ok, ns') \<and>
     ns_heap (sem_exit_group (t_leader root_task) 1 ns') 100 = Some s' \<and> map sm_val (ss_sem s') = [0, 0]"
proof -
  obtain ns' where r: "semop_try root_task 256 sem_demo_ops False False (Some 200) 1 sem_demo = (SemReturn ok, ns')"
    using sem_demo_returns by blast
  from sem_exit_undoes [OF sem_demo_run sem_demo_at(3) _ sem_demo_at(4,2,1) sem_demo_ops_ok(2,3) r, of 1] obtain s' where
    "ns_heap (sem_exit_group (t_leader root_task) 1 ns') 100 = Some s'" "map sm_val (ss_sem s') = [0, 0]"
    by (auto simp: numeral_2_eq_2)
  with r show ?thesis by (intro exI [of _ ns'] exI [of _ s'] conjI)
qed

definition wrap_op :: k_sembuf where "wrap_op = \<lparr>sb_num = 0, sb_op = 32767, sb_flg = 0x1000\<rparr>"

definition wrap_set :: semset where
  "wrap_set = sem_demo_set\<lparr>ss_sem := [\<lparr>sm_val = 0, sm_pid = 0, sm_ncnt = 0, sm_zcnt = 0\<rparr>], ss_undos := [200]\<rparr>"

definition wrap_ns :: sem_ns where
  "wrap_ns = (set_obj 100 wrap_set sem_demo)
     \<lparr>ns_env := \<lparr>se_undo = (\<lambda>_. None)(200 := Some \<lparr>un_set = Some 100, un_adj = [0]\<rparr>), se_chain = (\<lambda>_. [])(1 := [200])\<rparr>\<rparr>"

lemma wrap_ns_at: "ns_heap wrap_ns 100 = Some wrap_set"
  "se_undo (ns_env wrap_ns) 200 = Some \<lparr>un_set = Some 100, un_adj = [0]\<rparr>"
  by (simp_all add: wrap_ns_def)

theorem undo_adj_wraps_witness:
  "\<exists>s'. ns_heap (exit_undo 1 (commit_op root_task (\<lambda>_. 100) 100 200 wrap_op
       (commit_op root_task (\<lambda>_. 32767) 100 200 wrap_op wrap_ns)) 200) 100 = Some s' \<and> map sm_val (ss_sem s') = [102]"
  by (rule undo_adj_wraps [OF wrap_ns_at(2) _ _ _ refl wrap_ns_at(1)])
    (simp_all add: wrap_op_def wrap_set_def wants_undo_def SEM_UNDO_def)

end
