(* ===== verification/Pipe.thy ===== *)
theory Pipe
  imports Waitq
begin

unbundle bit_operations_syntax

text \<open>
  Pipes and FIFOs, \<^verbatim>\<open>kernel/src/syscall/io/pipe.c\<close>.  A pipe is a ring of bytes with three tables of
  waiting tasks.  The calls that can sleep are loops around one critical section; \<open>pipe_read_turn\<close>,
  \<open>pipe_write_turn\<close> and \<open>fifo_open_turn\<close> are one turn of these loops.  An operation that unblocks
  tasks returns them.  The loops that copy bytes are partial functions: \<open>None\<close> would mean that a
  loop does not end.
\<close>

definition PIPE_BUFSZ :: nat where "PIPE_BUFSZ = 65536"
definition PIPE_ATOMIC :: nat where "PIPE_ATOMIC = 4096"
definition PIPE_WAITERS :: nat where "PIPE_WAITERS = 16"

record pipe_shared =
  p_buf :: "nat \<Rightarrow> u8"
  p_head :: nat
  p_used :: nat
  p_readers :: int
  p_writers :: int
  p_rwait :: "nat option list"
  p_wwait :: "nat option list"
  p_owait :: "nat option list"
  p_pq :: waitq
  p_rgen :: u64
  p_wgen :: u64
  p_is_fifo :: bool
  p_key_fs :: u64
  p_key_id :: u64

text \<open>A zeroed structure with a buffer.\<close>

definition pipe_zero :: "(nat \<Rightarrow> u8) \<Rightarrow> pipe_shared" where
  "pipe_zero buf =
     \<lparr>p_buf = buf, p_head = 0, p_used = 0, p_readers = 0, p_writers = 0,
      p_rwait = replicate PIPE_WAITERS None, p_wwait = replicate PIPE_WAITERS None,
      p_owait = replicate PIPE_WAITERS None, p_pq = waitq_empty, p_rgen = 0, p_wgen = 0,
      p_is_fifo = False, p_key_fs = 0, p_key_id = 0\<rparr>"

datatype plist = RWait | WWait | OWait

fun the_list :: "plist \<Rightarrow> pipe_shared \<Rightarrow> nat option list" where
  "the_list RWait p = p_rwait p"
| "the_list WWait p = p_wwait p"
| "the_list OWait p = p_owait p"

fun put_list :: "plist \<Rightarrow> nat option list \<Rightarrow> pipe_shared \<Rightarrow> pipe_shared" where
  "put_list RWait t p = p\<lparr>p_rwait := t\<rparr>"
| "put_list WWait t p = p\<lparr>p_wwait := t\<rparr>"
| "put_list OWait t p = p\<lparr>p_owait := t\<rparr>"

definition wake_all :: "plist \<Rightarrow> pipe_shared \<Rightarrow> nat list \<times> pipe_shared" where
  "wake_all l p =
     (case tab_flush (the_list l p) of
        (ws, tab) \<Rightarrow> (ws, (put_list l tab p)\<lparr>p_pq := woken (p_pq p)\<rparr>))"

definition add_waiter :: "nat option list \<Rightarrow> nat \<Rightarrow> bool \<times> nat option list" where
  "add_waiter tab me = tab_add me tab"

definition drop_waiter :: "nat option list \<Rightarrow> nat \<Rightarrow> nat option list" where
  "drop_waiter tab me = tab_del me tab"

text \<open>
  \<open>block_on\<close> up to the sleep, and after it.  The flag tells whether the task is listed; one that is
  not has a time-out of a millisecond instead.
\<close>

definition block_enter :: "plist \<Rightarrow> nat \<Rightarrow> pipe_shared \<Rightarrow> bool \<times> pipe_shared" where
  "block_enter l me p = (case add_waiter (the_list l p) me of (listed, tab) \<Rightarrow> (listed, put_list l tab p))"

definition block_leave :: "plist \<Rightarrow> nat \<Rightarrow> pipe_shared \<Rightarrow> pipe_shared" where
  "block_leave l me p = put_list l (drop_waiter (the_list l p) me) p"

section \<open>Reading\<close>

partial_function (option) copy_out :: "nat \<Rightarrow> u8 list \<Rightarrow> pipe_shared \<Rightarrow> (u8 list \<times> pipe_shared) option" where
  "copy_out len dst p =
     (if length dst < len \<and> p_used p > 0 then
        let c1 = PIPE_BUFSZ - p_head p;
            c2 = (if c1 > p_used p then p_used p else c1);
            chunk = (if c2 > len - length dst then len - length dst else c2)
        in copy_out len (dst @ map (p_buf p) [p_head p..<p_head p + chunk])
             (p\<lparr>p_head := (p_head p + chunk) mod PIPE_BUFSZ, p_used := p_used p - chunk\<rparr>)
      else Some (dst, p))"

datatype rturn = RReturn "u8 list result" | RBlock

definition pipe_read_turn :: "nat \<Rightarrow> bool \<Rightarrow> bool \<Rightarrow> pipe_shared \<Rightarrow> (rturn \<times> nat list \<times> pipe_shared) option" where
  "pipe_read_turn len nonblock interrupted p =
     (if len = 0 then Some (RReturn (Inr []), [], p)
      else if p_used p > 0 then
        (case copy_out len [] p of
           None \<Rightarrow> None
         | Some (dst, p1) \<Rightarrow> (case wake_all WWait p1 of (ws, p2) \<Rightarrow> Some (RReturn (Inr dst), ws, p2)))
      else if p_writers p = 0 then Some (RReturn (Inr []), [], p)
      else if nonblock then Some (RReturn (Inl EAGAIN), [], p)
      else if interrupted then Some (RReturn (Inl EINTR), [], p)
      else Some (RBlock, [], p))"

section \<open>Writing\<close>

definition buf_store :: "nat \<Rightarrow> u8 list \<Rightarrow> (nat \<Rightarrow> u8) \<Rightarrow> nat \<Rightarrow> u8" where
  "buf_store off data buf = (\<lambda>i. if off \<le> i \<and> i < off + length data then data ! (i - off) else buf i)"

partial_function (option) copy_in :: "u8 list \<Rightarrow> nat \<Rightarrow> pipe_shared \<Rightarrow> (nat \<times> pipe_shared) option" where
  "copy_in src n p =
     (if n < length src \<and> p_used p < PIPE_BUFSZ then
        let tail = (p_head p + p_used p) mod PIPE_BUFSZ;
            c1 = PIPE_BUFSZ - tail;
            c2 = (if c1 > PIPE_BUFSZ - p_used p then PIPE_BUFSZ - p_used p else c1);
            chunk = (if c2 > length src - n then length src - n else c2)
        in copy_in src (n + chunk)
             (p\<lparr>p_buf := buf_store tail (take chunk (drop n src)) (p_buf p), p_used := p_used p + chunk\<rparr>)
      else Some (n, p))"

text \<open>The end of a write tells whether \<^verbatim>\<open>SIGPIPE\<close> was sent; \<open>WAgain\<close> goes round the loop.\<close>

datatype wturn = WReturn "nat result" bool | WAgain nat | WBlock

definition write_part :: "nat \<Rightarrow> errno \<Rightarrow> nat result" where
  "write_part n e = (if n > 0 then Inr n else Inl e)"

definition pipe_write_turn ::
  "u8 list \<Rightarrow> nat \<Rightarrow> bool \<Rightarrow> bool \<Rightarrow> pipe_shared \<Rightarrow> (wturn \<times> nat list \<times> pipe_shared) option" where
  "pipe_write_turn src n nonblock interrupted p =
     (if \<not> n < length src then Some (WReturn (Inr n) False, [], p)
      else if p_readers p = 0 then Some (WReturn (write_part n EPIPE) True, [], p)
      else if PIPE_BUFSZ - p_used p \<ge> (if length src \<le> PIPE_ATOMIC then length src - n else 1) then
        (case copy_in src n p of
           None \<Rightarrow> None
         | Some (n', p1) \<Rightarrow> (case wake_all RWait p1 of (ws, p2) \<Rightarrow> Some (WAgain n', ws, p2)))
      else if nonblock then Some (WReturn (write_part n EAGAIN) False, [], p)
      else if interrupted then Some (WReturn (write_part n EINTR) False, [], p)
      else Some (WBlock, [], p))"

section \<open>Closing, polling, control\<close>

text \<open>\<open>pd_end\<close> is 0 for a read end, 1 for a write end, 2 for both.\<close>

definition pipe_close :: "nat \<Rightarrow> pipe_shared \<Rightarrow> nat list \<times> bool \<times> pipe_shared" where
  "pipe_close pd_end p =
     (let p1 = (if pd_end \<noteq> 1 then p\<lparr>p_readers := p_readers p - 1\<rparr> else p);
          p2 = (if pd_end \<noteq> 0 then p1\<lparr>p_writers := p_writers p1 - 1\<rparr> else p1);
          (ws1, p3) = (if p_readers p2 = 0 then wake_all WWait p2 else ([], p2));
          (ws2, p4) = (if p_writers p2 = 0 then wake_all RWait p3 else ([], p3))
      in (ws1 @ ws2, p_readers p2 \<le> 0 \<and> p_writers p2 \<le> 0, p4))"

definition POLLIN :: u32 where "POLLIN = 1"
definition POLLOUT :: u32 where "POLLOUT = 4"
definition POLLERR :: u32 where "POLLERR = 8"
definition POLLHUP :: u32 where "POLLHUP = 16"

text \<open>\<open>reg\<close> is what \<^verbatim>\<open>poll_wait\<close> does to the queue for the current poll table.\<close>

definition pipe_poll :: "(waitq \<Rightarrow> waitq) \<Rightarrow> nat \<Rightarrow> pipe_shared \<Rightarrow> u32 \<times> pipe_shared" where
  "pipe_poll reg pd_end p =
     ((if pd_end \<noteq> 1 then (if p_used p > 0 then POLLIN else 0) OR
         (if p_writers p = 0 \<and> (\<not> p_is_fifo p \<or> p_wgen p > 0) then POLLHUP else 0) else 0) OR
      (if pd_end \<noteq> 0 then (if PIPE_BUFSZ - p_used p \<ge> PIPE_ATOMIC then POLLOUT else 0) OR
         (if p_readers p = 0 then POLLERR else 0) else 0),
      p\<lparr>p_pq := reg (p_pq p)\<rparr>)"

definition pipe_ioctl :: "u64 \<Rightarrow> bool \<Rightarrow> pipe_shared \<Rightarrow> int result" where
  "pipe_ioctl req arg p =
     (if req \<noteq> 0x541B then Inl ENOTTY else if \<not> arg then Inl EFAULT else Inr (int (p_used p)))"

section \<open>FIFOs\<close>

text \<open>The allocated pipes by address, and the list \<open>g_fifos\<close>.\<close>

record pipe_world =
  pw_heap :: "nat \<Rightarrow> pipe_shared option"
  pw_fifos :: "nat list"

text \<open>
  \<open>mem\<close> is the address of the new structure and the initial content of its buffer, if there is
  memory for both.
\<close>

definition fifo_get :: "u64 \<Rightarrow> u64 \<Rightarrow> (nat \<times> (nat \<Rightarrow> u8)) option \<Rightarrow> pipe_world \<Rightarrow> nat option \<times> pipe_world" where
  "fifo_get fs i mem w =
     (case List.find (\<lambda>a. case pw_heap w a of Some p \<Rightarrow> p_key_fs p = fs \<and> p_key_id p = i | None \<Rightarrow> False) (pw_fifos w) of
        Some a \<Rightarrow> (Some a, w)
      | None \<Rightarrow>
          (case mem of
             None \<Rightarrow> (None, w)
           | Some (a, buf) \<Rightarrow>
               (Some a, w\<lparr>pw_heap := (pw_heap w)(a := Some ((pipe_zero buf)\<lparr>p_is_fifo := True, p_key_fs := fs, p_key_id := i\<rparr>)),
                          pw_fifos := a # pw_fifos w\<rparr>)))"

definition fifo_release_unused :: "nat \<Rightarrow> pipe_world \<Rightarrow> pipe_world" where
  "fifo_release_unused a w =
     (case pw_heap w a of
        None \<Rightarrow> w
      | Some p \<Rightarrow>
          if p_readers p > 0 \<or> p_writers p > 0 then w
          else w\<lparr>pw_fifos := remove1 a (pw_fifos w), pw_heap := (pw_heap w)(a := None)\<rparr>)"

definition pipe_unref :: "nat \<Rightarrow> nat \<Rightarrow> pipe_world \<Rightarrow> nat list \<times> pipe_world" where
  "pipe_unref a pd_end w =
     (case pw_heap w a of
        None \<Rightarrow> ([], w)
      | Some p \<Rightarrow>
          (case pipe_close pd_end p of
             (ws, final, p') \<Rightarrow>
               (ws, if final
                    then w\<lparr>pw_fifos := (if p_is_fifo p then remove1 a (pw_fifos w) else pw_fifos w),
                           pw_heap := (pw_heap w)(a := None)\<rparr>
                    else w\<lparr>pw_heap := (pw_heap w)(a := Some p')\<rparr>)))"

definition O_ACCMODE :: u32 where "O_ACCMODE = 3"
definition O_RDONLY :: u32 where "O_RDONLY = 0"
definition O_WRONLY :: u32 where "O_WRONLY = 1"
definition O_NONBLOCK :: u32 where "O_NONBLOCK = 0x800"

definition fifo_end :: "u32 \<Rightarrow> nat" where
  "fifo_end flags =
     (let acc = flags AND O_ACCMODE in if acc = O_RDONLY then 0 else if acc = O_WRONLY then 1 else 2)"

text \<open>Entering the counts of a FIFO, and waking everybody.\<close>

definition fifo_enter :: "nat \<Rightarrow> pipe_shared \<Rightarrow> nat list \<times> pipe_shared" where
  "fifo_enter pd_end p =
     (let p1 = (if pd_end \<noteq> 1 then p\<lparr>p_readers := p_readers p + 1, p_rgen := p_rgen p + 1\<rparr> else p);
          p2 = (if pd_end \<noteq> 0 then p1\<lparr>p_writers := p_writers p1 + 1, p_wgen := p_wgen p1 + 1\<rparr> else p1);
          (ws1, p3) = wake_all OWait p2;
          (ws2, p4) = wake_all RWait p3;
          (ws3, p5) = wake_all WWait p4
      in (ws1 @ ws2 @ ws3, p5))"

text \<open>
  A turn of the loop that waits for a peer: \<open>want\<close> is the generation seen on entry.  An interrupted
  open has left the counts when it gives up its lock and ends with \<open>fifo_open_cancel\<close>.
\<close>

datatype oturn = OReady | OCancel | OBlock

definition fifo_open_turn :: "nat \<Rightarrow> u64 \<Rightarrow> bool \<Rightarrow> pipe_shared \<Rightarrow> oturn \<times> pipe_shared" where
  "fifo_open_turn pd_end want interrupted p =
     (let peers = (if pd_end = 0 then p_writers p else p_readers p);
          gen = (if pd_end = 0 then p_wgen p else p_rgen p)
      in if peers > 0 \<or> gen \<noteq> want then (OReady, p)
         else if interrupted then
           (OCancel, if pd_end = 0 then p\<lparr>p_readers := p_readers p - 1\<rparr> else p\<lparr>p_writers := p_writers p - 1\<rparr>)
         else (OBlock, p))"

text \<open>
  The last section of an interrupted open, under both locks again.  \<open>None\<close>: it takes the lock of a
  structure that has been freed.
\<close>

definition fifo_open_cancel :: "nat \<Rightarrow> pipe_world \<Rightarrow> pipe_world option" where
  "fifo_open_cancel a w =
     (case pw_heap w a of
        None \<Rightarrow> None
      | Some p \<Rightarrow> Some (if p_readers p \<le> 0 \<and> p_writers p \<le> 0 then fifo_release_unused a w else w))"

text \<open>
  The first section of \<open>fifo_open\<close>: the result is an error, or the pipe, the end and the generation
  to wait for (\<open>None\<close>: the open is complete).
\<close>

definition fifo_open_start ::
  "u64 \<Rightarrow> u64 \<Rightarrow> u32 \<Rightarrow> bool \<Rightarrow> (nat \<times> (nat \<Rightarrow> u8)) option \<Rightarrow> pipe_world \<Rightarrow>
   (nat \<times> nat \<times> u64 option) result \<times> nat list \<times> pipe_world" where
  "fifo_open_start fs i flags vmem mem w =
     (if \<not> vmem then (Inl ENOMEM, [], w)
      else case fifo_get fs i mem w of
        (None, w1) \<Rightarrow> (Inl ENOMEM, [], w1)
      | (Some a, w1) \<Rightarrow>
          let p = the (pw_heap w1 a); nonblock = (flags AND O_NONBLOCK \<noteq> 0) in
          if flags AND O_ACCMODE = O_WRONLY \<and> nonblock \<and> p_readers p = 0
          then (Inl ENXIO, [], fifo_release_unused a w1)
          else
            (case fifo_enter (fifo_end flags) p of
               (ws, p') \<Rightarrow>
                 (Inr (a, fifo_end flags,
                       if fifo_end flags \<noteq> 2 \<and> \<not> nonblock
                       then Some (if fifo_end flags = 0 then p_wgen p' else p_rgen p') else None),
                  ws, w1\<lparr>pw_heap := (pw_heap w1)(a := Some p')\<rparr>)))"

text \<open>The vnode of an end of the pipe at \<open>vn_shared\<close>, made when the open is complete, and \<^verbatim>\<open>stat\<close> on it.\<close>

record pipe_vnode =
  vn_mode :: u32
  vn_uid :: u32
  vn_gid :: u32
  vn_ino :: u64
  vn_shared :: nat
  vn_end :: nat
  vn_refcount :: int

definition fifo_open_finish :: "u32 \<Rightarrow> u32 \<Rightarrow> u32 \<Rightarrow> u64 \<Rightarrow> nat \<Rightarrow> nat \<Rightarrow> pipe_vnode" where
  "fifo_open_finish mode uid gid ino a pd_end =
     \<lparr>vn_mode = mode, vn_uid = uid, vn_gid = gid, vn_ino = ino, vn_shared = a, vn_end = pd_end, vn_refcount = 1\<rparr>"

record pipe_stat =
  st_ino :: u64
  st_mode :: u32
  st_uid :: u32
  st_gid :: u32

definition pipe_stat_op :: "pipe_vnode \<Rightarrow> pipe_stat" where
  "pipe_stat_op n = \<lparr>st_ino = vn_ino n, st_mode = vn_mode n, st_uid = vn_uid n, st_gid = vn_gid n\<rparr>"

section \<open>The pipe system call\<close>

text \<open>
  \<open>mem\<close> is the memory for the pipe, \<open>vmem\<close> and \<open>fmem\<close> tell whether there is memory for the vnodes
  and for the two files, \<open>rfd\<close> and \<open>wfd\<close> are what \<^verbatim>\<open>fd_alloc\<close> returns.  Closing a descriptor
  closes the only reference to the file and so to its end of the pipe.
\<close>

definition sys_pipe ::
  "bool \<Rightarrow> bool \<Rightarrow> (nat \<times> (nat \<Rightarrow> u8)) option \<Rightarrow> bool \<Rightarrow> bool \<Rightarrow> int \<Rightarrow> int \<Rightarrow> pipe_world \<Rightarrow> (int \<times> int) result \<times> pipe_world" where
  "sys_pipe uptr_ok fd_table mem vmem fmem rfd wfd w =
     (if \<not> uptr_ok then (Inl EFAULT, w)
      else if \<not> fd_table then (Inl ENOMEM, w)
      else case mem of
        None \<Rightarrow> (Inl ENOMEM, w)
      | Some (a, buf) \<Rightarrow>
          if \<not> vmem then (Inl ENOMEM, w)
          else if \<not> fmem then (Inl ENOMEM, w)
          else
            let w1 = w\<lparr>pw_heap := (pw_heap w)(a := Some ((pipe_zero buf)\<lparr>p_readers := 1, p_writers := 1\<rparr>))\<rparr> in
            if rfd < 0 \<or> wfd < 0 then
              let w2 = (if rfd < 0 then w1 else snd (pipe_unref a 0 w1));
                  w3 = (if wfd < 0 then w2 else snd (pipe_unref a 1 w2))
              in (Inl EMFILE, w3)
            else (Inr (rfd, wfd), w1))"

end
