(* ===== verification/Pipe_Correct.thy ===== *)
theory Pipe_Correct
  imports Pipe
begin

text \<open>
  Pipes deliver the bytes written in order, without loss or duplication, under every interleaving
  of readers, writers, opens and closes; small writes are not mixed with others; and a task that
  sleeps on a pipe without a time-out has a reason to.
\<close>

section \<open>The ring as a list\<close>

definition pipe_data :: "pipe_shared \<Rightarrow> u8 list" where
  "pipe_data p = map (\<lambda>i. p_buf p ((p_head p + i) mod PIPE_BUFSZ)) [0..<p_used p]"

definition ring_ok :: "pipe_shared \<Rightarrow> bool" where
  "ring_ok p \<longleftrightarrow> p_head p < PIPE_BUFSZ \<and> p_used p \<le> PIPE_BUFSZ"

lemma pipe_data_length [simp]: "length (pipe_data p) = p_used p"
  by (simp add: pipe_data_def)

lemma pipe_data_nth: "i < p_used p \<Longrightarrow> pipe_data p ! i = p_buf p ((p_head p + i) mod PIPE_BUFSZ)"
  by (simp add: pipe_data_def)

lemma BUFSZ_pos [simp]: "0 < PIPE_BUFSZ" by (simp add: PIPE_BUFSZ_def)

lemma take_ring:
  assumes "c \<le> p_used p" "p_head p + c \<le> PIPE_BUFSZ"
  shows "map (p_buf p) [p_head p..<p_head p + c] = take c (pipe_data p)"
  using assms by (intro nth_equalityI) (auto simp: pipe_data_nth)

lemma drop_ring:
  assumes "c \<le> p_used p"
  shows "pipe_data (p\<lparr>p_head := (p_head p + c) mod PIPE_BUFSZ, p_used := p_used p - c\<rparr>) = drop c (pipe_data p)"
  using assms by (intro nth_equalityI) (auto simp: pipe_data_nth mod_add_left_eq add.assoc)

lemma copy_out_spec:
  assumes "ring_ok p" "length dst \<le> len"
  shows "\<exists>p'. copy_out len dst p = Some (dst @ take (len - length dst) (pipe_data p), p') \<and> ring_ok p' \<and>
    pipe_data p' = drop (len - length dst) (pipe_data p) \<and>
    p' = p\<lparr>p_head := p_head p', p_used := p_used p'\<rparr>"
  using assms
proof (induction "p_used p" arbitrary: p dst rule: less_induct)
  case less
  show ?case
  proof (cases "length dst < len \<and> p_used p > 0")
    case False
    then have "copy_out len dst p = Some (dst, p)" by (subst copy_out.simps) auto
    with False less.prems show ?thesis by (intro exI [of _ p]) (auto simp flip: length_0_conv)
  next
    case True
    let ?c1 = "PIPE_BUFSZ - p_head p"
    let ?c2 = "if ?c1 > p_used p then p_used p else ?c1"
    define c where "c = (if ?c2 > len - length dst then len - length dst else ?c2)"
    let ?p = "p\<lparr>p_head := (p_head p + c) mod PIPE_BUFSZ, p_used := p_used p - c\<rparr>"
    let ?dst = "dst @ map (p_buf p) [p_head p..<p_head p + c]"
    have c: "0 < c" "c \<le> p_used p" "c \<le> len - length dst" "p_head p + c \<le> PIPE_BUFSZ"
      using True less.prems by (auto simp: c_def ring_ok_def)
    have dst: "?dst = dst @ take c (pipe_data p)" using take_ring c by simp
    have "\<exists>p'. copy_out len ?dst ?p = Some (?dst @ take (len - length ?dst) (pipe_data ?p), p') \<and> ring_ok p' \<and>
        pipe_data p' = drop (len - length ?dst) (pipe_data ?p) \<and> p' = ?p\<lparr>p_head := p_head p', p_used := p_used p'\<rparr>"
      using c less.prems by (intro less.hyps) (auto simp: ring_ok_def)
    then obtain p' where p': "copy_out len ?dst ?p = Some (?dst @ take (len - length ?dst) (pipe_data ?p), p')" "ring_ok p'"
        "pipe_data p' = drop (len - length ?dst) (pipe_data ?p)" "p' = ?p\<lparr>p_head := p_head p', p_used := p_used p'\<rparr>"
      by blast
    have step: "copy_out len dst p = copy_out len ?dst ?p"
      using True by (subst copy_out.simps) (simp add: Let_def c_def)
    have "take (len - length dst) (pipe_data p) = take c (pipe_data p) @ take (len - length dst - c) (drop c (pipe_data p))"
      using c(3) by (metis le_add_diff_inverse take_add)
    then have a: "?dst @ take (len - length ?dst) (pipe_data ?p) = dst @ take (len - length dst) (pipe_data p)"
      using drop_ring [OF c(2)] c(2) by (simp add: dst min_absorb2)
    have "len - (length dst + c) + c = len - length dst" using c(1,3) True by linarith
    then have b: "pipe_data p' = drop (len - length dst) (pipe_data p)"
      using p'(3) drop_ring [OF c(2)] by simp
    have e: "p' = p\<lparr>p_head := p_head p', p_used := p_used p'\<rparr>" using p'(4) by (cases p') simp
    have f: "copy_out len dst p = Some (dst @ take (len - length dst) (pipe_data p), p')" using step p'(1) a by simp
    show ?thesis by (rule exI [of _ p'], intro conjI) (fact f p'(2) b e)+
  qed
qed

text \<open>Appending to the ring.\<close>

lemma append_ring:
  assumes ok: "ring_ok p" and d: "d \<noteq> []" "length d \<le> PIPE_BUFSZ - p_used p"
    and t: "tail = (p_head p + p_used p) mod PIPE_BUFSZ" "tail + length d \<le> PIPE_BUFSZ"
  shows "pipe_data (p\<lparr>p_buf := buf_store tail d (p_buf p), p_used := p_used p + length d\<rparr>) = pipe_data p @ d"
    (is "pipe_data ?p = _")
proof (rule nth_equalityI)
  fix i assume "i < length (pipe_data ?p)"
  then have i: "i < p_used p + length d" by simp
  have h: "p_head p < PIPE_BUFSZ" "p_used p \<le> PIPE_BUFSZ" using ok by (simp_all add: ring_ok_def)
  show "pipe_data ?p ! i = (pipe_data p @ d) ! i"
  proof (cases "i < p_used p")
    case True
    have "\<not> (tail \<le> (p_head p + i) mod PIPE_BUFSZ \<and> (p_head p + i) mod PIPE_BUFSZ < tail + length d)"
      using True h d t by (auto simp: mod_if split: if_splits)
    with True i show ?thesis by (auto simp: pipe_data_nth nth_append buf_store_def)
  next
    case False
    have "(p_head p + i) mod PIPE_BUFSZ = tail + (i - p_used p)"
      using False i h d t by (auto simp: mod_if split: if_splits)
    with False i show ?thesis by (auto simp: pipe_data_nth nth_append buf_store_def)
  qed
qed simp

lemma copy_in_spec:
  assumes "ring_ok p" "n \<le> length src"
  shows "\<exists>n' p'. copy_in src n p = Some (n', p') \<and> ring_ok p' \<and>
    n' = n + min (length src - n) (PIPE_BUFSZ - p_used p) \<and>
    pipe_data p' = pipe_data p @ take (PIPE_BUFSZ - p_used p) (drop n src) \<and>
    p' = p\<lparr>p_buf := p_buf p', p_used := p_used p'\<rparr>"
  using assms
proof (induction "PIPE_BUFSZ - p_used p" arbitrary: p n rule: less_induct)
  case less
  show ?case
  proof (cases "n < length src \<and> p_used p < PIPE_BUFSZ")
    case False
    then have "copy_in src n p = Some (n, p)" by (subst copy_in.simps) auto
    with False less.prems show ?thesis by (intro exI [of _ n] exI [of _ p]) auto
  next
    case True
    define tail where "tail = (p_head p + p_used p) mod PIPE_BUFSZ"
    let ?c2 = "if PIPE_BUFSZ - tail > PIPE_BUFSZ - p_used p then PIPE_BUFSZ - p_used p else PIPE_BUFSZ - tail"
    define c where "c = (if ?c2 > length src - n then length src - n else ?c2)"
    let ?d = "take c (drop n src)"
    let ?p = "p\<lparr>p_buf := buf_store tail ?d (p_buf p), p_used := p_used p + c\<rparr>"
    have tl: "tail < PIPE_BUFSZ" by (simp add: tail_def)
    have c: "0 < c" "c \<le> PIPE_BUFSZ - p_used p" "c \<le> length src - n" "tail + c \<le> PIPE_BUFSZ"
      using True tl by (auto simp: c_def)
    have d: "length ?d = c" "?d \<noteq> []" using c by (auto simp flip: length_0_conv)
    have data: "pipe_data ?p = pipe_data p @ ?d"
      using append_ring [OF less.prems(1) d(2) _ tail_def] c(2,4) d(1) by simp
    have "\<exists>n' p'. copy_in src (n + c) ?p = Some (n', p') \<and> ring_ok p' \<and>
        n' = n + c + min (length src - (n + c)) (PIPE_BUFSZ - p_used ?p) \<and>
        pipe_data p' = pipe_data ?p @ take (PIPE_BUFSZ - p_used ?p) (drop (n + c) src) \<and>
        p' = ?p\<lparr>p_buf := p_buf p', p_used := p_used p'\<rparr>"
      using c less.prems True by (intro less.hyps) (auto simp: ring_ok_def)
    then obtain n' p' where p': "copy_in src (n + c) ?p = Some (n', p')" "ring_ok p'"
        "n' = n + c + min (length src - (n + c)) (PIPE_BUFSZ - p_used ?p)"
        "pipe_data p' = pipe_data ?p @ take (PIPE_BUFSZ - p_used ?p) (drop (n + c) src)"
        "p' = ?p\<lparr>p_buf := p_buf p', p_used := p_used p'\<rparr>"
      by blast
    have step: "copy_in src n p = copy_in src (n + c) ?p"
      using True by (subst copy_in.simps) (simp add: Let_def c_def tail_def)
    have "c + (PIPE_BUFSZ - (c + p_used p)) = PIPE_BUFSZ - p_used p" using c(2) True by linarith
    then have "take (PIPE_BUFSZ - p_used p) (drop n src) = ?d @ take (PIPE_BUFSZ - p_used p - c) (drop (n + c) src)"
      using take_add [of c "PIPE_BUFSZ - p_used p - c" "drop n src"] by (simp add: add.commute)
    then have a: "pipe_data p' = pipe_data p @ take (PIPE_BUFSZ - p_used p) (drop n src)"
      using p'(4) by (simp add: data)
    have b: "n' = n + min (length src - n) (PIPE_BUFSZ - p_used p)" using p'(3) c by (auto simp: min_def)
    have e: "p' = p\<lparr>p_buf := p_buf p', p_used := p_used p'\<rparr>" using p'(5) by (cases p') simp
    have f: "copy_in src n p = Some (n', p')" using step p'(1) by simp
    show ?thesis by (rule exI [of _ n'], rule exI [of _ p'], intro conjI) (fact f p'(2) b a e)+
  qed
qed

section \<open>Wait tables\<close>

lemma tab_flush_spec: "tab_flush tab = (ws, tab') \<Longrightarrow> set ws = {t. Some t \<in> set tab} \<and> tab' = replicate (length tab) None"
  by (auto simp: tab_flush_eq mem_map_filter_id)

lemma wake_all_spec:
  assumes "wake_all l p = (ws, p')"
  shows "set ws = {t. Some t \<in> set (the_list l p)}"
    and "p' = (put_list l (replicate (length (the_list l p)) None) p)\<lparr>p_pq := p_pq p'\<rparr>"
  using assms by (auto simp: wake_all_def dest!: tab_flush_spec split: prod.splits)

lemma put_list_simps [simp]:
  "p_buf (put_list l t p) = p_buf p" "p_head (put_list l t p) = p_head p" "p_used (put_list l t p) = p_used p"
  "p_readers (put_list l t p) = p_readers p" "p_writers (put_list l t p) = p_writers p"
  "p_rgen (put_list l t p) = p_rgen p" "p_wgen (put_list l t p) = p_wgen p" "p_is_fifo (put_list l t p) = p_is_fifo p"
  "the_list l' (put_list l t p) = (if l' = l then t else the_list l' p)"
  by (cases l; simp; cases l'; simp)+

lemma the_list_simps [simp]:
  "the_list l (p\<lparr>p_buf := x1\<rparr>) = the_list l p" "the_list l (p\<lparr>p_head := x2\<rparr>) = the_list l p"
  "the_list l (p\<lparr>p_used := x3\<rparr>) = the_list l p" "the_list l (p\<lparr>p_readers := x4\<rparr>) = the_list l p"
  "the_list l (p\<lparr>p_writers := x5\<rparr>) = the_list l p" "the_list l (p\<lparr>p_pq := x6\<rparr>) = the_list l p"
  "the_list l (p\<lparr>p_rgen := x7\<rparr>) = the_list l p" "the_list l (p\<lparr>p_wgen := x8\<rparr>) = the_list l p"
  by (cases l; simp)+

text \<open>What waking leaves alone.\<close>

lemma wake_all_keeps:
  assumes "wake_all l p = (ws, p')"
  shows "p_buf p' = p_buf p" "p_head p' = p_head p" "p_used p' = p_used p" "p_readers p' = p_readers p"
    "p_writers p' = p_writers p" "p_rgen p' = p_rgen p" "p_wgen p' = p_wgen p"
    "the_list l' p' = (if l' = l then replicate (length (the_list l p)) None else the_list l' p)"
  by (subst wake_all_spec(2) [OF assms], simp)+

lemma pipe_data_cong: "p_buf p' = p_buf p \<Longrightarrow> p_head p' = p_head p \<Longrightarrow> p_used p' = p_used p \<Longrightarrow> pipe_data p' = pipe_data p"
  by (simp add: pipe_data_def)

lemma ring_ok_cong: "p_head p' = p_head p \<Longrightarrow> p_used p' = p_used p \<Longrightarrow> ring_ok p' = ring_ok p"
  by (simp add: ring_ok_def)

lemma wake_data:
  assumes "wake_all l p = (ws, p')"
  shows "pipe_data p' = pipe_data p" "ring_ok p' = ring_ok p"
  by (rule pipe_data_cong ring_ok_cong, (rule wake_all_keeps [OF assms])+)+

lemma wake_lists:
  assumes "wake_all l p = (ws, p')"
  shows "Some w \<notin> set (the_list l p')" "l' \<noteq> l \<Longrightarrow> the_list l' p' = the_list l' p"
  using wake_all_keeps(8) [OF assms, of l] wake_all_keeps(8) [OF assms, of l'] by simp_all

section \<open>The turns\<close>

text \<open>What a turn leaves of the rest of the structure.\<close>

definition same_counts :: "pipe_shared \<Rightarrow> pipe_shared \<Rightarrow> bool" where
  "same_counts p' p \<longleftrightarrow> p_readers p' = p_readers p \<and> p_writers p' = p_writers p \<and> p_rgen p' = p_rgen p \<and> p_wgen p' = p_wgen p"

lemma read_turn_idle:
  assumes "len = 0 \<or> p_used p = 0" "pipe_read_turn len nb intr p = Some (t, ws, p')"
  shows "p' = p" "ws = []" "t = RBlock \<Longrightarrow> p_writers p \<noteq> 0 \<and> p_used p = 0" "t = RReturn (Inr d) \<Longrightarrow> d = []"
  using assms by (auto simp: pipe_read_turn_def split: if_splits)

lemma read_turn_data:
  assumes ok: "ring_ok p" and pos: "len \<noteq> 0" "p_used p > 0" and r: "pipe_read_turn len nb intr p = Some (t, ws, p')"
  shows "ring_ok p'" "same_counts p' p" "p_rwait p' = p_rwait p" "p_owait p' = p_owait p" "Some w \<notin> set (p_wwait p')"
    "set ws = {w. Some w \<in> set (p_wwait p)}" "t = RReturn (Inr (take len (pipe_data p)))"
    "pipe_data p' = drop len (pipe_data p)"
proof -
  from copy_out_spec [OF ok, of "[]" len] obtain p1 where
    p1: "copy_out len [] p = Some (take len (pipe_data p), p1)" "ring_ok p1" "pipe_data p1 = drop len (pipe_data p)"
      "p1 = p\<lparr>p_head := p_head p1, p_used := p_used p1\<rparr>" by auto
  have keep: "p_readers p1 = p_readers p" "p_writers p1 = p_writers p" "p_rgen p1 = p_rgen p" "p_wgen p1 = p_wgen p"
    "p_rwait p1 = p_rwait p" "p_owait p1 = p_owait p" "p_wwait p1 = p_wwait p"
    by (subst p1(4), simp)+
  have w: "wake_all WWait p1 = (ws, p')" and t: "t = RReturn (Inr (take len (pipe_data p)))"
    using r pos p1(1) by (auto simp: pipe_read_turn_def split: prod.splits)
  note k = wake_all_keeps(4-7) [OF w] wake_data [OF w] wake_lists(2) [OF w, of RWait] wake_lists(2) [OF w, of OWait]
  show "ring_ok p'" "same_counts p' p" "p_rwait p' = p_rwait p" "p_owait p' = p_owait p"
    "pipe_data p' = drop len (pipe_data p)"
    using k keep p1(2,3) by (simp_all add: same_counts_def)
  show "Some w \<notin> set (p_wwait p')" "set ws = {w. Some w \<in> set (p_wwait p)}"
    using wake_lists(1) [OF w, of w] wake_all_spec(1) [OF w] keep(7) by simp_all
qed (use r pos copy_out_spec [OF ok, of "[]" len] in \<open>auto simp: pipe_read_turn_def split: prod.splits\<close>)

lemma write_turn_idle:
  assumes "pipe_write_turn src n nb intr p = Some (t, ws, p')" "\<And>k. t \<noteq> WAgain k"
  shows "p' = p" "ws = []"
    "t = WBlock \<Longrightarrow> n < length src \<and> p_readers p \<noteq> 0 \<and> PIPE_BUFSZ - p_used p < (if length src \<le> PIPE_ATOMIC then length src - n else 1)"
    "t = WReturn (Inr k) sp \<Longrightarrow> k = n"
  using assms by (auto simp: pipe_write_turn_def write_part_def not_le split: if_splits option.splits prod.splits)

lemma write_turn_data:
  assumes ok: "ring_ok p" and r: "pipe_write_turn src n nb intr p = Some (WAgain k, ws, p')"
  shows "ring_ok p'" "same_counts p' p" "p_wwait p' = p_wwait p" "p_owait p' = p_owait p" "Some w \<notin> set (p_rwait p')"
    "set ws = {w. Some w \<in> set (p_rwait p)}" "k = n + min (length src - n) (PIPE_BUFSZ - p_used p)"
    "pipe_data p' = pipe_data p @ take (PIPE_BUFSZ - p_used p) (drop n src)" "p_readers p \<noteq> 0" "n < length src"
    "(if length src \<le> PIPE_ATOMIC then length src - n else 1) \<le> PIPE_BUFSZ - p_used p"
proof -
  show lt: "n < length src" "p_readers p \<noteq> 0"
      and room: "(if length src \<le> PIPE_ATOMIC then length src - n else 1) \<le> PIPE_BUFSZ - p_used p"
    using r by (auto simp: pipe_write_turn_def split: if_splits)
  then have "n \<le> length src" by simp
  from copy_in_spec [OF ok this] obtain m p1 where
    p1: "copy_in src n p = Some (m, p1)" "ring_ok p1" "m = n + min (length src - n) (PIPE_BUFSZ - p_used p)"
      "pipe_data p1 = pipe_data p @ take (PIPE_BUFSZ - p_used p) (drop n src)"
      "p1 = p\<lparr>p_buf := p_buf p1, p_used := p_used p1\<rparr>" by blast
  have keep: "p_readers p1 = p_readers p" "p_writers p1 = p_writers p" "p_rgen p1 = p_rgen p" "p_wgen p1 = p_wgen p"
    "p_rwait p1 = p_rwait p" "p_owait p1 = p_owait p" "p_wwait p1 = p_wwait p"
    by (subst p1(5), simp)+
  have w: "wake_all RWait p1 = (ws, p')" and t: "k = m"
    using r lt room p1(1) by (auto simp: pipe_write_turn_def split: prod.splits if_splits)
  note k = wake_all_keeps(4-7) [OF w] wake_data [OF w] wake_lists(2) [OF w, of WWait] wake_lists(2) [OF w, of OWait]
  show "ring_ok p'" "same_counts p' p" "p_wwait p' = p_wwait p" "p_owait p' = p_owait p"
    "pipe_data p' = pipe_data p @ take (PIPE_BUFSZ - p_used p) (drop n src)"
    "k = n + min (length src - n) (PIPE_BUFSZ - p_used p)"
    using k keep p1(2,3,4) t by (simp_all add: same_counts_def)
  show "Some w \<notin> set (p_rwait p')" "set ws = {w. Some w \<in> set (p_rwait p)}"
    using wake_lists(1) [OF w, of w] wake_all_spec(1) [OF w] keep(5) by simp_all
qed

section \<open>Interleaved readers, writers, opens and closes\<close>

text \<open>
  A sleeping task: the table it sleeps on, whether it is listed there, the open end it uses, the
  space a writer needs and the generation an open waits for.
\<close>

record psleeper =
  sl_task :: nat
  sl_list :: plist
  sl_listed :: bool
  sl_h :: nat
  sl_need :: nat
  sl_want :: u64

text \<open>The system: the pipe, its open ends, the sleeping tasks, all bytes written and all bytes read.\<close>

record pipe_sys =
  s_pipe :: pipe_shared
  s_ends :: "(nat \<times> nat) list"
  s_sleep :: "psleeper list"
  s_in :: "u8 list"
  s_out :: "u8 list"

definition awake :: "nat list \<Rightarrow> psleeper list \<Rightarrow> psleeper list" where
  "awake ws sl = filter (\<lambda>w. sl_task w \<notin> set ws) sl"

definition need_of :: "u8 list \<Rightarrow> nat \<Rightarrow> nat" where
  "need_of src n = (if length src \<le> PIPE_ATOMIC then length src - n else 1)"

inductive pipe_run :: "pipe_sys \<Rightarrow> bool" where
  pipe: "pipe_run \<lparr>s_pipe = (pipe_zero buf)\<lparr>p_readers := 1, p_writers := 1\<rparr>, s_ends = [(0, 0), (1, 1)],
           s_sleep = [], s_in = [], s_out = []\<rparr>"
| fifo: "pipe_run \<lparr>s_pipe = (pipe_zero buf)\<lparr>p_is_fifo := True\<rparr>, s_ends = [], s_sleep = [], s_in = [], s_out = []\<rparr>"
| rd: "pipe_run s \<Longrightarrow> (h, e) \<in> set (s_ends s) \<Longrightarrow> e \<noteq> 1 \<Longrightarrow>
    pipe_read_turn len nb intr (s_pipe s) = Some (RReturn r, ws, p) \<Longrightarrow>
    pipe_run (s\<lparr>s_pipe := p, s_sleep := awake ws (s_sleep s),
                s_out := s_out s @ (case r of Inr d \<Rightarrow> d | Inl _ \<Rightarrow> [])\<rparr>)"
| rd_block: "pipe_run s \<Longrightarrow> (h, e) \<in> set (s_ends s) \<Longrightarrow> e \<noteq> 1 \<Longrightarrow> me \<notin> sl_task ` set (s_sleep s) \<Longrightarrow>
    pipe_read_turn len nb intr (s_pipe s) = Some (RBlock, ws, p) \<Longrightarrow> block_enter RWait me p = (listed, p') \<Longrightarrow>
    pipe_run (s\<lparr>s_pipe := p', s_sleep := \<lparr>sl_task = me, sl_list = RWait, sl_listed = listed, sl_h = h,
                                           sl_need = 0, sl_want = 0\<rparr> # awake ws (s_sleep s)\<rparr>)"
| wr: "pipe_run s \<Longrightarrow> (h, e) \<in> set (s_ends s) \<Longrightarrow> e \<noteq> 0 \<Longrightarrow>
    pipe_write_turn src n nb intr (s_pipe s) = Some (WAgain k, ws, p) \<Longrightarrow>
    pipe_run (s\<lparr>s_pipe := p, s_sleep := awake ws (s_sleep s), s_in := s_in s @ take (k - n) (drop n src)\<rparr>)"
| wr_block: "pipe_run s \<Longrightarrow> (h, e) \<in> set (s_ends s) \<Longrightarrow> e \<noteq> 0 \<Longrightarrow> me \<notin> sl_task ` set (s_sleep s) \<Longrightarrow>
    pipe_write_turn src n nb intr (s_pipe s) = Some (WBlock, ws, p) \<Longrightarrow> block_enter WWait me p = (listed, p') \<Longrightarrow>
    pipe_run (s\<lparr>s_pipe := p', s_sleep := \<lparr>sl_task = me, sl_list = WWait, sl_listed = listed, sl_h = h,
                                           sl_need = need_of src n, sl_want = 0\<rparr> # awake ws (s_sleep s)\<rparr>)"
| enter: "pipe_run s \<Longrightarrow> e \<le> 2 \<Longrightarrow> h \<notin> fst ` set (s_ends s) \<Longrightarrow> fifo_enter e (s_pipe s) = (ws, p) \<Longrightarrow>
    pipe_run (s\<lparr>s_pipe := p, s_ends := (h, e) # s_ends s, s_sleep := awake ws (s_sleep s)\<rparr>)"
| open_block: "pipe_run s \<Longrightarrow> (h, e) \<in> set (s_ends s) \<Longrightarrow> e \<noteq> 2 \<Longrightarrow> me \<notin> sl_task ` set (s_sleep s) \<Longrightarrow>
    fifo_open_turn e want intr (s_pipe s) = (OBlock, p) \<Longrightarrow> block_enter OWait me p = (listed, p') \<Longrightarrow>
    pipe_run (s\<lparr>s_pipe := p', s_sleep := \<lparr>sl_task = me, sl_list = OWait, sl_listed = listed, sl_h = h,
                                           sl_need = 0, sl_want = want\<rparr> # s_sleep s\<rparr>)"
| open_cancel: "pipe_run s \<Longrightarrow> (h, e) \<in> set (s_ends s) \<Longrightarrow> e \<noteq> 2 \<Longrightarrow> h \<notin> sl_h ` set (s_sleep s) \<Longrightarrow>
    fifo_open_turn e want intr (s_pipe s) = (OCancel, p) \<Longrightarrow>
    pipe_run (s\<lparr>s_pipe := p, s_ends := remove1 (h, e) (s_ends s)\<rparr>)"
| rouse: "pipe_run s \<Longrightarrow> s_sleep s = xs @ w # ys \<Longrightarrow> pipe_run (s\<lparr>s_sleep := xs @ ys\<rparr>)"
| leave: "pipe_run s \<Longrightarrow> me \<notin> sl_task ` set (s_sleep s) \<Longrightarrow> pipe_run (s\<lparr>s_pipe := block_leave l me (s_pipe s)\<rparr>)"
| close: "pipe_run s \<Longrightarrow> (h, e) \<in> set (s_ends s) \<Longrightarrow> h \<notin> sl_h ` set (s_sleep s) \<Longrightarrow>
    pipe_close e (s_pipe s) = (ws, final, p) \<Longrightarrow>
    pipe_run (s\<lparr>s_pipe := p, s_ends := remove1 (h, e) (s_ends s), s_sleep := awake ws (s_sleep s)\<rparr>)"

section \<open>Invariant\<close>

definition ends_count :: "nat \<Rightarrow> (nat \<times> nat) list \<Rightarrow> int" where
  "ends_count x ends = int (length (filter (\<lambda>(h, e). e \<noteq> x) ends))"

text \<open>Why a task sleeps.\<close>

definition reason :: "psleeper \<Rightarrow> nat \<Rightarrow> pipe_shared \<Rightarrow> bool" where
  "reason w e p =
     (case sl_list w of
        RWait \<Rightarrow> p_used p = 0 \<and> p_writers p > 0
      | WWait \<Rightarrow> PIPE_BUFSZ - p_used p < sl_need w \<and> p_readers p > 0
      | OWait \<Rightarrow> if e = 0 then p_writers p = 0 \<and> p_wgen p = sl_want w else p_readers p = 0 \<and> p_rgen p = sl_want w)"

definition right_end :: "plist \<Rightarrow> nat \<Rightarrow> bool" where
  "right_end l e = (case l of RWait \<Rightarrow> e \<noteq> 1 | WWait \<Rightarrow> e \<noteq> 0 | OWait \<Rightarrow> e \<noteq> 2)"

definition sleeper_ok :: "pipe_shared \<Rightarrow> (nat \<times> nat) list \<Rightarrow> psleeper \<Rightarrow> bool" where
  "sleeper_ok p ends w \<longleftrightarrow>
     (\<exists>e. (sl_h w, e) \<in> set ends \<and> right_end (sl_list w) e \<and>
        (sl_listed w \<longrightarrow> Some (sl_task w) \<in> set (the_list (sl_list w) p) \<and> reason w e p))"

definition pipe_inv :: "pipe_sys \<Rightarrow> bool" where
  "pipe_inv s \<longleftrightarrow> ring_ok (s_pipe s) \<and> p_readers (s_pipe s) = ends_count 1 (s_ends s) \<and>
     p_writers (s_pipe s) = ends_count 0 (s_ends s) \<and> (\<forall>h\<in>set (s_ends s). snd h \<le> 2) \<and> s_in s = s_out s @ pipe_data (s_pipe s) \<and>
     (\<forall>w\<in>set (s_sleep s). sleeper_ok (s_pipe s) (s_ends s) w)"

lemma pipe_invD:
  assumes "pipe_inv s"
  shows "ring_ok (s_pipe s)" "p_readers (s_pipe s) = ends_count 1 (s_ends s)"
    "p_writers (s_pipe s) = ends_count 0 (s_ends s)" "\<forall>h\<in>set (s_ends s). snd h \<le> 2"
    "s_in s = s_out s @ pipe_data (s_pipe s)" "\<And>w. w \<in> set (s_sleep s) \<Longrightarrow> sleeper_ok (s_pipe s) (s_ends s) w"
  using assms by (auto simp: pipe_inv_def)

lemma ends_count_nonneg [simp]: "0 \<le> ends_count x ends"
  by (simp add: ends_count_def)

lemma ends_count_pos: "(h, e) \<in> set ends \<Longrightarrow> e \<noteq> x \<Longrightarrow> 0 < ends_count x ends"
  by (auto simp: ends_count_def filter_empty_conv)

lemma ends_count_Cons [simp]: "ends_count x ((h, e) # ends) = ends_count x ends + (if e = x then 0 else 1)"
  by (simp add: ends_count_def)

lemma ends_count_remove1:
  "(h, e) \<in> set ends \<Longrightarrow> ends_count x (remove1 (h, e) ends) = ends_count x ends - (if e = x then 0 else 1)"
  by (induction ends) (auto simp: ends_count_def)

lemma awake_ok:
  assumes "\<And>w. w \<in> set sl \<Longrightarrow> sleeper_ok p ends w"
    and "\<And>w e. w \<in> set sl \<Longrightarrow> (sl_h w, e) \<in> set ends \<Longrightarrow> (sl_h w, e) \<in> set ends'"
    and "\<And>w e. w \<in> set sl \<Longrightarrow> sl_task w \<notin> set ws \<Longrightarrow> (sl_h w, e) \<in> set ends \<Longrightarrow> right_end (sl_list w) e \<Longrightarrow>
      Some (sl_task w) \<in> set (the_list (sl_list w) p) \<Longrightarrow> reason w e p \<Longrightarrow>
      Some (sl_task w) \<in> set (the_list (sl_list w) p') \<and> reason w e p'"
  shows "\<forall>w\<in>set (awake ws sl). sleeper_ok p' ends' w"
proof
  fix w assume "w \<in> set (awake ws sl)"
  then have w: "w \<in> set sl" "sl_task w \<notin> set ws" by (simp_all add: awake_def)
  then obtain e where e: "(sl_h w, e) \<in> set ends" "right_end (sl_list w) e"
      "sl_listed w \<longrightarrow> Some (sl_task w) \<in> set (the_list (sl_list w) p) \<and> reason w e p"
    using assms(1) unfolding sleeper_ok_def by blast
  then show "sleeper_ok p' ends' w"
    unfolding sleeper_ok_def using assms(2) [OF w(1) e(1)] assms(3) [OF w e(1,2)] by blast
qed

lemma awake_nil [simp]: "awake [] sl = sl" by (simp add: awake_def)

lemma block_enter_spec:
  assumes "block_enter l me p = (listed, p')"
  shows "Some u \<in> set (the_list l' p') \<longleftrightarrow> Some u \<in> set (the_list l' p) \<or> l' = l \<and> listed \<and> u = me"
    and "same_counts p' p" "p_used p' = p_used p" "ring_ok p' = ring_ok p" "pipe_data p' = pipe_data p"
proof -
  obtain tab where t: "tab_add me (the_list l p) = (listed, tab)" "p' = put_list l tab p"
    using assms by (auto simp: block_enter_def add_waiter_def split: prod.splits)
  show "Some u \<in> set (the_list l' p') \<longleftrightarrow> Some u \<in> set (the_list l' p) \<or> l' = l \<and> listed \<and> u = me"
    using tab_add_mem [OF t(1)] by (simp add: t(2))
  show "same_counts p' p" "p_used p' = p_used p" "ring_ok p' = ring_ok p" "pipe_data p' = pipe_data p"
    by (simp_all add: t(2) same_counts_def ring_ok_def pipe_data_def)
qed

lemma reason_same: "same_counts p' p \<Longrightarrow> p_used p' = p_used p \<Longrightarrow> reason w e p' = reason w e p"
  by (simp add: reason_def same_counts_def split: plist.split)

text \<open>A task goes to sleep.\<close>

lemma block_inv:
  assumes inv: "pipe_inv s" and b: "block_enter l me (s_pipe s) = (listed, p')"
    and w: "sl_task w = me" "sl_list w = l" "sl_listed w = listed" "(sl_h w, e) \<in> set (s_ends s)" "right_end l e"
      "reason w e (s_pipe s)"
  shows "pipe_inv (s\<lparr>s_pipe := p', s_sleep := w # s_sleep s\<rparr>)"
proof -
  note d = pipe_invD [OF inv] and k = block_enter_spec [OF b]
  have "\<forall>v\<in>set (awake [] (s_sleep s)). sleeper_ok p' (s_ends s) v"
    by (rule awake_ok [where p = "s_pipe s"]) (use d(6) k(1) reason_same [OF k(2,3)] in auto)
  moreover have "sleeper_ok p' (s_ends s) w"
    using w k(1) [of me l] reason_same [OF k(2,3)] by (auto simp: sleeper_ok_def)
  ultimately show ?thesis
    using d k by (auto simp: pipe_inv_def same_counts_def)
qed

lemma rd_inv:
  assumes inv: "pipe_inv s" and r: "pipe_read_turn len nb intr (s_pipe s) = Some (RReturn r, ws, p)"
  shows "pipe_inv (s\<lparr>s_pipe := p, s_sleep := awake ws (s_sleep s), s_out := s_out s @ (case r of Inr d \<Rightarrow> d | Inl _ \<Rightarrow> [])\<rparr>)"
proof (cases "len = 0 \<or> p_used (s_pipe s) = 0")
  case True
  note i = read_turn_idle [OF True r]
  have "(case r of Inr d \<Rightarrow> d | Inl _ \<Rightarrow> []) = []" using i(4) by (cases r) auto
  with i(1,2) inv show ?thesis by (simp add: pipe_inv_def)
next
  case False
  note d = pipe_invD [OF inv]
  have pos: "len \<noteq> 0" "0 < p_used (s_pipe s)" using False by auto
  note k = read_turn_data [OF d(1) pos r]
  have "\<forall>w\<in>set (awake ws (s_sleep s)). sleeper_ok p (s_ends s) w"
  proof (rule awake_ok [where p = "s_pipe s"])
    fix w e assume "sl_task w \<notin> set ws" "Some (sl_task w) \<in> set (the_list (sl_list w) (s_pipe s))" "reason w e (s_pipe s)"
    then show "Some (sl_task w) \<in> set (the_list (sl_list w) p) \<and> reason w e p"
      using k(2-6) pos by (cases "sl_list w") (auto simp: reason_def same_counts_def)
  qed (use d(6) in auto)
  moreover have "take len (pipe_data (s_pipe s)) @ pipe_data p = pipe_data (s_pipe s)" using k(8) by simp
  ultimately show ?thesis using d k(1,2,7) by (simp add: pipe_inv_def same_counts_def)
qed

lemma wr_inv:
  assumes inv: "pipe_inv s" and r: "pipe_write_turn src n nb intr (s_pipe s) = Some (WAgain m, ws, p)"
  shows "pipe_inv (s\<lparr>s_pipe := p, s_sleep := awake ws (s_sleep s), s_in := s_in s @ take (m - n) (drop n src)\<rparr>)"
proof -
  note d = pipe_invD [OF inv]
  note k = write_turn_data [OF d(1) r]
  have "length (pipe_data p) \<ge> length (pipe_data (s_pipe s))" unfolding k(8) by simp
  then have used: "p_used p \<ge> p_used (s_pipe s)" by simp
  have "\<forall>w\<in>set (awake ws (s_sleep s)). sleeper_ok p (s_ends s) w"
  proof (rule awake_ok [where p = "s_pipe s"])
    fix w e assume "sl_task w \<notin> set ws" "Some (sl_task w) \<in> set (the_list (sl_list w) (s_pipe s))" "reason w e (s_pipe s)"
    then show "Some (sl_task w) \<in> set (the_list (sl_list w) p) \<and> reason w e p"
      using k(2-6) used by (cases "sl_list w") (auto simp: reason_def same_counts_def)
  qed (use d(6) in auto)
  moreover have "take (m - n) (drop n src) = take (PIPE_BUFSZ - p_used (s_pipe s)) (drop n src)"
    unfolding k(7) by (simp add: min_def)
  ultimately show ?thesis using d k(1,2,8) by (simp add: pipe_inv_def same_counts_def)
qed

lemma fifo_enter_spec:
  assumes "fifo_enter e p = (ws, p')"
  shows "p_readers p' = p_readers p + (if e = 1 then 0 else 1)" "p_writers p' = p_writers p + (if e = 0 then 0 else 1)"
    "ring_ok p' = ring_ok p" "pipe_data p' = pipe_data p" "Some t \<in> set (the_list l p) \<Longrightarrow> t \<in> set ws"
proof -
  let ?p1 = "if e \<noteq> 1 then p\<lparr>p_readers := p_readers p + 1, p_rgen := p_rgen p + 1\<rparr> else p"
  let ?p2 = "if e \<noteq> 0 then ?p1\<lparr>p_writers := p_writers ?p1 + 1, p_wgen := p_wgen ?p1 + 1\<rparr> else ?p1"
  define p2 where "p2 = ?p2"
  obtain ws1 p3 ws2 p4 ws3 where w: "wake_all OWait p2 = (ws1, p3)" "wake_all RWait p3 = (ws2, p4)"
      "wake_all WWait p4 = (ws3, p')" "ws = ws1 @ ws2 @ ws3"
    using assms unfolding fifo_enter_def Let_def p2_def [symmetric] by (auto split: prod.splits)
  note k = wake_all_keeps(4,5) [OF w(1)] wake_all_keeps(4,5) [OF w(2)] wake_all_keeps(4,5) [OF w(3)]
    wake_data [OF w(1)] wake_data [OF w(2)] wake_data [OF w(3)]
  have p2: "p_readers p2 = p_readers p + (if e = 1 then 0 else 1)" "p_writers p2 = p_writers p + (if e = 0 then 0 else 1)"
    "ring_ok p2 = ring_ok p" "pipe_data p2 = pipe_data p" "the_list l p2 = the_list l p" for l
    by (auto simp: p2_def ring_ok_def pipe_data_def)
  show "p_readers p' = p_readers p + (if e = 1 then 0 else 1)" "p_writers p' = p_writers p + (if e = 0 then 0 else 1)"
    "ring_ok p' = ring_ok p" "pipe_data p' = pipe_data p"
    using k p2(1-4) by simp_all
  show "t \<in> set ws" if "Some t \<in> set (the_list l p)"
    using that wake_all_spec(1) [OF w(1)] wake_all_spec(1) [OF w(2)] wake_all_spec(1) [OF w(3)] p2(5)
      wake_lists(2) [OF w(1), of RWait] wake_lists(2) [OF w(1), of WWait] wake_lists(2) [OF w(2), of WWait] w(4)
    by (cases l) simp_all
qed

lemma enter_inv:
  assumes inv: "pipe_inv s" and e: "e \<le> 2" "fifo_enter e (s_pipe s) = (ws, p)"
  shows "pipe_inv (s\<lparr>s_pipe := p, s_ends := (h, e) # s_ends s, s_sleep := awake ws (s_sleep s)\<rparr>)"
proof -
  note d = pipe_invD [OF inv] and k = fifo_enter_spec [OF e(2)]
  have "\<forall>w\<in>set (awake ws (s_sleep s)). sleeper_ok p ((h, e) # s_ends s) w"
    by (rule awake_ok [where p = "s_pipe s"]) (use d(6) k(5) in auto)
  then show ?thesis using d k(1-4) e(1) by (auto simp: pipe_inv_def)
qed

lemma open_turn_cases:
  assumes "fifo_open_turn e want intr p = (t, p')" "e \<noteq> 2" "0 \<le> p_readers p" "0 \<le> p_writers p"
  shows "t = OBlock \<Longrightarrow> p' = p \<and> (if e = 0 then p_writers p = 0 \<and> p_wgen p = want else p_readers p = 0 \<and> p_rgen p = want)"
    and "t = OCancel \<Longrightarrow> (if e = 0 then p_writers p = 0 \<and> p' = p\<lparr>p_readers := p_readers p - 1\<rparr>
      else p_readers p = 0 \<and> p' = p\<lparr>p_writers := p_writers p - 1\<rparr>)"
  using assms by (auto simp: fifo_open_turn_def Let_def split: if_splits)

lemma cancel_inv:
  assumes inv: "pipe_inv s" and h: "(h, e) \<in> set (s_ends s)" "e \<noteq> 2" "h \<notin> sl_h ` set (s_sleep s)"
    and t: "fifo_open_turn e want intr (s_pipe s) = (OCancel, p)"
  shows "pipe_inv (s\<lparr>s_pipe := p, s_ends := remove1 (h, e) (s_ends s)\<rparr>)"
proof -
  note d = pipe_invD [OF inv]
  have e: "e = 0 \<or> e = 1" using d(4) h(1,2) by fastforce
  have c: "if e = 0 then p_writers (s_pipe s) = 0 \<and> p = (s_pipe s)\<lparr>p_readers := p_readers (s_pipe s) - 1\<rparr>
      else p_readers (s_pipe s) = 0 \<and> p = (s_pipe s)\<lparr>p_writers := p_writers (s_pipe s) - 1\<rparr>"
    using open_turn_cases(2) [OF t h(2)] d(2,3) by simp
  have no: "x \<noteq> y" if "(g, x) \<in> set (s_ends s)" "if e = 0 then y = 1 \<or> y = 2 else y = 0 \<or> y = 2" for g x y
    using ends_count_pos [OF that(1), of 0] ends_count_pos [OF that(1), of 1] c d(2,3) e that(2) by (auto split: if_splits)
  have "\<forall>w\<in>set (awake [] (s_sleep s)). sleeper_ok p (remove1 (h, e) (s_ends s)) w"
  proof (rule awake_ok [where p = "s_pipe s"])
    fix w x assume w: "w \<in> set (s_sleep s)" "(sl_h w, x) \<in> set (s_ends s)"
    then show "(sl_h w, x) \<in> set (remove1 (h, e) (s_ends s))" using h(3) by (auto simp: image_iff)
    assume r: "right_end (sl_list w) x" "Some (sl_task w) \<in> set (the_list (sl_list w) (s_pipe s))" "reason w x (s_pipe s)"
    have "x \<le> 2" using d(4) w(2) by fastforce
    then have "x = e" using no [OF w(2)] e by (cases "e = 0") (auto simp: numeral_2_eq_2 le_Suc_eq)
    with r c e show "Some (sl_task w) \<in> set (the_list (sl_list w) p) \<and> reason w x p"
      by (cases "sl_list w") (auto simp: reason_def right_end_def split: if_splits)
  qed (use d(6) in auto)
  then show ?thesis
    using d c e ends_count_remove1 [OF h(1), of 0] ends_count_remove1 [OF h(1), of 1]
    by (auto simp: pipe_inv_def ring_ok_def pipe_data_def dest!: set_remove1_subset [THEN subsetD] split: if_splits)
qed

lemma close_spec:
  assumes "pipe_close e p = (ws, final, p')"
  shows "p_readers p' = p_readers p - (if e = 1 then 0 else 1)" "p_writers p' = p_writers p - (if e = 0 then 0 else 1)"
    "ring_ok p' = ring_ok p" "pipe_data p' = pipe_data p" "p_rgen p' = p_rgen p" "p_wgen p' = p_wgen p" "p_used p' = p_used p"
    "final \<longleftrightarrow> p_readers p' \<le> 0 \<and> p_writers p' \<le> 0"
    "p_owait p' = p_owait p"
    "p_readers p' = 0 \<Longrightarrow> Some t \<in> set (p_wwait p) \<Longrightarrow> t \<in> set ws" "p_readers p' \<noteq> 0 \<Longrightarrow> p_wwait p' = p_wwait p"
    "p_writers p' = 0 \<Longrightarrow> Some t \<in> set (p_rwait p) \<Longrightarrow> t \<in> set ws" "p_writers p' \<noteq> 0 \<Longrightarrow> p_rwait p' = p_rwait p"
proof -
  let ?p1 = "if e \<noteq> 1 then p\<lparr>p_readers := p_readers p - 1\<rparr> else p"
  let ?p2 = "if e \<noteq> 0 then ?p1\<lparr>p_writers := p_writers ?p1 - 1\<rparr> else ?p1"
  define p2 where "p2 = ?p2"
  obtain ws1 p3 ws2 where w: "(if p_readers p2 = 0 then wake_all WWait p2 else ([], p2)) = (ws1, p3)"
      "(if p_writers p2 = 0 then wake_all RWait p3 else ([], p3)) = (ws2, p')" "ws = ws1 @ ws2"
      "final \<longleftrightarrow> p_readers p2 \<le> 0 \<and> p_writers p2 \<le> 0"
    using assms unfolding pipe_close_def Let_def p2_def [symmetric] by (auto split: prod.splits)
  have p2: "p_readers p2 = p_readers p - (if e = 1 then 0 else 1)" "p_writers p2 = p_writers p - (if e = 0 then 0 else 1)"
    "ring_ok p2 = ring_ok p" "pipe_data p2 = pipe_data p" "p_rgen p2 = p_rgen p" "p_wgen p2 = p_wgen p" "p_used p2 = p_used p"
    "the_list l p2 = the_list l p" for l
    by (auto simp: p2_def ring_ok_def pipe_data_def)
  have p3: "p_readers p3 = p_readers p2 \<and> p_writers p3 = p_writers p2 \<and> ring_ok p3 = ring_ok p2 \<and> pipe_data p3 = pipe_data p2 \<and>
      p_rgen p3 = p_rgen p2 \<and> p_wgen p3 = p_wgen p2 \<and> p_used p3 = p_used p2 \<and> p_owait p3 = p_owait p2 \<and> p_rwait p3 = p_rwait p2 \<and>
      (if p_readers p2 = 0 then set ws1 = {t. Some t \<in> set (p_wwait p2)} else p_wwait p3 = p_wwait p2)"
  proof (cases "p_readers p2 = 0")
    case True
    then have x: "wake_all WWait p2 = (ws1, p3)" using w(1) by simp
    show ?thesis using True wake_all_keeps(3-7) [OF x] wake_data [OF x] wake_lists(2) [OF x, of OWait] wake_lists(2) [OF x, of RWait]
        wake_all_spec(1) [OF x] by simp
  qed (use w(1) in auto)
  have p4: "p_readers p' = p_readers p3 \<and> p_writers p' = p_writers p3 \<and> ring_ok p' = ring_ok p3 \<and> pipe_data p' = pipe_data p3 \<and>
      p_rgen p' = p_rgen p3 \<and> p_wgen p' = p_wgen p3 \<and> p_used p' = p_used p3 \<and> p_owait p' = p_owait p3 \<and> p_wwait p' = p_wwait p3 \<and>
      (if p_writers p2 = 0 then set ws2 = {t. Some t \<in> set (p_rwait p3)} else p_rwait p' = p_rwait p3)"
  proof (cases "p_writers p2 = 0")
    case True
    then have x: "wake_all RWait p3 = (ws2, p')" using w(2) by simp
    show ?thesis using True wake_all_keeps(3-7) [OF x] wake_data [OF x] wake_lists(2) [OF x, of OWait] wake_lists(2) [OF x, of WWait]
        wake_all_spec(1) [OF x] by simp
  qed (use w(2) in auto)
  note l = p2(8) [of RWait] p2(8) [of WWait] p2(8) [of OWait]
  show "p_readers p' = p_readers p - (if e = 1 then 0 else 1)" "p_writers p' = p_writers p - (if e = 0 then 0 else 1)"
    "ring_ok p' = ring_ok p" "pipe_data p' = pipe_data p" "p_rgen p' = p_rgen p" "p_wgen p' = p_wgen p" "p_used p' = p_used p"
    "final \<longleftrightarrow> p_readers p' \<le> 0 \<and> p_writers p' \<le> 0" "p_owait p' = p_owait p"
    "p_readers p' = 0 \<Longrightarrow> Some t \<in> set (p_wwait p) \<Longrightarrow> t \<in> set ws" "p_readers p' \<noteq> 0 \<Longrightarrow> p_wwait p' = p_wwait p"
    "p_writers p' = 0 \<Longrightarrow> Some t \<in> set (p_rwait p) \<Longrightarrow> t \<in> set ws" "p_writers p' \<noteq> 0 \<Longrightarrow> p_rwait p' = p_rwait p"
    using p2(1-7) p3 p4 l w(3,4) by simp_all
qed

lemma close_inv:
  assumes inv: "pipe_inv s" and h: "(h, e) \<in> set (s_ends s)" "h \<notin> sl_h ` set (s_sleep s)"
    and c: "pipe_close e (s_pipe s) = (ws, final, p)"
  shows "pipe_inv (s\<lparr>s_pipe := p, s_ends := remove1 (h, e) (s_ends s), s_sleep := awake ws (s_sleep s)\<rparr>)"
proof -
  note d = pipe_invD [OF inv] and k = close_spec [OF c]
  have cnt: "p_readers p = ends_count 1 (remove1 (h, e) (s_ends s))" "p_writers p = ends_count 0 (remove1 (h, e) (s_ends s))"
    using k(1,2) d(2,3) ends_count_remove1 [OF h(1)] by simp_all
  have "\<forall>w\<in>set (awake ws (s_sleep s)). sleeper_ok p (remove1 (h, e) (s_ends s)) w"
  proof (rule awake_ok [where p = "s_pipe s"])
    fix w x assume w: "w \<in> set (s_sleep s)" "(sl_h w, x) \<in> set (s_ends s)"
    then show "(sl_h w, x) \<in> set (remove1 (h, e) (s_ends s))" using h(2) by (auto simp: image_iff)
    assume r: "sl_task w \<notin> set ws" "right_end (sl_list w) x" "Some (sl_task w) \<in> set (the_list (sl_list w) (s_pipe s))"
      "reason w x (s_pipe s)"
    have nn: "0 \<le> p_readers p" "0 \<le> p_writers p" by (simp_all add: cnt)
    show "Some (sl_task w) \<in> set (the_list (sl_list w) p) \<and> reason w x p"
    proof (cases "sl_list w")
      case RWait
      then have "p_writers p \<noteq> 0" using k(12) r(1,3) by auto
      then show ?thesis using RWait k(7,13) r(3,4) nn by (simp add: reason_def)
    next
      case WWait
      then have "p_readers p \<noteq> 0" using k(10) r(1,3) by auto
      then show ?thesis using WWait k(7,11) r(3,4) nn by (simp add: reason_def)
    next
      case OWait
      then show ?thesis using k(1,2,5,6,9) r(3,4) nn by (auto simp: reason_def split: if_splits)
    qed
  qed (use d(6) in auto)
  then show ?thesis
    using d k(3,4) cnt by (auto simp: pipe_inv_def dest!: set_remove1_subset [THEN subsetD])
qed

lemma pipe_run_inv: "pipe_run s \<Longrightarrow> pipe_inv s"
proof (induction rule: pipe_run.induct)
  case (pipe buf)
  show ?case by (simp add: pipe_inv_def ring_ok_def pipe_zero_def ends_count_def pipe_data_def)
next
  case (fifo buf)
  show ?case by (simp add: pipe_inv_def ring_ok_def pipe_zero_def ends_count_def pipe_data_def)
next
  case (rd s h e len nb intr r ws p)
  show ?case by (rule rd_inv [OF rd.IH rd.hyps(4)])
next
  case (rd_block s h e me len nb intr ws p listed p')
  have idle: "len = 0 \<or> p_used (s_pipe s) = 0"
    using rd_block.hyps(5) read_turn_data(7) [OF pipe_invD(1) [OF rd_block.IH] _ _ rd_block.hyps(5)] by blast
  note i = read_turn_idle [OF idle rd_block.hyps(5)]
  have "0 < p_writers (s_pipe s)"
    using i(3) [OF refl] pipe_invD(3) [OF rd_block.IH] ends_count_nonneg [of 0 "s_ends s"] by linarith
  with i rd_block.hyps block_inv [OF rd_block.IH, of RWait me listed p'
      "\<lparr>sl_task = me, sl_list = RWait, sl_listed = listed, sl_h = h, sl_need = 0, sl_want = 0\<rparr>" e]
  show ?case by (simp add: right_end_def reason_def)
next
  case (wr s h e src n nb intr k ws p)
  show ?case by (rule wr_inv [OF wr.IH wr.hyps(4)])
next
  case (wr_block s h e me src n nb intr ws p listed p')
  have na: "WBlock \<noteq> WAgain k" for k by simp
  note i = write_turn_idle [OF wr_block.hyps(5) na]
  have "0 < p_readers (s_pipe s)"
    using i(3) [OF refl] pipe_invD(2) [OF wr_block.IH] ends_count_nonneg [of 1 "s_ends s"] by linarith
  with i wr_block.hyps block_inv [OF wr_block.IH, of WWait me listed p'
      "\<lparr>sl_task = me, sl_list = WWait, sl_listed = listed, sl_h = h, sl_need = need_of src n, sl_want = 0\<rparr>" e]
  show ?case by (simp add: right_end_def reason_def need_of_def)
next
  case (enter s e h ws p)
  show ?case by (rule enter_inv [OF enter.IH enter.hyps(2,4)])
next
  case (open_block s h e me want intr p listed p')
  note d = pipe_invD [OF open_block.IH]
  have "p = s_pipe s \<and> (if e = 0 then p_writers p = 0 \<and> p_wgen p = want else p_readers p = 0 \<and> p_rgen p = want)"
    using open_turn_cases(1) [OF open_block.hyps(5,3)] d(2,3) by auto
  with open_block.hyps block_inv [OF open_block.IH, of OWait me listed p'
      "\<lparr>sl_task = me, sl_list = OWait, sl_listed = listed, sl_h = h, sl_need = 0, sl_want = want\<rparr>" e]
  show ?case by (auto simp: right_end_def reason_def split: if_splits)
next
  case (open_cancel s h e want intr p)
  show ?case by (rule cancel_inv [OF open_cancel.IH open_cancel.hyps(2-5)])
next
  case (rouse s xs w ys)
  then show ?case by (auto simp: pipe_inv_def)
next
  case (leave s me l)
  note d = pipe_invD [OF leave.IH]
  have "\<forall>w\<in>set (awake [] (s_sleep s)). sleeper_ok (block_leave l me (s_pipe s)) (s_ends s) w"
    by (rule awake_ok [where p = "s_pipe s"])
      (use d(6) leave.hyps(2) in \<open>auto simp: block_leave_def drop_waiter_def tab_del_mem image_iff reason_def split: plist.splits\<close>)
  with d show ?case by (simp add: pipe_inv_def block_leave_def ring_ok_def pipe_data_def)
next
  case (close s h e ws final p)
  show ?case by (rule close_inv [OF close.IH close.hyps(2-4)])
qed

section \<open>Properties\<close>

text \<open>C7. Under every interleaving of readers, writers, opens and closes of a pipe or FIFO, the bytes
  read so far followed by the bytes in the buffer are exactly the bytes written, in order, and the
  counts of readers and writers are the numbers of open ends.\<close>

theorem pipe_stream:
  assumes "pipe_run s"
  shows "s_in s = s_out s @ pipe_data (s_pipe s) \<and> length (pipe_data (s_pipe s)) \<le> PIPE_BUFSZ \<and>
    p_readers (s_pipe s) = ends_count 1 (s_ends s) \<and> p_writers (s_pipe s) = ends_count 0 (s_ends s)"
  using pipe_invD [OF pipe_run_inv [OF assms]] by (simp add: ring_ok_def)

text \<open>C8. No wake-up is lost: a reader that sleeps without a time-out sees an empty pipe with a writer, a
  writer one without the space it needs and with a reader, and an open of a FIFO has no peer and none
  came since it began to wait.\<close>

theorem pipe_no_lost_wakeup:
  assumes "pipe_run s" "w \<in> set (s_sleep s)" "sl_listed w"
  shows "Some (sl_task w) \<in> set (the_list (sl_list w) (s_pipe s)) \<and>
    (case sl_list w of
       RWait \<Rightarrow> p_used (s_pipe s) = 0 \<and> p_writers (s_pipe s) > 0
     | WWait \<Rightarrow> PIPE_BUFSZ - p_used (s_pipe s) < sl_need w \<and> p_readers (s_pipe s) > 0
     | OWait \<Rightarrow> p_writers (s_pipe s) = 0 \<and> p_wgen (s_pipe s) = sl_want w \<or>
                p_readers (s_pipe s) = 0 \<and> p_rgen (s_pipe s) = sl_want w)"
proof -
  obtain e where e: "right_end (sl_list w) e" "Some (sl_task w) \<in> set (the_list (sl_list w) (s_pipe s))" "reason w e (s_pipe s)"
    using pipe_invD(6) [OF pipe_run_inv [OF assms(1)] assms(2)] assms(3) by (auto simp: sleeper_ok_def)
  then show ?thesis by (cases "sl_list w") (auto simp: reason_def split: if_splits)
qed

text \<open>C31. A write of at most PIPE_ATOMIC bytes is atomic: a turn puts all its bytes, adjacent, at the end
  of the pipe or none of them.\<close>

theorem pipe_write_atomic:
  assumes "ring_ok p" "src \<noteq> []" "length src \<le> PIPE_ATOMIC"
    and "pipe_write_turn src 0 nb intr p = Some (t, ws, p')"
  shows "t = WAgain (length src) \<and> pipe_data p' = pipe_data p @ src \<or>
    p' = p \<and> (t = WBlock \<or> (\<exists>e sig. t = WReturn (Inl e) sig))"
proof (cases t)
  case (WAgain k)
  note d = write_turn_data [OF assms(1) assms(4) [unfolded WAgain]]
  have "length src \<le> PIPE_BUFSZ - p_used p" using d(11) assms(3) by simp
  then show ?thesis using d(7,8) WAgain by simp
next
  case (WReturn r sig)
  then have "\<And>k. t \<noteq> WAgain k" by simp
  note i = write_turn_idle [OF assms(4) this]
  have "\<exists>e. r = Inl e" using assms(2,4) WReturn by (auto simp: pipe_write_turn_def write_part_def split: if_splits option.splits prod.splits)
  then show ?thesis using i(1) WReturn by auto
next
  case WBlock
  then have "\<And>k. t \<noteq> WAgain k" by simp
  then show ?thesis using write_turn_idle(1) [OF assms(4)] WBlock by blast
qed

lemma turns_total:
  assumes "ring_ok p"
  shows "\<exists>t ws p'. pipe_read_turn len nb intr p = Some (t, ws, p') \<and>
      (len \<noteq> 0 \<longrightarrow> p_used p \<noteq> 0 \<longrightarrow> t = RReturn (Inr (take len (pipe_data p))) \<and> pipe_data p' = drop len (pipe_data p))"
    and "\<exists>x. pipe_write_turn src n nb intr p = Some x"
proof -
  have "\<exists>x. pipe_read_turn len nb intr p = Some x"
    using copy_out_spec [OF assms, of "[]" len] by (auto simp: pipe_read_turn_def split: prod.splits)
  then obtain t ws p' where r: "pipe_read_turn len nb intr p = Some (t, ws, p')" by (metis surj_pair)
  then show "\<exists>t ws p'. pipe_read_turn len nb intr p = Some (t, ws, p') \<and>
      (len \<noteq> 0 \<longrightarrow> p_used p \<noteq> 0 \<longrightarrow> t = RReturn (Inr (take len (pipe_data p))) \<and> pipe_data p' = drop len (pipe_data p))"
    using read_turn_data(7,8) [OF assms _ _ r] by (intro exI [of _ t] exI [of _ ws] exI [of _ p']) simp
  show "\<exists>x. pipe_write_turn src n nb intr p = Some x"
    using copy_in_spec [OF assms, of n src] by (cases "n < length src") (auto simp: pipe_write_turn_def split: prod.splits)
qed

text \<open>C37. The copying loops end: a turn of a read or write on a well-formed ring always has a result; a
  read of a non-empty pipe returns the oldest bytes, as many as asked for or all there are, and
  removes exactly these.\<close>

theorem pipe_turns_total:
  assumes "ring_ok p"
  shows "(\<exists>t ws p'. pipe_read_turn len nb intr p = Some (t, ws, p') \<and>
      (len \<noteq> 0 \<longrightarrow> p_used p \<noteq> 0 \<longrightarrow> t = RReturn (Inr (take len (pipe_data p))) \<and> pipe_data p' = drop len (pipe_data p))) \<and>
    (\<exists>x. pipe_write_turn src n nb intr p = Some x)"
  using turns_total [OF assms] by simp

text \<open>C32. Two interrupted opens of a FIFO race: both leave the counts before either returns to the lock
  of the list, the first of them then frees the FIFO, and the second takes the lock inside the freed
  structure.\<close>

theorem fifo_open_cancel_use_after_free:
  assumes "p_readers p = 2" "p_writers p = 0"
    and "fifo_open_turn 0 (p_wgen p) True p = (t1, p1)" "fifo_open_turn 0 (p_wgen p) True p1 = (t2, p2)"
  shows "t1 = OCancel \<and> t2 = OCancel \<and>
    (\<exists>w'. fifo_open_cancel a (w\<lparr>pw_heap := (pw_heap w)(a := Some p2)\<rparr>) = Some w' \<and> fifo_open_cancel a w' = None)"
proof -
  have "p1 = p\<lparr>p_readers := 1\<rparr>" "t1 = OCancel" using assms(1-3) by (simp_all add: fifo_open_turn_def Let_def)
  moreover have "p2 = p\<lparr>p_readers := 0\<rparr>" "t2 = OCancel"
    using assms(2,4) calculation by (simp_all add: fifo_open_turn_def Let_def)
  ultimately show ?thesis using assms(2) by (simp add: fifo_open_cancel_def fifo_release_unused_def)
qed

text \<open>When the descriptor table has room for one descriptor only, pipe reports EMFILE but keeps the
  pipe allocated with a writer that no descriptor refers to.\<close>

theorem sys_pipe_leaks:
  assumes "0 \<le> rfd" "wfd < 0"
  shows "\<exists>w' p. sys_pipe True True (Some (a, buf)) True True rfd wfd w = (Inl EMFILE, w') \<and>
    pw_heap w' a = Some p \<and> p_readers p = 0 \<and> p_writers p = 1"
proof -
  let ?p = "(pipe_zero buf)\<lparr>p_readers := 1, p_writers := 1\<rparr>"
  obtain ws final p where c: "pipe_close 0 ?p = (ws, final, p)" by (metis prod_cases3)
  note k = close_spec [OF c]
  have r: "p_readers p = 0" "p_writers p = 1" using k(1,2) by simp_all
  then have "\<not> final" using k(8) by simp
  with c r assms show ?thesis by (simp add: sys_pipe_def pipe_unref_def Let_def)
qed

section \<open>Examples\<close>

definition pipe_new :: pipe_shared where
  "pipe_new = (pipe_zero (\<lambda>_. 0))\<lparr>p_readers := 1, p_writers := 1\<rparr>"

definition pipe_sys_new :: pipe_sys where
  "pipe_sys_new = \<lparr>s_pipe = pipe_new, s_ends = [(0, 0), (1, 1)], s_sleep = [], s_in = [], s_out = []\<rparr>"

definition reader7 :: psleeper where
  "reader7 = \<lparr>sl_task = 7, sl_list = RWait, sl_listed = True, sl_h = 0, sl_need = 0, sl_want = 0\<rparr>"

definition pipe_waiting :: pipe_sys where
  "pipe_waiting = pipe_sys_new\<lparr>s_pipe := snd (block_enter RWait 7 pipe_new), s_sleep := [reader7]\<rparr>"

lemma pipe_sys_new_run: "pipe_run pipe_sys_new"
  unfolding pipe_sys_new_def pipe_new_def by (rule pipe_run.pipe)

lemma pipe_waiting_run: "pipe_run pipe_waiting"
proof -
  have r: "pipe_read_turn 10 False False (s_pipe pipe_sys_new) = Some (RBlock, [], pipe_new)"
    by (simp add: pipe_read_turn_def pipe_sys_new_def pipe_new_def pipe_zero_def)
  have b: "block_enter RWait 7 pipe_new = (True, snd (block_enter RWait 7 pipe_new))"
    by (simp add: block_enter_def add_waiter_def pipe_new_def pipe_zero_def tab_add_def PIPE_WAITERS_def)
  from pipe_run.rd_block [OF pipe_sys_new_run _ _ _ r b, of 0 0] show ?thesis
    by (simp add: pipe_sys_new_def pipe_waiting_def reader7_def)
qed

lemma pipe_new_ok: "ring_ok pipe_new" "pipe_data pipe_new = []"
  by (simp_all add: ring_ok_def pipe_new_def pipe_zero_def pipe_data_def)

lemma pipe_new_write: "\<exists>ws p'. pipe_write_turn [1, 2, 3] 0 False False pipe_new = Some (WAgain 3, ws, p')"
  using copy_in_spec [OF pipe_new_ok(1), of 0 "[1, 2, 3]"]
  by (auto simp: pipe_write_turn_def pipe_new_def pipe_zero_def PIPE_BUFSZ_def PIPE_ATOMIC_def split: prod.splits)

theorem pipe_stream_witness: "s_in pipe_waiting = s_out pipe_waiting @ pipe_data (s_pipe pipe_waiting)"
  using pipe_stream [OF pipe_waiting_run] by blast

theorem pipe_no_lost_wakeup_witness:
  "p_used (s_pipe pipe_waiting) = 0 \<and> p_writers (s_pipe pipe_waiting) > 0 \<and> Some 7 \<in> set (p_rwait (s_pipe pipe_waiting))"
  using pipe_no_lost_wakeup [OF pipe_waiting_run, of reader7] by (simp add: pipe_waiting_def reader7_def)

theorem pipe_write_atomic_witness:
  "\<exists>ws p'. pipe_write_turn [1, 2, 3] 0 False False pipe_new = Some (WAgain 3, ws, p') \<and> pipe_data p' = [1, 2, 3]"
proof -
  obtain ws p' where r: "pipe_write_turn [1, 2, 3] 0 False False pipe_new = Some (WAgain 3, ws, p')"
    using pipe_new_write by blast
  from pipe_write_atomic [OF pipe_new_ok(1) _ _ r] pipe_new_ok(2) r show ?thesis
    by (auto simp: PIPE_ATOMIC_def)
qed

theorem pipe_turns_total_witness: "\<exists>x. pipe_write_turn [1, 2] 0 True False pipe_new = Some x"
  using pipe_turns_total [OF pipe_new_ok(1)] by blast

theorem fifo_open_cancel_use_after_free_witness:
  "\<exists>w'. fifo_open_cancel 5 \<lparr>pw_heap = (\<lambda>_. None)(5 := Some (pipe_new\<lparr>p_readers := 0, p_writers := 0\<rparr>)), pw_fifos = [5]\<rparr> = Some w' \<and>
     fifo_open_cancel 5 w' = None"
proof -
  let ?p = "pipe_new\<lparr>p_readers := 2, p_writers := 0\<rparr>" and ?p1 = "pipe_new\<lparr>p_readers := 1, p_writers := 0\<rparr>"
  let ?p2 = "pipe_new\<lparr>p_readers := 0, p_writers := 0\<rparr>"
  have t: "fifo_open_turn 0 (p_wgen ?p) True ?p = (OCancel, ?p1)" "fifo_open_turn 0 (p_wgen ?p) True ?p1 = (OCancel, ?p2)"
    by (simp_all add: fifo_open_turn_def Let_def pipe_new_def)
  show ?thesis
    using fifo_open_cancel_use_after_free [OF _ _ t, of 5 "\<lparr>pw_heap = (\<lambda>_. None), pw_fifos = [5]\<rparr>"] by simp
qed

theorem sys_pipe_leaks_witness:
  "\<exists>w' p. sys_pipe True True (Some (9, \<lambda>_. 0)) True True 3 (- 24) \<lparr>pw_heap = (\<lambda>_. None), pw_fifos = []\<rparr> = (Inl EMFILE, w') \<and>
    pw_heap w' 9 = Some p \<and> p_readers p = 0 \<and> p_writers p = 1"
  by (rule sys_pipe_leaks) simp_all

end
