(* ===== verification/Vma.thy ===== *)
theory Vma
  imports Cervus_Prelude
begin

unbundle bit_operations_syntax

text \<open>
  Address spaces, \<^verbatim>\<open>kernel/src/memory/mm.c\<close>: the areas of a process, their list, the sorted index
  \<open>vidx\<close> that speeds up the search, and the calls that map, unmap, protect, lock and move memory.
  Areas are named by their address, \<open>mm_area\<close> gives their content, and \<open>mm_vmas\<close> is the doubly
  linked list in order.  Addresses are 64-bit words, so that sums wrap as in C.

  The results of the coming allocations are a list in the state: \<open>mm_mem\<close> for areas, \<open>mm_grow\<close> for the
  growth of the index.  Calls into the page tables, the file layer and the hooks of an area are
  recorded, in order, in \<open>mm_events\<close>.
\<close>

definition PG :: u64 where "PG = 4096"

definition pdown :: "u64 \<Rightarrow> u64" where "pdown a = a AND NOT (PG - 1)"
definition pup :: "u64 \<Rightarrow> u64" where "pup a = (a + PG - 1) AND NOT (PG - 1)"

definition VM_READ :: u32 where "VM_READ = 0x1"
definition VM_WRITE :: u32 where "VM_WRITE = 0x2"
definition VM_EXEC :: u32 where "VM_EXEC = 0x4"
definition VM_SHARED :: u32 where "VM_SHARED = 0x8"
definition VM_GROWSDOWN :: u32 where "VM_GROWSDOWN = 0x10"
definition VM_PFNMAP :: u32 where "VM_PFNMAP = 0x20"
definition VM_FILE :: u32 where "VM_FILE = 0x40"
definition VM_STACK :: u32 where "VM_STACK = 0x80"
definition VM_HEAP :: u32 where "VM_HEAP = 0x100"
definition VM_DONTCOPY :: u32 where "VM_DONTCOPY = 0x200"
definition VM_LOCKED :: u32 where "VM_LOCKED = 0x400"
definition VM_PROT_MASK :: u32 where "VM_PROT_MASK = VM_READ OR VM_WRITE OR VM_EXEC"

definition MM_USER_TOP :: u64 where "MM_USER_TOP = 0x0000800000000000"
definition MM_MMAP_TOP :: u64 where "MM_MMAP_TOP = 0x0000700000000000"
definition MM_STACK_TOP :: u64 where "MM_STACK_TOP = 0x00007FFFFFFFE000"
definition MM_STACK_MIN :: u64 where "MM_STACK_MIN = 131072"
definition MM_STACK_MAX :: u64 where "MM_STACK_MAX = 1073741824"

text \<open>An area; the vnode and the functions are pointers.\<close>

record vm_area =
  vm_start :: u64
  vm_end :: u64
  vm_flags :: u32
  vm_pte_extra :: u64
  vm_vnode :: "nat option"
  vm_offset :: u64
  vm_pfn :: "nat option"
  vm_open :: "nat option"
  vm_close :: "nat option"
  vm_priv :: u64
  vm_priv_id :: u64

datatype mm_event =
    EvOpen nat | EvClose nat | EvVnodeRef nat | EvVnodeUnref nat
  | EvZap nat u64 u64 | EvWriteback nat u64 u64 | EvProt nat u64 u64 u32 | EvPopulate nat u64 u64 | EvMove u64 u64 u64

record mm =
  mm_vmas :: "nat list"
  mm_area :: "nat \<Rightarrow> vm_area"
  mm_vidx :: "nat list"
  mm_vcap :: nat
  mm_vbad :: bool
  mm_vcache :: "nat option"
  mm_brk_start :: u64
  mm_brk :: u64
  mm_mmap_top :: u64
  mm_def_flags :: u32
  mm_mem :: "nat option list"
  mm_grow :: "bool list"
  mm_events :: "mm_event list"

definition upd_area :: "nat \<Rightarrow> (vm_area \<Rightarrow> vm_area) \<Rightarrow> mm \<Rightarrow> mm" where
  "upd_area v f mm = mm\<lparr>mm_area := (mm_area mm)(v := f (mm_area mm v))\<rparr>"

definition event :: "mm_event list \<Rightarrow> mm \<Rightarrow> mm" where
  "event es mm = mm\<lparr>mm_events := mm_events mm @ es\<rparr>"

section \<open>Areas\<close>

definition vma_new :: "mm \<Rightarrow> nat option \<times> mm" where
  "vma_new mm = (case mm_mem mm of [] \<Rightarrow> (None, mm) | r # rs \<Rightarrow> (r, mm\<lparr>mm_mem := rs\<rparr>))"

definition vma_release :: "nat \<Rightarrow> mm \<Rightarrow> mm" where
  "vma_release v mm =
     event ((case vm_close (mm_area mm v) of Some f \<Rightarrow> [EvClose v] | None \<Rightarrow> []) @
            (case vm_vnode (mm_area mm v) of Some n \<Rightarrow> [EvVnodeUnref n] | None \<Rightarrow> [])) mm"

text \<open>The binary search of \<open>vidx_upper\<close>; \<open>P\<close> tells whether the area at an index starts at or before the address.\<close>

function upper_loop :: "(nat \<Rightarrow> bool) \<Rightarrow> nat \<Rightarrow> nat \<Rightarrow> nat" where
  "upper_loop P lo hi =
     (if lo < hi then
        let mid = (lo + hi) div 2 in
        if P mid then upper_loop P (mid + 1) hi else upper_loop P lo mid
      else lo)"
  by pat_completeness auto
termination by (relation "measure (\<lambda>(P, lo, hi). hi - lo)") auto

declare upper_loop.simps [simp del]

definition vidx_upper :: "mm \<Rightarrow> u64 \<Rightarrow> nat" where
  "vidx_upper mm addr = upper_loop (\<lambda>i. vm_start (mm_area mm (mm_vidx mm ! i)) \<le> addr) 0 (length (mm_vidx mm))"

definition vma_first_ending_after :: "mm \<Rightarrow> u64 \<Rightarrow> nat option" where
  "vma_first_ending_after mm addr =
     (if mm_vbad mm then List.find (\<lambda>v. \<not> vm_end (mm_area mm v) \<le> addr) (mm_vmas mm)
      else
        let i = vidx_upper mm addr in
        if i > 0 \<and> vm_end (mm_area mm (mm_vidx mm ! (i - 1))) > addr then Some (mm_vidx mm ! (i - 1))
        else if i < length (mm_vidx mm) then Some (mm_vidx mm ! i) else None)"

definition mm_find_vma :: "mm \<Rightarrow> u64 \<Rightarrow> nat option \<times> mm" where
  "mm_find_vma mm addr =
     (case mm_vcache mm of
        Some c \<Rightarrow>
          if addr \<ge> vm_start (mm_area mm c) \<and> addr < vm_end (mm_area mm c) then (Some c, mm)
          else (case vma_first_ending_after mm addr of
                  None \<Rightarrow> (None, mm)
                | Some v \<Rightarrow> if addr < vm_start (mm_area mm v) then (None, mm) else (Some v, mm\<lparr>mm_vcache := Some v\<rparr>))
      | None \<Rightarrow>
          (case vma_first_ending_after mm addr of
             None \<Rightarrow> (None, mm)
           | Some v \<Rightarrow> if addr < vm_start (mm_area mm v) then (None, mm) else (Some v, mm\<lparr>mm_vcache := Some v\<rparr>)))"

definition insert_after :: "nat option \<Rightarrow> nat \<Rightarrow> nat list \<Rightarrow> nat list" where
  "insert_after prev n vs =
     (case prev of
        None \<Rightarrow> n # vs
      | Some p \<Rightarrow> takeWhile (\<lambda>x. x \<noteq> p) vs @ p # n # tl (dropWhile (\<lambda>x. x \<noteq> p) vs))"

definition vma_link :: "nat \<Rightarrow> mm \<Rightarrow> mm" where
  "vma_link n mm =
     (let s = vm_start (mm_area mm n) in
      if mm_vbad mm then
        mm\<lparr>mm_vmas := takeWhile (\<lambda>v. vm_start (mm_area mm v) < s) (mm_vmas mm) @ n #
                      dropWhile (\<lambda>v. vm_start (mm_area mm v) < s) (mm_vmas mm)\<rparr>
      else
        let i = vidx_upper mm s;
            mm1 = mm\<lparr>mm_vmas := insert_after (if i > 0 then Some (mm_vidx mm ! (i - 1)) else None) n (mm_vmas mm)\<rparr>;
            store = (\<lambda>m. m\<lparr>mm_vidx := take i (mm_vidx m) @ n # drop i (mm_vidx m)\<rparr>)
        in if length (mm_vidx mm) = mm_vcap mm then
             (case mm_grow mm of
                True # gs \<Rightarrow> store (mm1\<lparr>mm_grow := gs, mm_vcap := (if mm_vcap mm > 0 then mm_vcap mm * 2 else 64)\<rparr>)
              | _ \<Rightarrow> mm1\<lparr>mm_grow := tl (mm_grow mm), mm_vbad := True\<rparr>)
           else store mm1)"

definition vma_unlink :: "nat \<Rightarrow> mm \<Rightarrow> mm" where
  "vma_unlink v mm =
     (let mm1 = mm\<lparr>mm_vmas := remove1 v (mm_vmas mm),
                   mm_vcache := (if mm_vcache mm = Some v then None else mm_vcache mm)\<rparr>
      in if mm_vbad mm then mm1
         else
           let i = vidx_upper mm (vm_start (mm_area mm v)) in
           if i > 0 \<and> mm_vidx mm ! (i - 1) = v
           then mm1\<lparr>mm_vidx := take (i - 1) (mm_vidx mm) @ drop i (mm_vidx mm)\<rparr>
           else mm1)"

definition vma_split :: "nat \<Rightarrow> u64 \<Rightarrow> mm \<Rightarrow> nat option \<times> mm" where
  "vma_split v at mm =
     (case vma_new mm of
        (None, mm1) \<Rightarrow> (None, mm1)
      | (Some n, mm1) \<Rightarrow>
          let a = mm_area mm1 v;
              b = a\<lparr>vm_start := at,
                    vm_offset := (if vm_flags a AND (VM_FILE OR VM_PFNMAP) \<noteq> 0 then vm_offset a + (at - vm_start a)
                                  else vm_offset a)\<rparr>;
              mm2 = upd_area n (\<lambda>_. b) mm1;
              mm3 = event ((case vm_vnode b of Some x \<Rightarrow> [EvVnodeRef x] | None \<Rightarrow> []) @
                           (case vm_open b of Some f \<Rightarrow> [EvOpen n] | None \<Rightarrow> [])) mm2;
              mm4 = upd_area v (\<lambda>a. a\<lparr>vm_end := at\<rparr>) mm3
          in (Some n, vma_link n mm4))"

definition vma_mergeable :: "vm_area \<Rightarrow> vm_area \<Rightarrow> bool" where
  "vma_mergeable a b =
     (if vm_end a \<noteq> vm_start b \<or> vm_flags a \<noteq> vm_flags b \<or> vm_pte_extra a \<noteq> vm_pte_extra b then False
      else if vm_vnode a \<noteq> vm_vnode b \<or> vm_priv a \<noteq> vm_priv b \<or> vm_priv_id a \<noteq> vm_priv_id b then False
      else if vm_pfn a \<noteq> None \<or> vm_pfn b \<noteq> None \<or> vm_open a \<noteq> None \<or> vm_open b \<noteq> None \<or>
              vm_close a \<noteq> None \<or> vm_close b \<noteq> None then False
      else vm_vnode a = None \<or> vm_offset a + (vm_end a - vm_start a) = vm_offset b)"

text \<open>The area after \<open>v\<close> in the list.\<close>

definition vma_next :: "nat \<Rightarrow> mm \<Rightarrow> nat option" where
  "vma_next v mm = (case dropWhile (\<lambda>x. x \<noteq> v) (mm_vmas mm) of x # y # ys \<Rightarrow> Some y | _ \<Rightarrow> None)"

partial_function (option) merge_loop :: "u64 \<Rightarrow> nat option \<Rightarrow> mm \<Rightarrow> mm option" where
  "merge_loop till v mm =
     (case v of
        None \<Rightarrow> Some mm
      | Some v1 \<Rightarrow>
          if vm_start (mm_area mm v1) \<le> till then
            (case vma_next v1 mm of
               None \<Rightarrow> merge_loop till None mm
             | Some n \<Rightarrow>
                 if vma_mergeable (mm_area mm v1) (mm_area mm n) then
                   merge_loop till (Some v1)
                     (vma_release n (vma_unlink n (upd_area v1 (\<lambda>a. a\<lparr>vm_end := vm_end (mm_area mm n)\<rparr>) mm)))
                 else merge_loop till (Some n) mm)
          else Some mm)"

definition vma_merge_range :: "u64 \<Rightarrow> u64 \<Rightarrow> mm \<Rightarrow> mm option" where
  "vma_merge_range start till mm =
     merge_loop till (vma_first_ending_after mm (if start \<noteq> 0 then start - 1 else 0)) mm"

definition range_free :: "mm \<Rightarrow> u64 \<Rightarrow> u64 \<Rightarrow> bool" where
  "range_free mm start till =
     (case vma_first_ending_after mm start of None \<Rightarrow> True | Some v \<Rightarrow> vm_start (mm_area mm v) \<ge> till)"

text \<open>The loop of \<open>find_gap\<close> from the last area to the first.\<close>

fun gap_loop :: "u64 \<Rightarrow> u64 \<Rightarrow> u64 \<Rightarrow> vm_area list \<Rightarrow> u64" where
  "gap_loop flr len cur [] = (if cur > flr \<and> cur - flr \<ge> len then cur - len else 0)"
| "gap_loop flr len cur (v # vs) =
     (if vm_start v \<ge> cur then gap_loop flr len cur vs
      else
        let lo = (if vm_end v > flr then vm_end v else flr) in
        if vm_end v \<le> cur \<and> cur > lo \<and> cur - lo \<ge> len then cur - len
        else if vm_start v \<le> flr then 0
        else gap_loop flr len (vm_start v) vs)"

definition find_gap :: "mm \<Rightarrow> u64 \<Rightarrow> u64" where
  "find_gap mm len =
     gap_loop (if mm_brk mm \<noteq> 0 then pup (mm_brk mm) + 0x10000000 else 0x10000000) len (mm_mmap_top mm)
       (rev (map (mm_area mm) (mm_vmas mm)))"

section \<open>Unmapping\<close>

definition zap_range :: "nat \<Rightarrow> u64 \<Rightarrow> u64 \<Rightarrow> mm \<Rightarrow> mm" where
  "zap_range v s e mm = event [EvZap v s e] mm"

partial_function (option) unmap_loop :: "u64 \<Rightarrow> u64 \<Rightarrow> nat option \<Rightarrow> mm \<Rightarrow> (unit result \<times> mm) option" where
  "unmap_loop start till v mm =
     (case v of
        None \<Rightarrow> Some (ok, mm)
      | Some v1 \<Rightarrow>
          if \<not> vm_start (mm_area mm v1) < till then Some (ok, mm)
          else if vm_start (mm_area mm v1) < start then
            (case vma_split v1 start mm of
               (None, mm1) \<Rightarrow> Some (Inl ENOMEM, mm1)
             | (Some n, mm1) \<Rightarrow> unmap_loop start till (Some n) mm1)
          else
            (case (if vm_end (mm_area mm v1) > till then vma_split v1 till mm else (Some v1, mm)) of
               (None, mm1) \<Rightarrow> Some (Inl ENOMEM, mm1)
             | (Some _, mm1) \<Rightarrow>
                 unmap_loop start till (vma_next v1 mm1)
                   (vma_release v1 (vma_unlink v1
                     (zap_range v1 (vm_start (mm_area mm1 v1)) (vm_end (mm_area mm1 v1)) mm1)))))"

definition unmap_locked :: "u64 \<Rightarrow> u64 \<Rightarrow> mm \<Rightarrow> (unit result \<times> mm) option" where
  "unmap_locked start till mm = unmap_loop start till (vma_first_ending_after mm start) mm"

definition mm_unmap :: "u64 \<Rightarrow> u64 \<Rightarrow> mm \<Rightarrow> (unit result \<times> mm) option" where
  "mm_unmap addr len mm =
     (if addr AND (PG - 1) \<noteq> 0 \<or> len = 0 then Some (Inl EINVAL, mm)
      else
        let till = addr + pup len in
        if till < addr \<or> till > MM_USER_TOP then Some (Inl EINVAL, mm)
        else unmap_locked addr till mm)"

section \<open>Mapping\<close>

definition zero_area :: vm_area where
  "zero_area = \<lparr>vm_start = 0, vm_end = 0, vm_flags = 0, vm_pte_extra = 0, vm_vnode = None, vm_offset = 0,
                vm_pfn = None, vm_open = None, vm_close = None, vm_priv = 0, vm_priv_id = 0\<rparr>"

text \<open>The place of a new mapping: an error, or the address, after unmapping what a fixed mapping replaces.\<close>

definition place :: "u64 \<Rightarrow> u64 \<Rightarrow> bool \<Rightarrow> mm \<Rightarrow> (u64 result \<times> mm) option" where
  "place at len fixed mm =
     (if fixed then
        if at + len > MM_USER_TOP \<or> at + len < at then Some (Inl ENOMEM, mm)
        else if at < 0x1000 then Some (Inl EPERM, mm)
        else (case unmap_locked at (at + len) mm of
                None \<Rightarrow> None
              | Some (Inl e, mm1) \<Rightarrow> Some (Inl e, mm1)
              | Some (Inr _, mm1) \<Rightarrow> Some (Inr at, mm1))
      else if at = 0 \<or> at + len > MM_USER_TOP \<or> at < 0x10000 \<or> \<not> range_free mm at (at + len) then
        let g = find_gap mm len in if g = 0 then Some (Inl ENOMEM, mm) else Some (Inr g, mm)
      else Some (Inr at, mm))"

definition map_template :: "u64 \<Rightarrow> u64 \<Rightarrow> bool \<Rightarrow> vm_area \<Rightarrow> mm \<Rightarrow> (u64 result \<times> mm) option" where
  "map_template addr len0 fixed tpl mm =
     (if len0 = 0 then Some (Inl EINVAL, mm)
      else
        let len = pup len0 in
        if fixed \<and> addr AND (PG - 1) \<noteq> 0 then Some (Inl EINVAL, mm)
        else case vma_new mm of
          (None, mm1) \<Rightarrow> Some (Inl ENOMEM, mm1)
        | (Some v, mm1) \<Rightarrow>
            (case place (pdown addr) len fixed mm1 of
               None \<Rightarrow> None
             | Some (Inl e, mm2) \<Rightarrow> Some (Inl e, mm2)
             | Some (Inr at, mm2) \<Rightarrow>
                 let mm3 = upd_area v (\<lambda>_. tpl\<lparr>vm_start := at, vm_end := at + len\<rparr>) mm2;
                     mm4 = event ((case vm_vnode tpl of Some x \<Rightarrow> [EvVnodeRef x] | None \<Rightarrow> []) @
                                  (case vm_open tpl of Some f \<Rightarrow> [EvOpen v] | None \<Rightarrow> [])) mm3
                 in (case vma_merge_range at (at + len) (vma_link v mm4) of
                       None \<Rightarrow> None
                     | Some mm5 \<Rightarrow> Some (Inr at, mm5))))"

definition mm_map_anon :: "u64 \<Rightarrow> u64 \<Rightarrow> u32 \<Rightarrow> bool \<Rightarrow> mm \<Rightarrow> (u64 result \<times> mm) option" where
  "mm_map_anon addr len flags fixed mm =
     map_template addr len fixed (zero_area\<lparr>vm_flags := flags AND NOT (VM_FILE OR VM_PFNMAP)\<rparr>) mm"

definition mm_map_file ::
  "u64 \<Rightarrow> u64 \<Rightarrow> u32 \<Rightarrow> bool \<Rightarrow> nat option \<Rightarrow> u64 \<Rightarrow> mm \<Rightarrow> (u64 result \<times> mm) option" where
  "mm_map_file addr len flags fixed vn offset mm =
     (if vn = None \<or> offset AND (PG - 1) \<noteq> 0 then Some (Inl EINVAL, mm)
      else map_template addr len fixed
             (zero_area\<lparr>vm_flags := (flags AND NOT VM_PFNMAP) OR VM_FILE, vm_vnode := vn, vm_offset := offset\<rparr>) mm)"

definition mm_map_pfn ::
  "u64 \<Rightarrow> u64 \<Rightarrow> u32 \<Rightarrow> bool \<Rightarrow> u64 \<Rightarrow> nat option \<Rightarrow> nat option \<Rightarrow> nat option \<Rightarrow> u64 \<Rightarrow> u64 \<Rightarrow> nat option \<Rightarrow> u64 \<Rightarrow> mm \<Rightarrow>
   (u64 result \<times> mm) option" where
  "mm_map_pfn addr len flags fixed pte_extra pfn opn cls priv priv_id vn offset mm =
     map_template addr len fixed
       \<lparr>vm_start = 0, vm_end = 0, vm_flags = (flags AND NOT VM_FILE) OR VM_PFNMAP, vm_pte_extra = pte_extra,
        vm_vnode = vn, vm_offset = offset, vm_pfn = pfn, vm_open = opn, vm_close = cls, vm_priv = priv,
        vm_priv_id = priv_id\<rparr> mm"

section \<open>Protection and locking\<close>

text \<open>The walk that checks that a range is mapped without holes.\<close>

partial_function (option) covered :: "u64 \<Rightarrow> u64 \<Rightarrow> mm \<Rightarrow> (bool \<times> mm) option" where
  "covered cur till mm =
     (if cur < till then
        (case mm_find_vma mm cur of
           (None, mm1) \<Rightarrow> Some (False, mm1)
         | (Some v, mm1) \<Rightarrow> covered (vm_end (mm_area mm1 v)) till mm1)
      else Some (True, mm))"

text \<open>
  The loop that splits at the ends of the range and changes each area in it: \<open>refuse\<close> stops with an
  error before an area is changed.  A split that fails ends the loop as if it were done.
\<close>

partial_function (option) change_loop ::
  "(vm_area \<Rightarrow> bool) \<Rightarrow> (vm_area \<Rightarrow> vm_area) \<Rightarrow> (nat \<Rightarrow> vm_area \<Rightarrow> mm_event list) \<Rightarrow> u64 \<Rightarrow> u64 \<Rightarrow> nat option \<Rightarrow> mm \<Rightarrow> (bool \<times> mm) option" where
  "change_loop refuse f ev start till v mm =
     (case v of
        None \<Rightarrow> Some (True, mm)
      | Some v1 \<Rightarrow>
          if \<not> vm_start (mm_area mm v1) < till then Some (True, mm)
          else if vm_start (mm_area mm v1) < start then
            (case vma_split v1 start mm of
               (None, mm1) \<Rightarrow> Some (True, mm1)
             | (Some n, mm1) \<Rightarrow> change_loop refuse f ev start till (Some n) mm1)
          else
            (case (if vm_end (mm_area mm v1) > till then vma_split v1 till mm else (Some v1, mm)) of
               (None, mm1) \<Rightarrow> Some (True, mm1)
             | (Some _, mm1) \<Rightarrow>
                 if refuse (mm_area mm1 v1) then Some (False, mm1)
                 else
                   let mm2 = upd_area v1 f mm1
                   in change_loop refuse f ev start till (vma_next v1 mm2) (event (ev v1 (mm_area mm2 v1)) mm2)))"

text \<open>\<open>writable\<close> tells whether the file system of a vnode can write.\<close>

definition mm_protect :: "(nat \<Rightarrow> bool) \<Rightarrow> u64 \<Rightarrow> u64 \<Rightarrow> u32 \<Rightarrow> mm \<Rightarrow> (unit result \<times> mm) option" where
  "mm_protect writable addr len prot mm =
     (if addr AND (PG - 1) \<noteq> 0 then Some (Inl EINVAL, mm)
      else if len = 0 then Some (ok, mm)
      else
        let till = addr + pup len in
        if till < addr \<or> till > MM_USER_TOP then Some (Inl EINVAL, mm)
        else case covered addr till mm of
          None \<Rightarrow> None
        | Some (False, mm1) \<Rightarrow> Some (Inl ENOMEM, mm1)
        | Some (True, mm1) \<Rightarrow>
            (case change_loop
                    (\<lambda>a. prot AND VM_WRITE \<noteq> 0 \<and> vm_flags a AND VM_SHARED \<noteq> 0 \<and> vm_flags a AND VM_FILE \<noteq> 0 \<and>
                         (case vm_vnode a of Some n \<Rightarrow> \<not> writable n | None \<Rightarrow> False))
                    (\<lambda>a. a\<lparr>vm_flags := (vm_flags a AND NOT VM_PROT_MASK) OR (prot AND VM_PROT_MASK)\<rparr>)
                    (\<lambda>v a. [EvProt v (vm_start a) (vm_end a) (vm_flags a)])
                    addr till (vma_first_ending_after mm1 addr) mm1 of
               None \<Rightarrow> None
             | Some (False, mm2) \<Rightarrow> Some (Inl EACCES, mm2)
             | Some (True, mm2) \<Rightarrow> (case vma_merge_range addr till mm2 of None \<Rightarrow> None | Some mm3 \<Rightarrow> Some (ok, mm3))))"

definition populate_event :: "nat \<Rightarrow> vm_area \<Rightarrow> mm_event list" where
  "populate_event v a = (if vm_flags a AND VM_PFNMAP \<noteq> 0 then [] else [EvPopulate v (vm_start a) (vm_end a)])"

definition mm_mlock :: "u64 \<Rightarrow> u64 \<Rightarrow> bool \<Rightarrow> mm \<Rightarrow> (unit result \<times> mm) option" where
  "mm_mlock addr len lock mm =
     (let start = pdown addr; e = addr + len in
      if e < addr \<or> e > MM_USER_TOP then Some (Inl ENOMEM, mm)
      else
        let till = pup e in
        if start = till then Some (ok, mm)
        else case covered start till mm of
          None \<Rightarrow> None
        | Some (False, mm1) \<Rightarrow> Some (Inl ENOMEM, mm1)
        | Some (True, mm1) \<Rightarrow>
            (case change_loop (\<lambda>_. False)
                    (\<lambda>a. if lock then a\<lparr>vm_flags := vm_flags a OR VM_LOCKED\<rparr>
                         else a\<lparr>vm_flags := vm_flags a AND NOT VM_LOCKED\<rparr>)
                    (\<lambda>v a. if lock then populate_event v a else [])
                    start till (vma_first_ending_after mm1 start) mm1 of
               None \<Rightarrow> None
             | Some (_, mm2) \<Rightarrow> (case vma_merge_range start till mm2 of None \<Rightarrow> None | Some mm3 \<Rightarrow> Some (ok, mm3))))"

definition mm_mlockall :: "u32 \<Rightarrow> bool \<Rightarrow> mm \<Rightarrow> mm" where
  "mm_mlockall flags lock mm =
     (if \<not> lock then
        foldl (\<lambda>m v. upd_area v (\<lambda>a. a\<lparr>vm_flags := vm_flags a AND NOT VM_LOCKED\<rparr>) m)
          (mm\<lparr>mm_def_flags := mm_def_flags mm AND NOT VM_LOCKED\<rparr>) (mm_vmas mm)
      else
        let mm1 = mm\<lparr>mm_def_flags := (if flags AND 2 \<noteq> 0 then mm_def_flags mm OR VM_LOCKED else mm_def_flags mm AND NOT VM_LOCKED)\<rparr>
        in if flags AND 1 \<noteq> 0 then
             foldl (\<lambda>m v. let m1 = upd_area v (\<lambda>a. a\<lparr>vm_flags := vm_flags a OR VM_LOCKED\<rparr>) m
                          in event (populate_event v (mm_area m1 v)) m1) mm1 (mm_vmas mm1)
           else mm1)"

section \<open>Writing back and discarding\<close>

text \<open>The pages of shared writable file mappings are written back.\<close>

definition writeback_range :: "nat \<Rightarrow> u64 \<Rightarrow> u64 \<Rightarrow> mm \<Rightarrow> mm" where
  "writeback_range v s e mm =
     (let f = vm_flags (mm_area mm v) in
      if \<not> (f AND VM_SHARED \<noteq> 0 \<and> f AND VM_FILE \<noteq> 0 \<and> f AND VM_WRITE \<noteq> 0) then mm
      else event [EvWriteback v s e] mm)"

text \<open>The areas from \<open>v\<close> on.\<close>

definition areas_from :: "nat option \<Rightarrow> mm \<Rightarrow> nat list" where
  "areas_from v mm = (case v of None \<Rightarrow> [] | Some v1 \<Rightarrow> dropWhile (\<lambda>x. x \<noteq> v1) (mm_vmas mm))"

fun sync_loop :: "u64 \<Rightarrow> u64 \<Rightarrow> nat list \<Rightarrow> mm \<Rightarrow> mm" where
  "sync_loop addr till [] mm = mm"
| "sync_loop addr till (v # vs) mm =
     (let a = mm_area mm v in
      if \<not> vm_start a < till then mm
      else if vm_end a \<le> addr then sync_loop addr till vs mm
      else sync_loop addr till vs
             (writeback_range v (if vm_start a > addr then vm_start a else addr) (if vm_end a < till then vm_end a else till) mm))"

definition mm_sync :: "u64 \<Rightarrow> u64 \<Rightarrow> mm \<Rightarrow> unit result \<times> mm" where
  "mm_sync addr len mm =
     (if addr AND (PG - 1) \<noteq> 0 then (Inl EINVAL, mm)
      else (ok, sync_loop addr (addr + pup len) (areas_from (vma_first_ending_after mm addr) mm) mm))"

fun discard_loop :: "u64 \<Rightarrow> u64 \<Rightarrow> nat list \<Rightarrow> mm \<Rightarrow> mm" where
  "discard_loop addr till [] mm = mm"
| "discard_loop addr till (v # vs) mm =
     (let a = mm_area mm v in
      if \<not> vm_start a < till then mm
      else if vm_end a \<le> addr then discard_loop addr till vs mm
      else if vm_flags a AND (VM_SHARED OR VM_PFNMAP) \<noteq> 0 then discard_loop addr till vs mm
      else discard_loop addr till vs
             (zap_range v (if vm_start a > addr then vm_start a else addr) (if vm_end a < till then vm_end a else till) mm))"

definition mm_discard :: "u64 \<Rightarrow> u64 \<Rightarrow> mm \<Rightarrow> unit result \<times> mm" where
  "mm_discard addr len mm =
     (if addr AND (PG - 1) \<noteq> 0 then (Inl EINVAL, mm)
      else (ok, discard_loop addr (addr + pup len) (areas_from (vma_first_ending_after mm addr) mm) mm))"

section \<open>Moving and the heap\<close>

definition REMAP_MAYMOVE :: u32 where "REMAP_MAYMOVE = 1"
definition REMAP_FIXED :: u32 where "REMAP_FIXED = 2"
definition REMAP_DONTUNMAP :: u32 where "REMAP_DONTUNMAP = 4"

text \<open>The part of \<open>mm_remap\<close> after the destination is known; \<open>tables\<close>: the page tables could be allocated.\<close>

definition remap_move :: "bool \<Rightarrow> u64 \<Rightarrow> u64 \<Rightarrow> u64 \<Rightarrow> u64 \<Rightarrow> bool \<Rightarrow> nat \<Rightarrow> mm \<Rightarrow> u64 result \<times> mm" where
  "remap_move tables old old_len dest new_len keep v mm =
     (case (if vm_start (mm_area mm v) < old then vma_split v old mm else (Some v, mm)) of
        (None, mm1) \<Rightarrow> (Inl ENOMEM, mm1)
      | (Some v1, mm1) \<Rightarrow>
          (case (if vm_end (mm_area mm1 v1) > old + old_len then vma_split v1 (old + old_len) mm1 else (Some v1, mm1)) of
             (None, mm2) \<Rightarrow> (Inl ENOMEM, mm2)
           | (Some _, mm2) \<Rightarrow>
               if \<not> tables then (Inl ENOMEM, mm2)
               else case vma_new mm2 of
                 (None, mm3) \<Rightarrow> (Inl ENOMEM, mm3)
               | (Some n, mm3) \<Rightarrow>
                   let b = (mm_area mm3 v1)\<lparr>vm_start := dest, vm_end := dest + new_len\<rparr>;
                       mm4 = event ((case vm_vnode b of Some x \<Rightarrow> [EvVnodeRef x] | None \<Rightarrow> []) @
                                    (case vm_open b of Some f \<Rightarrow> [EvOpen n] | None \<Rightarrow> []) @
                                    [EvMove old (old + old_len) dest]) (upd_area n (\<lambda>_. b) mm3);
                       mm5 = (if keep then mm4 else vma_release v1 (vma_unlink v1 mm4));
                       mm6 = vma_link n mm5
                   in (Inr dest, if vm_flags b AND VM_LOCKED \<noteq> 0 then event (populate_event n b) mm6 else mm6)))"

definition mm_remap ::
  "bool \<Rightarrow> u64 \<Rightarrow> u64 \<Rightarrow> u64 \<Rightarrow> u32 \<Rightarrow> u64 \<Rightarrow> mm \<Rightarrow> (u64 result \<times> mm) option" where
  "mm_remap tables old old_len0 new_len0 flags new_addr mm =
     (if old AND (PG - 1) \<noteq> 0 \<or> new_len0 = 0 \<or> old_len0 = 0 then Some (Inl EINVAL, mm)
      else if flags AND NOT (REMAP_MAYMOVE OR REMAP_FIXED OR REMAP_DONTUNMAP) \<noteq> 0 then Some (Inl EINVAL, mm)
      else
        let fixed = (flags AND REMAP_FIXED \<noteq> 0); keep = (flags AND REMAP_DONTUNMAP \<noteq> 0);
            maymove = (flags AND REMAP_MAYMOVE \<noteq> 0); old_len = pup old_len0; new_len = pup new_len0 in
        if (fixed \<or> keep) \<and> \<not> maymove then Some (Inl EINVAL, mm)
        else if keep \<and> old_len \<noteq> new_len then Some (Inl EINVAL, mm)
        else if old + old_len < old \<or> old + old_len > MM_USER_TOP then Some (Inl EINVAL, mm)
        else if fixed \<and> (new_addr AND (PG - 1) \<noteq> 0 \<or> new_addr < 0x1000 \<or> new_addr + new_len < new_addr \<or>
                         new_addr + new_len > MM_USER_TOP) then Some (Inl EINVAL, mm)
        else if fixed \<and> new_addr < old + old_len \<and> old < new_addr + new_len then Some (Inl EINVAL, mm)
        else case mm_find_vma mm old of
          (None, mm1) \<Rightarrow> Some (Inl EFAULT, mm1)
        | (Some v, mm1) \<Rightarrow>
            if old + old_len > vm_end (mm_area mm1 v) then Some (Inl EFAULT, mm1)
            else if \<not> fixed \<and> \<not> keep \<and> new_len \<le> old_len then
              if new_len < old_len then
                (case unmap_locked (old + new_len) (old + old_len) mm1 of
                   None \<Rightarrow> None
                 | Some (Inl e, mm2) \<Rightarrow> Some (Inl e, mm2)
                 | Some (Inr _, mm2) \<Rightarrow> Some (Inr old, mm2))
              else Some (Inr old, mm1)
            else if \<not> fixed \<and> \<not> keep \<and> old + old_len = vm_end (mm_area mm1 v) \<and>
                    vm_flags (mm_area mm1 v) AND VM_GROWSDOWN = 0 \<and> old + new_len \<le> MM_USER_TOP \<and>
                    range_free mm1 (old + old_len) (old + new_len) then
              let mm2 = upd_area v (\<lambda>a. a\<lparr>vm_end := old + new_len\<rparr>) mm1
              in Some (Inr old, if vm_flags (mm_area mm2 v) AND VM_LOCKED \<noteq> 0
                                then event (populate_event v (mm_area mm2 v)) mm2 else mm2)
            else if \<not> fixed \<and> \<not> keep \<and> \<not> maymove then Some (Inl ENOMEM, mm1)
            else if fixed then
              (case unmap_locked new_addr (new_addr + new_len) mm1 of
                 None \<Rightarrow> None
               | Some (Inl e, mm2) \<Rightarrow> Some (Inl e, mm2)
               | Some (Inr _, mm2) \<Rightarrow>
                   (case mm_find_vma mm2 old of
                      (None, mm3) \<Rightarrow> None
                    | (Some v1, mm3) \<Rightarrow> Some (remap_move tables old old_len new_addr new_len keep v1 mm3)))
            else
              let g = find_gap mm1 new_len in
              if g = 0 then Some (Inl ENOMEM, mm1)
              else Some (remap_move tables old old_len g new_len keep v mm1))"

definition mm_init_heap :: "u64 \<Rightarrow> mm \<Rightarrow> mm" where
  "mm_init_heap start mm = mm\<lparr>mm_brk_start := pup start, mm_brk := pup start\<rparr>"

definition mm_set_brk :: "u64 \<Rightarrow> mm \<Rightarrow> (u64 \<times> mm) option" where
  "mm_set_brk new_brk mm =
     (let cur = mm_brk mm in
      if new_brk = 0 \<or> new_brk < mm_brk_start mm then Some (cur, mm)
      else
        let old_end = pup cur; new_end = pup new_brk in
        if new_end > old_end then
          if new_end > mm_mmap_top mm \<or> \<not> range_free mm old_end new_end then Some (cur, mm)
          else case List.find (\<lambda>v. vm_flags (mm_area mm v) AND VM_HEAP \<noteq> 0 \<and> vm_end (mm_area mm v) = old_end) (mm_vmas mm) of
            Some h \<Rightarrow> Some (new_brk, (upd_area h (\<lambda>a. a\<lparr>vm_end := new_end\<rparr>) mm)\<lparr>mm_brk := new_brk\<rparr>)
          | None \<Rightarrow>
              (case vma_new mm of
                 (None, mm1) \<Rightarrow> Some (cur, mm1)
               | (Some v, mm1) \<Rightarrow>
                   Some (new_brk,
                     (vma_link v (upd_area v (\<lambda>_. zero_area\<lparr>vm_start := old_end, vm_end := new_end,
                                                             vm_flags := VM_READ OR VM_WRITE OR VM_HEAP\<rparr>) mm1))
                       \<lparr>mm_brk := new_brk\<rparr>))
        else if new_end < old_end then
          (case unmap_locked new_end old_end mm of
             None \<Rightarrow> None
           | Some (_, mm1) \<Rightarrow> Some (new_brk, mm1\<lparr>mm_brk := new_brk\<rparr>))
        else Some (new_brk, mm\<lparr>mm_brk := new_brk\<rparr>))"

text \<open>\<open>size\<close> is the stack limit of the task (\<open>None\<close>: infinite).\<close>

definition mm_setup_stack :: "u64 option \<Rightarrow> mm \<Rightarrow> (unit result \<times> mm) option" where
  "mm_setup_stack limit mm =
     (let s1 = (case limit of None \<Rightarrow> MM_STACK_MAX | Some s \<Rightarrow> if s > MM_STACK_MAX then MM_STACK_MAX else s);
          s2 = (if s1 < MM_STACK_MIN then MM_STACK_MIN else s1);
          s3 = (s2 + 0xFFF) AND NOT 0xFFF
      in (case mm_map_anon (MM_STACK_TOP - s3) s3 (VM_READ OR VM_WRITE OR VM_GROWSDOWN OR VM_STACK) True mm of
            None \<Rightarrow> None
          | Some (Inl e, mm1) \<Rightarrow> Some (Inl e, mm1)
          | Some (Inr _, mm1) \<Rightarrow> Some (ok, mm1)))"

definition mm_locked_bytes :: "mm \<Rightarrow> u64" where
  "mm_locked_bytes mm =
     foldl (\<lambda>t v. if vm_flags (mm_area mm v) AND VM_LOCKED \<noteq> 0 then t + (vm_end (mm_area mm v) - vm_start (mm_area mm v)) else t)
       0 (mm_vmas mm)"

definition mm_vm_bytes :: "mm \<Rightarrow> u64" where
  "mm_vm_bytes mm = foldl (\<lambda>t v. t + (vm_end (mm_area mm v) - vm_start (mm_area mm v))) 0 (mm_vmas mm)"

definition mm_new :: "nat option list \<Rightarrow> bool list \<Rightarrow> mm" where
  "mm_new mem grow =
     \<lparr>mm_vmas = [], mm_area = (\<lambda>_. zero_area), mm_vidx = [], mm_vcap = 0, mm_vbad = False, mm_vcache = None,
      mm_brk_start = 0, mm_brk = 0, mm_mmap_top = MM_MMAP_TOP, mm_def_flags = 0, mm_mem = mem, mm_grow = grow,
      mm_events = []\<rparr>"

end
