(* ===== verification/Vma_Correct.thy ===== *)
theory Vma_Correct
  imports Vma
begin

text \<open>
  The areas of an address space stay sorted, disjoint and in agreement with the index, the
  binary search finds what a walk of the list finds, and mapping and unmapping change exactly the
  addresses they name.
\<close>

section \<open>Well-formed address spaces\<close>

definition before :: "vm_area \<Rightarrow> vm_area \<Rightarrow> bool" where
  "before a b \<longleftrightarrow> vm_end a \<le> vm_start b"

definition areas_ok :: "vm_area list \<Rightarrow> bool" where
  "areas_ok as \<longleftrightarrow> sorted_wrt before as \<and> (\<forall>a\<in>set as. vm_start a < vm_end a)"

definition areas :: "mm \<Rightarrow> vm_area list" where
  "areas mm = map (mm_area mm) (mm_vmas mm)"

text \<open>The addresses the coming allocations return.\<close>

definition stock :: "mm \<Rightarrow> nat list" where
  "stock mm = List.map_filter id (mm_mem mm)"

definition vm_ok :: "mm \<Rightarrow> bool" where
  "vm_ok mm \<longleftrightarrow> areas_ok (areas mm) \<and> distinct (mm_vmas mm @ stock mm) \<and>
     (mm_vbad mm \<or> mm_vidx mm = mm_vmas mm) \<and> (\<forall>c. mm_vcache mm = Some c \<longrightarrow> c \<in> set (mm_vmas mm))"

lemma vm_okD:
  assumes "vm_ok mm"
  shows "areas_ok (areas mm)" "distinct (mm_vmas mm)" "distinct (stock mm)" "set (mm_vmas mm) \<inter> set (stock mm) = {}"
    "\<not> mm_vbad mm \<Longrightarrow> mm_vidx mm = mm_vmas mm" "mm_vcache mm = Some c \<Longrightarrow> c \<in> set (mm_vmas mm)"
  using assms by (auto simp: vm_ok_def)

lemma areas_ok_append:
  "areas_ok (xs @ ys) \<longleftrightarrow> areas_ok xs \<and> areas_ok ys \<and> (\<forall>x\<in>set xs. \<forall>y\<in>set ys. before x y)"
  by (auto simp: areas_ok_def sorted_wrt_append)

lemma areas_ok_Cons:
  "areas_ok (a # ys) \<longleftrightarrow> vm_start a < vm_end a \<and> (\<forall>y\<in>set ys. before a y) \<and> areas_ok ys"
  by (auto simp: areas_ok_def)

lemma areas_ok_Nil [simp]: "areas_ok []" by (simp add: areas_ok_def)

lemmas areas_ok_simps = areas_ok_append areas_ok_Cons

section \<open>The binary search\<close>

lemma upper_loop_bounds: "lo \<le> hi \<Longrightarrow> lo \<le> upper_loop P lo hi \<and> upper_loop P lo hi \<le> hi"
proof (induction P lo hi rule: upper_loop.induct)
  case (1 P lo hi)
  show ?case
  proof (cases "lo < hi")
    case True
    with 1 show ?thesis by (subst (1 2) upper_loop.simps) (fastforce simp: Let_def)
  next
    case False
    then have "upper_loop P lo hi = lo" by (subst upper_loop.simps) simp
    with False "1.prems" show ?thesis by auto
  qed
qed

lemma upper_loop_split:
  "lo \<le> hi \<Longrightarrow> (\<And>i j. i \<le> j \<Longrightarrow> j < hi \<Longrightarrow> P j \<Longrightarrow> P i) \<Longrightarrow>
   (\<forall>i. lo \<le> i \<and> i < upper_loop P lo hi \<longrightarrow> P i) \<and> (\<forall>i. upper_loop P lo hi \<le> i \<and> i < hi \<longrightarrow> \<not> P i)"
proof (induction P lo hi rule: upper_loop.induct)
  case (1 P lo hi)
  show ?case
  proof (cases "lo < hi")
    case True
    let ?mid = "(lo + hi) div 2"
    have m: "lo \<le> ?mid" "?mid < hi" using True by auto
    show ?thesis
    proof (cases "P ?mid")
      case P: True
      have u: "upper_loop P lo hi = upper_loop P (?mid + 1) hi" using True P by (subst upper_loop.simps) simp
      have "(\<forall>i. ?mid + 1 \<le> i \<and> i < upper_loop P (?mid + 1) hi \<longrightarrow> P i) \<and>
          (\<forall>i. upper_loop P (?mid + 1) hi \<le> i \<and> i < hi \<longrightarrow> \<not> P i)"
        using "1.IH"(1) [OF True refl P] m "1.prems"(2) by simp
      moreover have "P i" if "i \<le> ?mid" for i using "1.prems"(2) [OF that m(2) P] .
      ultimately show ?thesis unfolding u by (metis Suc_eq_plus1 not_less_eq_eq)
    next
      case P: False
      have u: "upper_loop P lo hi = upper_loop P lo ?mid" using True P by (subst upper_loop.simps) simp
      have "(\<forall>i. lo \<le> i \<and> i < upper_loop P lo ?mid \<longrightarrow> P i) \<and> (\<forall>i. upper_loop P lo ?mid \<le> i \<and> i < ?mid \<longrightarrow> \<not> P i)"
        using "1.IH"(2) [OF True refl P] m "1.prems"(2) by simp
      moreover have "\<not> P i" if "?mid \<le> i" "i < hi" for i using "1.prems"(2) [OF that] P by blast
      ultimately show ?thesis unfolding u by (meson not_le)
    qed
  next
    case False
    then have "upper_loop P lo hi = lo" by (subst upper_loop.simps) simp
    with False "1.prems" show ?thesis by auto
  qed
qed

text \<open>In a list whose elements have a property up to some point, the search finds that point.\<close>

lemma upper_loop_append:
  assumes "\<And>x. x \<in> set xs \<Longrightarrow> Q x" "\<And>y. y \<in> set ys \<Longrightarrow> \<not> Q y"
  shows "upper_loop (\<lambda>i. Q ((xs @ ys) ! i)) 0 (length (xs @ ys)) = length xs"
proof -
  let ?P = "\<lambda>i. Q ((xs @ ys) ! i)" and ?n = "length (xs @ ys)"
  let ?u = "upper_loop ?P 0 ?n"
  have P: "?P i \<longleftrightarrow> i < length xs" if "i < ?n" for i
    using assms that by (auto simp: nth_append)
  have u: "(\<forall>i. 0 \<le> i \<and> i < ?u \<longrightarrow> ?P i) \<and> (\<forall>i. ?u \<le> i \<and> i < ?n \<longrightarrow> \<not> ?P i)"
  proof (rule upper_loop_split)
    show "?P i" if "i \<le> j" "j < ?n" "?P j" for i j using that P [of i] P [of j] by simp
  qed simp
  have le: "?u \<le> ?n" using upper_loop_bounds [of 0 ?n ?P] by simp
  show ?thesis
  proof (rule antisym)
    show "?u \<le> length xs"
    proof (rule ccontr)
      assume "\<not> ?u \<le> length xs"
      then have x: "length xs < ?u" "length xs < ?n" using le by linarith+
      have "?P (length xs)" using conjunct1 [OF u, rule_format, of "length xs"] x(1) by simp
      then show False using P [OF x(2)] by simp
    qed
    show "length xs \<le> ?u"
    proof (rule ccontr)
      assume "\<not> length xs \<le> ?u"
      then have x: "?u < length xs" "?u < ?n" by simp_all
      have "\<not> ?P ?u" using conjunct2 [OF u, rule_format, of ?u] x(2) by simp
      then show False using P [OF x(2)] x(1) by simp
    qed
  qed
qed

definition upto_addr :: "mm \<Rightarrow> u64 \<Rightarrow> nat list \<Rightarrow> nat list \<Rightarrow> bool" where
  "upto_addr mm addr xs ys \<longleftrightarrow> mm_vmas mm = xs @ ys \<and> (\<forall>x\<in>set xs. vm_start (mm_area mm x) \<le> addr) \<and>
     (\<forall>y\<in>set ys. \<not> vm_start (mm_area mm y) \<le> addr)"

lemma vidx_upper_eq:
  assumes "mm_vidx mm = mm_vmas mm" "upto_addr mm addr xs ys"
  shows "vidx_upper mm addr = length xs"
  using assms upper_loop_append [of xs "\<lambda>v. vm_start (mm_area mm v) \<le> addr" ys]
  by (simp add: vidx_upper_def upto_addr_def)

lemma upto_addr_ex:
  assumes "areas_ok (areas mm)"
  obtains xs ys where "upto_addr mm addr xs ys"
proof
  let ?P = "\<lambda>v. vm_start (mm_area mm v) \<le> addr"
  have no: "\<not> ?P y" if y: "y \<in> set (dropWhile ?P (mm_vmas mm))" for y
  proof -
    obtain d ds where d: "dropWhile ?P (mm_vmas mm) = d # ds" using y by (cases "dropWhile ?P (mm_vmas mm)") auto
    have nd: "\<not> ?P d" using hd_dropWhile [of ?P "mm_vmas mm"] by (simp add: d)
    have "areas mm = map (mm_area mm) (takeWhile ?P (mm_vmas mm)) @ map (mm_area mm) (d # ds)"
      unfolding areas_def d [symmetric] map_append [symmetric] by (simp only: takeWhile_dropWhile_id)
    then have "areas_ok (map (mm_area mm) (d # ds))" using assms by (simp add: areas_ok_append)
    then show ?thesis using y nd unfolding d by (auto simp: areas_ok_Cons before_def)
  qed
  show "upto_addr mm addr (takeWhile ?P (mm_vmas mm)) (dropWhile ?P (mm_vmas mm))"
    unfolding upto_addr_def
  proof (intro conjI ballI)
    show "?P x" if "x \<in> set (takeWhile ?P (mm_vmas mm))" for x using set_takeWhileD [OF that] by blast
  qed (simp_all only: takeWhile_dropWhile_id no not_False_eq_True)
qed

lemma areas_appendD:
  assumes "areas_ok (areas mm)" "mm_vmas mm = xs @ ys" "x \<in> set xs" "y \<in> set ys"
  shows "vm_start (mm_area mm x) < vm_end (mm_area mm x)" "vm_end (mm_area mm x) \<le> vm_start (mm_area mm y)"
    "vm_start (mm_area mm y) < vm_end (mm_area mm y)"
  using assms by (auto simp: areas_def areas_ok_def sorted_wrt_append before_def)

lemma areas_memD:
  assumes "areas_ok (areas mm)" "x \<in> set (mm_vmas mm)"
  shows "vm_start (mm_area mm x) < vm_end (mm_area mm x)"
  using assms by (auto simp: areas_def areas_ok_def)

text \<open>The search by index finds what the walk of the list finds.\<close>

lemma find_prefix: "(\<And>x. x \<in> set xs \<Longrightarrow> \<not> Q x) \<Longrightarrow> List.find Q (xs @ ys) = List.find Q ys"
  by (induction xs) auto

lemma first_ending_after_eq:
  assumes "vm_ok mm"
  shows "vma_first_ending_after mm addr = List.find (\<lambda>v. \<not> vm_end (mm_area mm v) \<le> addr) (mm_vmas mm)"
proof (cases "mm_vbad mm")
  case False
  let ?Q = "\<lambda>v. \<not> vm_end (mm_area mm v) \<le> addr"
  note d = vm_okD [OF assms]
  obtain xs ys where u: "upto_addr mm addr xs ys" by (rule upto_addr_ex [OF d(1)])
  have l: "mm_vmas mm = xs @ ys" and x: "\<And>x. x \<in> set xs \<Longrightarrow> vm_start (mm_area mm x) \<le> addr"
    and y: "\<And>y. y \<in> set ys \<Longrightarrow> \<not> vm_start (mm_area mm y) \<le> addr" using u by (auto simp: upto_addr_def)
  have i: "vidx_upper mm addr = length xs" using vidx_upper_eq [OF d(5) [OF False] u] .
  have tail: "List.find ?Q ys = (case ys of [] \<Rightarrow> None | w # ws \<Rightarrow> Some w)"
  proof (cases ys)
    case (Cons w ws)
    have "vm_start (mm_area mm w) < vm_end (mm_area mm w)" by (rule areas_memD [OF d(1)]) (simp add: l Cons)
    moreover have "\<not> vm_start (mm_area mm w) \<le> addr" by (rule y) (simp add: Cons)
    ultimately have "\<not> vm_end (mm_area mm w) \<le> addr" by order
    then show ?thesis by (simp add: Cons)
  qed simp
  show ?thesis
  proof (cases xs rule: rev_cases)
    case Nil
    then show ?thesis using False i tail l d(5) by (cases ys) (simp_all add: vma_first_ending_after_def)
  next
    case (snoc zs z)
    have zs: "vm_end (mm_area mm w) \<le> addr" if "w \<in> set zs" for w
      using areas_appendD(2) [OF d(1), of zs "z # ys" w z] that x [of z] l snoc by simp
    have "List.find ?Q (mm_vmas mm) = (if ?Q z then Some z else List.find ?Q ys)"
      using find_prefix [of zs ?Q "z # ys"] zs by (simp add: l snoc)
    then show ?thesis using False i tail l d(5) snoc
      by (cases ys) (simp_all add: vma_first_ending_after_def nth_append not_le)
  qed
qed (simp add: vma_first_ending_after_def)

lemma first_ending_after_cases:
  assumes "vm_ok mm"
  obtains (none) "vma_first_ending_after mm addr = None" "\<And>v. v \<in> set (mm_vmas mm) \<Longrightarrow> vm_end (mm_area mm v) \<le> addr"
  | (some) xs v ys where "vma_first_ending_after mm addr = Some v" "mm_vmas mm = xs @ v # ys"
      "\<And>x. x \<in> set xs \<Longrightarrow> vm_end (mm_area mm x) \<le> addr" "addr < vm_end (mm_area mm v)"
proof (cases "vma_first_ending_after mm addr")
  case None
  then show ?thesis using none by (simp add: first_ending_after_eq [OF assms] find_None_iff)
next
  case (Some v)
  then obtain i where i: "i < length (mm_vmas mm)" "v = mm_vmas mm ! i" "addr < vm_end (mm_area mm v)"
      "\<forall>j<i. vm_end (mm_area mm (mm_vmas mm ! j)) \<le> addr"
    unfolding first_ending_after_eq [OF assms] find_Some_iff by force
  show ?thesis
  proof (rule some [OF Some])
    show "mm_vmas mm = take i (mm_vmas mm) @ v # drop (Suc i) (mm_vmas mm)" using i(1,2) id_take_nth_drop by metis
    show "vm_end (mm_area mm x) \<le> addr" if "x \<in> set (take i (mm_vmas mm))" for x
      using that i(1,4) by (auto simp: in_set_conv_nth)
  qed (rule i(3))
qed

section \<open>What an address maps to\<close>

definition in_area :: "u64 \<Rightarrow> vm_area \<Rightarrow> bool" where
  "in_area addr a \<longleftrightarrow> vm_start a \<le> addr \<and> addr < vm_end a"

text \<open>All an area says about an address in it; the position counts when a file or device is behind it.\<close>

definition position :: "vm_area \<Rightarrow> u64 \<Rightarrow> u64" where
  "position a addr =
     (if (vm_vnode a \<noteq> None \<or> vm_pfn a \<noteq> None) \<and> vm_flags a AND (VM_FILE OR VM_PFNMAP) \<noteq> 0
      then vm_offset a + (addr - vm_start a) else 0)"

definition view :: "vm_area \<Rightarrow> u64 \<Rightarrow> vm_area" where
  "view a addr = a\<lparr>vm_start := 0, vm_end := 0, vm_offset := position a addr\<rparr>"

fun mapped :: "vm_area list \<Rightarrow> u64 \<Rightarrow> vm_area option" where
  "mapped [] addr = None"
| "mapped (a # as) addr = (if in_area addr a then Some (view a addr) else mapped as addr)"

lemma mapped_append: "mapped (xs @ ys) addr = (if mapped xs addr = None then mapped ys addr else mapped xs addr)"
  by (induction xs) auto

lemma mapped_None: "(\<And>a. a \<in> set as \<Longrightarrow> \<not> in_area addr a) \<Longrightarrow> mapped as addr = None"
  by (induction as) auto

lemma mapped_None_iff: "mapped as addr = None \<longleftrightarrow> (\<forall>a\<in>set as. \<not> in_area addr a)"
  by (induction as) auto

lemma mapped_mem:
  assumes "areas_ok as" "a \<in> set as" "in_area addr a"
  shows "mapped as addr = Some (view a addr)"
  using assms
proof (induction as)
  case (Cons b bs)
  show ?case
  proof (cases "a = b")
    case False
    with Cons.prems have "before b a" "a \<in> set bs" "areas_ok bs" by (auto simp: areas_ok_Cons)
    moreover have "\<not> in_area addr b" using \<open>before b a\<close> Cons.prems(3) by (auto simp: before_def in_area_def)
    ultimately show ?thesis using Cons by simp
  qed (use Cons.prems in simp)
qed simp

lemma mm_find_vma_spec:
  assumes ok: "vm_ok mm" and f: "mm_find_vma mm addr = (r, mm')"
  shows "(case r of None \<Rightarrow> \<forall>v\<in>set (mm_vmas mm). \<not> in_area addr (mm_area mm v)
            | Some v \<Rightarrow> v \<in> set (mm_vmas mm) \<and> in_area addr (mm_area mm v)) \<and>
    vm_ok mm' \<and> (\<exists>c. mm' = mm\<lparr>mm_vcache := c\<rparr>)"
proof (cases "\<exists>c. mm_vcache mm = Some c \<and> in_area addr (mm_area mm c)")
  case True
  then obtain c where c: "mm_vcache mm = Some c" "in_area addr (mm_area mm c)" by blast
  then have "r = Some c" "mm' = mm" using f by (auto simp: mm_find_vma_def in_area_def)
  moreover have "\<exists>c. mm = mm\<lparr>mm_vcache := c\<rparr>" by (rule exI [of _ "mm_vcache mm"]) simp
  ultimately show ?thesis using c vm_okD(6) [OF ok c(1)] ok by auto
next
  case False
  then have f2: "(case vma_first_ending_after mm addr of None \<Rightarrow> (None, mm)
      | Some v \<Rightarrow> if addr < vm_start (mm_area mm v) then (None, mm) else (Some v, mm\<lparr>mm_vcache := Some v\<rparr>)) = (r, mm')"
    using f by (cases "mm_vcache mm") (auto simp: mm_find_vma_def in_area_def)
  have same: "\<exists>c. mm = mm\<lparr>mm_vcache := c\<rparr>" by (rule exI [of _ "mm_vcache mm"]) simp
  show ?thesis
  proof (rule first_ending_after_cases [OF ok, of addr])
    assume n: "vma_first_ending_after mm addr = None" "\<And>v. v \<in> set (mm_vmas mm) \<Longrightarrow> vm_end (mm_area mm v) \<le> addr"
    then have "r = None" "mm' = mm" using f2 by auto
    moreover have "\<not> in_area addr (mm_area mm v)" if "v \<in> set (mm_vmas mm)" for v
      using n(2) [OF that] by (auto simp: in_area_def not_less)
    ultimately show ?thesis using ok same by auto
  next
    fix xs v ys
    assume s: "vma_first_ending_after mm addr = Some v" "mm_vmas mm = xs @ v # ys"
      "\<And>x. x \<in> set xs \<Longrightarrow> vm_end (mm_area mm x) \<le> addr" "addr < vm_end (mm_area mm v)"
    show ?thesis
    proof (cases "addr < vm_start (mm_area mm v)")
      case True
      then have "r = None" "mm' = mm" using f2 s(1) by auto
      moreover have "\<not> in_area addr (mm_area mm w)" if w: "w \<in> set (mm_vmas mm)" for w
      proof -
        consider "w \<in> set xs" | "w = v" | "w \<in> set ys" using w s(2) by auto
        then show ?thesis
        proof cases
          case 1
          from s(3) [OF this] show ?thesis by (auto simp: in_area_def not_less)
        next
          case 3
          then have "vm_end (mm_area mm v) \<le> vm_start (mm_area mm w)"
            using areas_appendD(2) [OF vm_okD(1) [OF ok], of "xs @ [v]" ys v w] s(2) by simp
          with s(4) show ?thesis by (auto simp: in_area_def)
        qed (use True in \<open>auto simp: in_area_def\<close>)
      qed
      ultimately show ?thesis using ok same by auto
    next
      case False
      then have "r = Some v" "mm' = mm\<lparr>mm_vcache := Some v\<rparr>" using f2 s(1) by auto
      moreover have "vm_ok (mm\<lparr>mm_vcache := Some v\<rparr>)" using ok s(2) by (simp add: vm_ok_def areas_def stock_def)
      moreover have "in_area addr (mm_area mm v)" using False s(4) by (simp add: in_area_def)
      ultimately show ?thesis using s(2) by auto
    qed
  qed
qed

section \<open>Linking and unlinking\<close>

lemma insert_after_spec:
  assumes "distinct (xs @ ys)"
  shows "insert_after (if length xs > 0 then Some ((xs @ ys) ! (length xs - 1)) else None) n (xs @ ys) = xs @ n # ys"
proof (cases xs rule: rev_cases)
  case (snoc zs z)
  have "takeWhile (\<lambda>x. x \<noteq> z) (zs @ z # ys) = zs" "dropWhile (\<lambda>x. x \<noteq> z) (zs @ z # ys) = z # ys"
    using assms snoc by (auto simp: takeWhile_append dropWhile_append)
  then show ?thesis using snoc by (simp add: insert_after_def nth_append)
qed (simp add: insert_after_def)

lemma takeWhile_split:
  assumes "\<And>x. x \<in> set xs \<Longrightarrow> Q x" "\<And>y. y \<in> set ys \<Longrightarrow> \<not> Q y"
  shows "takeWhile Q (xs @ ys) = xs" "dropWhile Q (xs @ ys) = ys"
  using assms by (cases ys; simp add: takeWhile_append dropWhile_append)+

lemma vma_link_spec:
  assumes ok: "distinct (mm_vmas mm)" "mm_vbad mm \<or> mm_vidx mm = mm_vmas mm" and l: "mm_vmas mm = xs @ ys"
    and x: "\<forall>x\<in>set xs. vm_start (mm_area mm x) < vm_start (mm_area mm n)"
    and y: "\<forall>y\<in>set ys. vm_start (mm_area mm n) < vm_start (mm_area mm y)"
  shows "mm_vmas (vma_link n mm) = xs @ n # ys"
    and "mm_vbad (vma_link n mm) \<or> mm_vidx (vma_link n mm) = xs @ n # ys"
    and "mm_area (vma_link n mm) = mm_area mm" "mm_mem (vma_link n mm) = mm_mem mm" "mm_vcache (vma_link n mm) = mm_vcache mm"
    and "mm_events (vma_link n mm) = mm_events mm" "mm_brk (vma_link n mm) = mm_brk mm"
    and "mm_brk_start (vma_link n mm) = mm_brk_start mm" "mm_mmap_top (vma_link n mm) = mm_mmap_top mm"
proof -
  let ?s = "vm_start (mm_area mm n)"
  show "mm_area (vma_link n mm) = mm_area mm" "mm_mem (vma_link n mm) = mm_mem mm" "mm_vcache (vma_link n mm) = mm_vcache mm"
    "mm_events (vma_link n mm) = mm_events mm" "mm_brk (vma_link n mm) = mm_brk mm"
    "mm_brk_start (vma_link n mm) = mm_brk_start mm" "mm_mmap_top (vma_link n mm) = mm_mmap_top mm"
    by (auto simp: vma_link_def Let_def split: list.splits bool.splits)
  have "upto_addr mm ?s xs ys" using l x y by (force simp: upto_addr_def)
  then have i: "vidx_upper mm ?s = length xs" if "\<not> mm_vbad mm" using ok(2) that vidx_upper_eq by blast
  have ia: "insert_after (if length xs > 0 then Some ((xs @ ys) ! (length xs - 1)) else None) n (xs @ ys) = xs @ n # ys"
    by (rule insert_after_spec) (use ok(1) l in simp)
  have t: "takeWhile (\<lambda>v. vm_start (mm_area mm v) < ?s) (xs @ ys) = xs"
      "dropWhile (\<lambda>v. vm_start (mm_area mm v) < ?s) (xs @ ys) = ys"
    by (rule takeWhile_split; use x y in force)+
  have v: "mm_vidx mm = xs @ ys" if "\<not> mm_vbad mm" using ok(2) l that by simp
  show "mm_vmas (vma_link n mm) = xs @ n # ys"
    using i ia t l v by (cases "mm_vbad mm") (auto simp: vma_link_def Let_def split: list.splits bool.splits)
  show "mm_vbad (vma_link n mm) \<or> mm_vidx (vma_link n mm) = xs @ n # ys"
    using i ia l v by (cases "mm_vbad mm") (auto simp: vma_link_def Let_def split: list.splits bool.splits)
qed

lemma vma_unlink_spec:
  assumes ok: "areas_ok (areas mm)" "distinct (mm_vmas mm)" "mm_vbad mm \<or> mm_vidx mm = mm_vmas mm" and l: "mm_vmas mm = xs @ v # ys"
  shows "mm_vmas (vma_unlink v mm) = xs @ ys" "mm_vbad (vma_unlink v mm) \<or> mm_vidx (vma_unlink v mm) = xs @ ys"
    and "mm_vcache (vma_unlink v mm) = (if mm_vcache mm = Some v then None else mm_vcache mm)"
    and "mm_area (vma_unlink v mm) = mm_area mm" "mm_mem (vma_unlink v mm) = mm_mem mm" "mm_events (vma_unlink v mm) = mm_events mm"
    and "mm_brk (vma_unlink v mm) = mm_brk mm" "mm_brk_start (vma_unlink v mm) = mm_brk_start mm"
    and "mm_mmap_top (vma_unlink v mm) = mm_mmap_top mm"
proof -
  show "mm_vcache (vma_unlink v mm) = (if mm_vcache mm = Some v then None else mm_vcache mm)"
    "mm_area (vma_unlink v mm) = mm_area mm" "mm_mem (vma_unlink v mm) = mm_mem mm" "mm_events (vma_unlink v mm) = mm_events mm"
    "mm_brk (vma_unlink v mm) = mm_brk mm" "mm_brk_start (vma_unlink v mm) = mm_brk_start mm"
    "mm_mmap_top (vma_unlink v mm) = mm_mmap_top mm"
    by (simp_all add: vma_unlink_def Let_def)
  have nv: "v \<notin> set xs" using ok(2) l by simp
  then show "mm_vmas (vma_unlink v mm) = xs @ ys" by (simp add: vma_unlink_def Let_def l remove1_append)
  have "upto_addr mm (vm_start (mm_area mm v)) (xs @ [v]) ys"
    unfolding upto_addr_def
  proof (intro conjI ballI)
    show "vm_start (mm_area mm x) \<le> vm_start (mm_area mm v)" if "x \<in> set (xs @ [v])" for x
      using that areas_appendD(1,2) [OF ok(1) l, of x v] by (cases "x = v") auto
    show "\<not> vm_start (mm_area mm y) \<le> vm_start (mm_area mm v)" if "y \<in> set ys" for y
      using that areas_appendD(1,2) [OF ok(1), of "xs @ [v]" ys v y] l by simp
  qed (simp add: l)
  then have i: "vidx_upper mm (vm_start (mm_area mm v)) = length xs + 1" if "\<not> mm_vbad mm"
    using ok(3) that vidx_upper_eq [of mm _ "xs @ [v]" ys] by simp
  show "mm_vbad (vma_unlink v mm) \<or> mm_vidx (vma_unlink v mm) = xs @ ys"
    using i ok(3) l by (cases "mm_vbad mm") (simp_all add: vma_unlink_def Let_def)
qed

section \<open>Splitting\<close>

text \<open>The upper part of an area that is cut.\<close>

definition upper_part :: "vm_area \<Rightarrow> u64 \<Rightarrow> vm_area" where
  "upper_part a at = a\<lparr>vm_start := at,
     vm_offset := (if vm_flags a AND (VM_FILE OR VM_PFNMAP) \<noteq> 0 then vm_offset a + (at - vm_start a) else vm_offset a)\<rparr>"

definition lower_part :: "vm_area \<Rightarrow> u64 \<Rightarrow> vm_area" where
  "lower_part a at = a\<lparr>vm_end := at\<rparr>"

lemma part_simps [simp]:
  "vm_start (upper_part a at) = at" "vm_end (upper_part a at) = vm_end a" "vm_flags (upper_part a at) = vm_flags a"
  "vm_start (lower_part a at) = vm_start a" "vm_end (lower_part a at) = at" "vm_flags (lower_part a at) = vm_flags a"
  by (simp_all add: upper_part_def lower_part_def)

lemma view_parts: "view (upper_part a at) addr = view a addr" "view (lower_part a at) addr = view a addr"
  by (simp_all add: view_def upper_part_def lower_part_def position_def)

lemma mapped_parts:
  assumes "vm_start a < at" "at < vm_end a"
  shows "mapped (lower_part a at # upper_part a at # as) addr = mapped (a # as) addr"
  using assms by (auto simp: in_area_def view_parts)

text \<open>A state with other areas: the frame of an operation, which takes new areas from the coming allocations only.\<close>

definition names :: "mm \<Rightarrow> nat set" where
  "names mm = set (mm_vmas mm) \<union> set (stock mm)"

definition frame :: "mm \<Rightarrow> mm \<Rightarrow> bool" where
  "frame mm' mm \<longleftrightarrow> mm_brk mm' = mm_brk mm \<and> mm_brk_start mm' = mm_brk_start mm \<and> mm_mmap_top mm' = mm_mmap_top mm \<and>
     names mm' \<subseteq> names mm"

lemma frame_refl [simp]: "frame mm mm" by (simp add: frame_def)
lemma frame_trans: "frame c b \<Longrightarrow> frame b a \<Longrightarrow> frame c a" by (auto simp: frame_def)

lemma vma_new_stock:
  assumes "vma_new mm = (r, mm1)"
  shows "mm1 = mm\<lparr>mm_mem := tl (mm_mem mm)\<rparr>" "stock mm = (case r of None \<Rightarrow> [] | Some n \<Rightarrow> [n]) @ stock mm1"
  using assms by (auto simp: vma_new_def stock_def map_filter_simps split: list.splits option.splits)

lemma vma_split_spec:
  assumes ok: "vm_ok mm" and l: "mm_vmas mm = xs @ v # ys" and at: "vm_start (mm_area mm v) < at" "at < vm_end (mm_area mm v)"
    and s: "vma_split v at mm = (r, mm')"
  shows "case r of
      None \<Rightarrow> vm_ok mm' \<and> mm' = mm\<lparr>mm_mem := tl (mm_mem mm)\<rparr>
    | Some n \<Rightarrow> vm_ok mm' \<and> mm_vmas mm' = xs @ v # n # ys \<and> frame mm' mm \<and> n \<notin> set (mm_vmas mm) \<and>
        mm_area mm' = (mm_area mm)(n := upper_part (mm_area mm v) at, v := lower_part (mm_area mm v) at)"
proof (cases r)
  case None
  then have n: "vma_new mm = (None, mm')" using s by (auto simp: vma_split_def Let_def split: prod.splits option.splits)
  note k = vma_new_stock [OF n]
  have "vm_ok mm'" using ok k(2) by (simp add: vm_ok_def k(1) areas_def stock_def)
  with None k(1) show ?thesis by simp
next
  case (Some n)
  obtain mm1 where n: "vma_new mm = (Some n, mm1)" using s Some by (auto simp: vma_split_def Let_def split: prod.splits option.splits)
  note k = vma_new_stock [OF n] and d = vm_okD [OF ok]
  have fresh: "n \<notin> set (mm_vmas mm)" using d(4) k(2) by auto
  then have nv: "n \<noteq> v" using l by auto
  let ?a = "mm_area mm v"
  let ?A = "(mm_area mm)(n := upper_part ?a at, v := lower_part ?a at)"
  have a1: "mm_area mm1 = mm_area mm" by (simp add: k(1))
  obtain es where e: "mm' = vma_link n (upd_area v (\<lambda>a. a\<lparr>vm_end := at\<rparr>) (event es (upd_area n (\<lambda>_. upper_part ?a at) mm1)))"
    using s n by (auto simp: vma_split_def Let_def upper_part_def a1 cong: if_cong)
  define m where "m = upd_area v (\<lambda>a. a\<lparr>vm_end := at\<rparr>) (event es (upd_area n (\<lambda>_. upper_part ?a at) mm1))"
  have mm': "mm' = vma_link n m" unfolding m_def by (rule e)
  have m: "mm_area m = ?A" "mm_vmas m = mm_vmas mm" "mm_vidx m = mm_vidx mm" "mm_vbad m = mm_vbad mm"
      "mm_vcache m = mm_vcache mm" "mm_mem m = tl (mm_mem mm)"
      "mm_brk m = mm_brk mm" "mm_brk_start m = mm_brk_start mm" "mm_mmap_top m = mm_mmap_top mm"
    using nv by (simp_all add: m_def upd_area_def event_def k(1) lower_part_def)
  have ao: "areas_ok (map (mm_area mm) xs @ ?a # map (mm_area mm) ys)" using d(1) l by (simp add: areas_def)
  have mx: "map ?A xs = map (mm_area mm) xs" "map ?A ys = map (mm_area mm) ys" using fresh d(2) l by auto
  have lk: "mm_vmas m = (xs @ [v]) @ ys" "distinct (mm_vmas m)" "mm_vbad m \<or> mm_vidx m = mm_vmas m"
    using d(2,5) l by (auto simp: m)
  have lt: "vm_start (mm_area m x) < vm_start (mm_area m n)" if "x \<in> set (xs @ [v])" for x
    using that at areas_appendD(1,2) [OF d(1) l, of x v] fresh l by (cases "x = v") (auto simp: m)
  have gt: "vm_start (mm_area m n) < vm_start (mm_area m y)" if "y \<in> set ys" for y
  proof -
    have "y \<noteq> v" "y \<noteq> n" using that d(2) fresh l by auto
    then show ?thesis using nv at areas_appendD(2) [OF d(1), of "xs @ [v]" ys v y] that l by (simp add: m)
  qed
  have lt': "\<forall>x\<in>set (xs @ [v]). vm_start (mm_area m x) < vm_start (mm_area m n)" by (rule ballI, rule lt)
  have gt': "\<forall>y\<in>set ys. vm_start (mm_area m n) < vm_start (mm_area m y)" by (rule ballI, rule gt)
  note ls = vma_link_spec [OF lk(2,3,1) lt' gt']
  have "areas mm' = map (mm_area mm) xs @ lower_part ?a at # upper_part ?a at # map (mm_area mm) ys"
    using nv mx by (simp add: areas_def mm' ls m)
  moreover have "areas_ok (map (mm_area mm) xs @ lower_part ?a at # upper_part ?a at # map (mm_area mm) ys)"
    using ao at by (auto simp: areas_ok_simps before_def)
  moreover have "distinct ((xs @ v # n # ys) @ stock mm1)" using d(2,3,4) l k(2) by auto
  ultimately have "vm_ok mm'"
    using d(6) l ls by (auto simp: vm_ok_def mm' stock_def k(1) m)
  moreover have "names mm' \<subseteq> names mm"
    using k(2) l ls(1,4) by (auto simp: names_def mm' stock_def m k(1))
  ultimately show ?thesis using Some fresh ls by (simp add: mm' frame_def m)
qed

text \<open>Splitting changes no mapping.\<close>

lemma vma_split_mapped:
  assumes ok: "vm_ok mm" and l: "mm_vmas mm = xs @ v # ys" and at: "vm_start (mm_area mm v) < at" "at < vm_end (mm_area mm v)"
    and s: "vma_split v at mm = (r, mm')"
  shows "mapped (areas mm') addr = mapped (areas mm) addr" "frame mm' mm" "vm_ok mm'"
proof -
  note k = vma_split_spec [OF ok l at s]
  have "mapped (areas mm') addr = mapped (areas mm) addr \<and> frame mm' mm \<and> vm_ok mm'"
  proof (cases r)
    case None
    then have "vma_new mm = (None, mm')" using s by (auto simp: vma_split_def Let_def split: prod.splits option.splits)
    then have "stock mm = stock mm'" using vma_new_stock(2) by fastforce
    with None k show ?thesis by (auto simp: areas_def frame_def names_def)
  next
    case (Some n)
    have nv: "n \<noteq> v" and n: "n \<notin> set xs" "n \<notin> set ys" using k Some l by auto
    have v: "v \<notin> set xs" "v \<notin> set ys" using vm_okD(2) [OF ok] l by auto
    have "areas mm' = map (mm_area mm) xs @ lower_part (mm_area mm v) at # upper_part (mm_area mm v) at # map (mm_area mm) ys"
      using k Some nv n v by (simp add: areas_def map_fun_upd)
    moreover have "areas mm = map (mm_area mm) xs @ mm_area mm v # map (mm_area mm) ys" using l by (simp add: areas_def)
    ultimately show ?thesis using k Some mapped_parts [OF at, of "map (mm_area mm) ys" addr]
      by (simp add: mapped_append del: mapped.simps split: option.split)
  qed
  then show "mapped (areas mm') addr = mapped (areas mm) addr" "frame mm' mm" "vm_ok mm'" by simp_all
qed

section \<open>Unmapping\<close>

lemma event_simps [simp]:
  "mm_brk (event es mm) = mm_brk mm" "mm_brk_start (event es mm) = mm_brk_start mm" "mm_mmap_top (event es mm) = mm_mmap_top mm"
  "mm_vmas (event es mm) = mm_vmas mm" "mm_area (event es mm) = mm_area mm" "mm_vidx (event es mm) = mm_vidx mm"
  "mm_vbad (event es mm) = mm_vbad mm" "mm_vcache (event es mm) = mm_vcache mm" "mm_mem (event es mm) = mm_mem mm"
  "areas (event es mm) = areas mm" "stock (event es mm) = stock mm" "vm_ok (event es mm) = vm_ok mm"
  "frame (event es mm) mm' = frame mm mm'" "names (event es mm) = names mm"
  by (simp_all add: event_def areas_def stock_def vm_ok_def frame_def names_def)

text \<open>An area leaves the list.\<close>

definition drop_area :: "nat \<Rightarrow> mm \<Rightarrow> mm" where
  "drop_area v mm = vma_release v (vma_unlink v mm)"

lemma drop_area_spec:
  assumes ok: "vm_ok mm" and l: "mm_vmas mm = xs @ v # ys"
  shows "vm_ok (drop_area v mm)" "mm_vmas (drop_area v mm) = xs @ ys" "mm_area (drop_area v mm) = mm_area mm"
    "frame (drop_area v mm) mm"
proof -
  note d = vm_okD [OF ok]
  have i: "mm_vbad mm \<or> mm_vidx mm = mm_vmas mm" using d(5) by blast
  note u = vma_unlink_spec [OF d(1,2) i l]
  show m: "mm_vmas (drop_area v mm) = xs @ ys" "mm_area (drop_area v mm) = mm_area mm" "frame (drop_area v mm) mm"
    using l by (auto simp: drop_area_def vma_release_def u frame_def names_def stock_def)
  have "areas_ok (map (mm_area mm) xs @ map (mm_area mm) ys)" using d(1) l by (simp add: areas_def areas_ok_simps)
  then have "areas_ok (areas (vma_unlink v mm))" by (simp add: areas_def u)
  moreover have "c \<in> set (xs @ ys)" if "mm_vcache (vma_unlink v mm) = Some c" for c
    using that d(6) [of c] l unfolding u(3) by (auto split: if_splits)
  moreover have "distinct ((xs @ ys) @ stock mm)" using d(2,3,4) l by auto
  ultimately have "vm_ok (vma_unlink v mm)" using u(2) by (simp add: vm_ok_def u stock_def)
  then show "vm_ok (drop_area v mm)" by (simp add: drop_area_def vma_release_def)
qed

lemma vma_next_spec:
  assumes "distinct (mm_vmas mm)" "mm_vmas mm = xs @ v # ys"
  shows "vma_next v mm = (case ys of [] \<Rightarrow> None | y # _ \<Rightarrow> Some y)"
proof -
  have "dropWhile (\<lambda>x. x \<noteq> v) (xs @ v # ys) = v # ys" using assms by (auto simp: dropWhile_append)
  then show ?thesis using assms(2) by (simp add: vma_next_def split: list.split)
qed

text \<open>The areas left of a list when a range is cut out.\<close>

definition cut :: "u64 \<Rightarrow> u64 \<Rightarrow> vm_area list \<Rightarrow> u64 \<Rightarrow> vm_area option" where
  "cut s e as addr = (if s \<le> addr \<and> addr < e then None else mapped as addr)"

definition head :: "nat list \<Rightarrow> nat option" where
  "head ys = (case ys of [] \<Rightarrow> None | y # _ \<Rightarrow> Some y)"

text \<open>
  From an area that begins in the range on, the loop removes the rest of the range.
\<close>

lemma unmap_step:
  assumes "\<not> vm_start (mm_area mm v) < start" "vm_start (mm_area mm v) < till" "\<not> vm_end (mm_area mm v) > till"
  shows "unmap_loop start till (Some v) mm =
    unmap_loop start till (vma_next v mm) (drop_area v (zap_range v (vm_start (mm_area mm v)) (vm_end (mm_area mm v)) mm))"
  using assms by (subst unmap_loop.simps) (simp add: drop_area_def)

lemma unmap_stop: "unmap_loop start till None mm = Some (ok, mm)"
  "\<not> vm_start (mm_area mm v) < till \<Longrightarrow> unmap_loop start till (Some v) mm = Some (ok, mm)"
  by (subst unmap_loop.simps, simp)+

text \<open>What a loop over a range has done: removed the range, or a part of it when memory ran out.\<close>

definition unmapped :: "u64 \<Rightarrow> u64 \<Rightarrow> unit result \<Rightarrow> vm_area list \<Rightarrow> vm_area list \<Rightarrow> bool" where
  "unmapped start till r as as' \<longleftrightarrow>
     r = ok \<and> (\<forall>addr. mapped as' addr = cut start till as addr) \<or>
     r = Inl ENOMEM \<and> (\<forall>addr. mapped as' addr = mapped as addr \<or>
        start \<le> addr \<and> addr < till \<and> mapped as' addr = None)"

lemma unmapped_drop:
  assumes out: "\<And>addr. \<not> in_area addr a \<Longrightarrow> mapped as addr = mapped bs addr"
    and inn: "\<And>addr. in_area addr a \<Longrightarrow> start \<le> addr \<and> addr < till \<and> mapped bs addr = None"
    and u: "unmapped start till r bs cs"
  shows "unmapped start till r as cs"
proof -
  have "mapped cs addr = cut start till as addr" if "mapped cs addr = cut start till bs addr" for addr
    using that out [of addr] inn [of addr] by (cases "in_area addr a") (simp_all add: cut_def)
  moreover have "mapped cs addr = mapped as addr \<or> start \<le> addr \<and> addr < till \<and> mapped cs addr = None"
    if "mapped cs addr = mapped bs addr \<or> start \<le> addr \<and> addr < till \<and> mapped cs addr = None" for addr
    using that out [of addr] inn [of addr] by (cases "in_area addr a") auto
  ultimately show ?thesis using u unfolding unmapped_def by blast
qed

text \<open>
  From an area on that begins inside the range, the loop removes the rest of the range; it may have
  to split the last area, and stops early if it cannot.
\<close>

lemma unmap_tail:
  assumes "vm_ok mm" "mm_vmas mm = xs @ ys" "\<And>x. x \<in> set xs \<Longrightarrow> vm_end (mm_area mm x) \<le> start"
    and "\<And>y. y \<in> set ys \<Longrightarrow> start \<le> vm_start (mm_area mm y)" "start \<le> till"
  shows "\<exists>r mm'. unmap_loop start till (head ys) mm = Some (r, mm') \<and> vm_ok mm' \<and> frame mm' mm \<and>
    unmapped start till r (areas mm) (areas mm')"
  using assms
proof (induction "length ys" arbitrary: ys mm rule: less_induct)
  case less
  note d = vm_okD [OF less.prems(1)]
  have xs: "\<not> in_area addr a" if "a \<in> set (map (mm_area mm) xs)" "start \<le> addr" for a addr
    using that less.prems(3) by (force simp: in_area_def)
  show ?case
  proof (cases "\<exists>v zs. ys = v # zs \<and> vm_start (mm_area mm v) < till")
    case False
    then have stop: "unmap_loop start till (head ys) mm = Some (ok, mm)"
      by (cases ys) (auto simp: head_def unmap_stop)
    have "\<not> in_area addr (mm_area mm y)" if y: "y \<in> set ys" "addr < till" for y addr
    proof -
      obtain v zs where ys: "ys = v # zs" using y(1) by (cases ys) auto
      with False have v: "till \<le> vm_start (mm_area mm v)" by (simp add: not_less)
      have "vm_start (mm_area mm v) \<le> vm_start (mm_area mm y)"
        using y(1) ys areas_appendD(1,2) [OF d(1), of "xs @ [v]" zs v y] less.prems(2) by (cases "y = v") auto
      with v y(2) show ?thesis by (auto simp: in_area_def)
    qed
    then have "mapped (areas mm) addr = cut start till (areas mm) addr" for addr
      using xs less.prems(2) by (auto simp: cut_def areas_def intro!: mapped_None)
    with stop less.prems(1) show ?thesis by (auto simp: unmapped_def)
  next
    case True
    then obtain v zs where ys: "ys = v # zs" and vt: "vm_start (mm_area mm v) < till" by blast
    have l: "mm_vmas mm = xs @ v # zs" using less.prems(2) ys by simp
    have vs: "\<not> vm_start (mm_area mm v) < start" using less.prems(4) [of v] ys by (simp add: not_less)
    have zs: "vm_end (mm_area mm v) \<le> vm_start (mm_area mm z)" if "z \<in> set zs" for z
      using areas_appendD(2) [OF d(1), of "xs @ [v]" zs v z] that l by simp
    show ?thesis
    proof (cases "vm_end (mm_area mm v) > till")
      case False
      let ?mm = "drop_area v (zap_range v (vm_start (mm_area mm v)) (vm_end (mm_area mm v)) mm)"
      have zok: "vm_ok (zap_range v (vm_start (mm_area mm v)) (vm_end (mm_area mm v)) mm)"
        using less.prems(1) by (simp add: zap_range_def)
      have zl: "mm_vmas (zap_range v (vm_start (mm_area mm v)) (vm_end (mm_area mm v)) mm) = xs @ v # zs"
        using l by (simp add: zap_range_def)
      note da = drop_area_spec [OF zok zl]
      have area: "mm_area ?mm = mm_area mm" using da(3) by (simp add: zap_range_def)
      have fr: "frame ?mm mm" using da(4) by (simp add: zap_range_def frame_def)
      have step: "unmap_loop start till (head ys) mm = unmap_loop start till (head zs) ?mm"
        using unmap_step [OF vs vt False] vma_next_spec [OF d(2) l] by (simp add: ys head_def)
      have "\<exists>r mm'. unmap_loop start till (head zs) ?mm = Some (r, mm') \<and> vm_ok mm' \<and> frame mm' ?mm \<and>
          unmapped start till r (areas ?mm) (areas mm')"
        using less.prems ys da(1,2) area by (intro less.hyps) simp_all
      then obtain r mm' where r: "unmap_loop start till (head zs) ?mm = Some (r, mm')" "vm_ok mm'" "frame mm' ?mm"
          "unmapped start till r (areas ?mm) (areas mm')" by blast
      have eq: "areas mm = map (mm_area mm) xs @ mm_area mm v # map (mm_area mm) zs"
        "areas ?mm = map (mm_area mm) xs @ map (mm_area mm) zs"
        using l da(2) area by (simp_all add: areas_def)
      have out: "mapped (map (mm_area mm) xs @ mm_area mm v # map (mm_area mm) zs) addr =
            mapped (map (mm_area mm) xs @ map (mm_area mm) zs) addr" if "\<not> in_area addr (mm_area mm v)" for addr
        using that by (simp add: mapped_append split: option.split)
      have inn: "start \<le> addr \<and> addr < till \<and> mapped (map (mm_area mm) xs @ map (mm_area mm) zs) addr = None"
        if "in_area addr (mm_area mm v)" for addr
      proof -
        have r: "start \<le> addr" "addr < vm_end (mm_area mm v)" using that vs by (auto simp: in_area_def)
        have "\<not> in_area addr (mm_area mm z)" if "z \<in> set zs" for z
          using zs [OF that] r(2) by (auto simp: in_area_def)
        then show ?thesis using xs r False by (auto intro!: mapped_None)
      qed
      have "unmapped start till r (areas mm) (areas mm')"
        using unmapped_drop [of "mm_area mm v" "areas mm" "areas ?mm" start till r "areas mm'"] out inn r(4) unfolding eq by blast
      then show ?thesis unfolding step using r(1,2) frame_trans [OF r(3) fr] by blast
    next
      case True
      obtain r mm1 where sp: "vma_split v till mm = (r, mm1)" by (cases "vma_split v till mm")
      note s = vma_split_spec [OF less.prems(1) l vt True sp]
      show ?thesis
      proof (cases r)
        case None
        then have "unmap_loop start till (head ys) mm = Some (Inl ENOMEM, mm1)"
          using vs vt True sp by (subst unmap_loop.simps) (simp add: ys head_def)
        with vma_split_mapped [OF less.prems(1) l vt True sp] show ?thesis by (auto simp: unmapped_def)
      next
        case (Some n)
        let ?a = "mm_area mm v"
        let ?mz = "zap_range v (vm_start (mm_area mm1 v)) (vm_end (mm_area mm1 v)) mm1"
        let ?mm = "drop_area v ?mz"
        have s1: "vm_ok mm1" "mm_vmas mm1 = xs @ v # n # zs" "frame mm1 mm" "n \<notin> set (mm_vmas mm)"
            "mm_area mm1 = (mm_area mm)(n := upper_part ?a till, v := lower_part ?a till)"
          using s Some by simp_all
        have "vm_ok ?mz" "mm_vmas ?mz = xs @ v # n # zs" using s1(1,2) by (simp_all add: zap_range_def)
        note da = drop_area_spec [OF this]
        have nv: "n \<noteq> v" using s1(4) l by auto
        have ar: "mm_area ?mm = mm_area mm1" using da(3) by (simp add: zap_range_def)
        have na: "mm_area ?mm n = upper_part ?a till" by (subst ar) (simp add: s1(5) nv)
        have "unmap_loop start till (head ys) mm = unmap_loop start till (vma_next v mm1) ?mm"
          using vs vt True sp Some by (subst unmap_loop.simps) (simp add: ys head_def drop_area_def)
        also have "vma_next v mm1 = Some n" using vma_next_spec [OF vm_okD(2) [OF s1(1)] s1(2)] by simp
        also have "unmap_loop start till (Some n) ?mm = Some (ok, ?mm)"
          by (rule unmap_stop(2)) (simp only: na, simp)
        finally have step: "unmap_loop start till (head ys) mm = Some (ok, ?mm)" .
        have "map (mm_area mm1) xs = map (mm_area mm) xs" "map (mm_area mm1) zs = map (mm_area mm) zs"
          using s1(4,5) d(2) l by auto
        then have new: "areas ?mm = map (mm_area mm) xs @ upper_part ?a till # map (mm_area mm) zs"
          using nv unfolding areas_def da(2) ar by (simp add: s1(5))
        have old: "areas mm = map (mm_area mm) xs @ ?a # map (mm_area mm) zs" using l by (simp add: areas_def)
        have "mapped (areas ?mm) addr = cut start till (areas mm) addr" for addr
        proof (cases "start \<le> addr \<and> addr < till")
          case True
          have "\<not> in_area addr (mm_area mm z)" if "z \<in> set zs" for z
            using zs [OF that] True \<open>till < vm_end ?a\<close> by (auto simp: in_area_def)
          then have "mapped (areas ?mm) addr = None"
            unfolding new using xs True by (intro mapped_None) (auto simp: in_area_def)
          with True show ?thesis by (simp add: cut_def)
        next
          case False
          then have "in_area addr (upper_part ?a till) \<longleftrightarrow> in_area addr ?a"
            using vs vt \<open>till < vm_end ?a\<close> by (auto simp: in_area_def)
          with False show ?thesis unfolding new old by (auto simp: cut_def mapped_append view_parts)
        qed
        moreover have "frame ?mm mm" using da(4) s1(3) by (auto simp: zap_range_def frame_def)
        ultimately show ?thesis using step da(1) by (auto simp: unmapped_def)
      qed
    qed
  qed
qed

lemma unmap_locked_spec:
  assumes ok: "vm_ok mm" and le: "start \<le> till"
  shows "\<exists>r mm'. unmap_locked start till mm = Some (r, mm') \<and> vm_ok mm' \<and> frame mm' mm \<and> unmapped start till r (areas mm) (areas mm')"
proof (rule first_ending_after_cases [OF ok, of start])
  assume n: "vma_first_ending_after mm start = None" "\<And>v. v \<in> set (mm_vmas mm) \<Longrightarrow> vm_end (mm_area mm v) \<le> start"
  have "\<not> in_area addr a" if "a \<in> set (areas mm)" "start \<le> addr" for a addr
    using that n(2) by (force simp: areas_def in_area_def)
  then have "mapped (areas mm) addr = cut start till (areas mm) addr" for addr
    by (auto simp: cut_def intro!: mapped_None)
  then show ?thesis using n(1) ok by (auto simp: unmap_locked_def unmap_stop unmapped_def)
next
  fix xs v ys
  assume s: "vma_first_ending_after mm start = Some v" "mm_vmas mm = xs @ v # ys"
    "\<And>x. x \<in> set xs \<Longrightarrow> vm_end (mm_area mm x) \<le> start" "start < vm_end (mm_area mm v)"
  note d = vm_okD [OF ok]
  have ys: "vm_end (mm_area mm v) \<le> vm_start (mm_area mm y)" if "y \<in> set ys" for y
    using areas_appendD(2) [OF d(1), of "xs @ [v]" ys v y] that s(2) by simp
  show ?thesis
  proof (cases "vm_start (mm_area mm v) < start")
    case False
    have "start \<le> vm_start (mm_area mm y)" if "y \<in> set (v # ys)" for y
      using that False ys [of y] s(4) by (cases "y = v") auto
    from unmap_tail [OF ok s(2,3) this le] show ?thesis by (simp add: unmap_locked_def s(1) head_def)
  next
    case True
    obtain r mm1 where sp: "vma_split v start mm = (r, mm1)" by (cases "vma_split v start mm")
    note k = vma_split_spec [OF ok s(2) True s(4) sp] and mp = vma_split_mapped [OF ok s(2) True s(4) sp]
    have vt: "vm_start (mm_area mm v) < till" using True le by order
    show ?thesis
    proof (cases r)
      case None
      then have "unmap_locked start till mm = Some (Inl ENOMEM, mm1)"
        using s(1) True vt sp by (simp add: unmap_locked_def, subst unmap_loop.simps, simp)
      with mp show ?thesis by (auto simp: unmapped_def)
    next
      case (Some n)
      have k1: "vm_ok mm1" "mm_vmas mm1 = (xs @ [v]) @ n # ys" "n \<notin> set (mm_vmas mm)"
          "mm_area mm1 = (mm_area mm)(n := upper_part (mm_area mm v) start, v := lower_part (mm_area mm v) start)"
        using k Some by simp_all
      have nv: "n \<noteq> v" "n \<notin> set xs" "n \<notin> set ys" "v \<notin> set xs" "v \<notin> set ys" using k1(3) d(2) s(2) by auto
      have "vm_end (mm_area mm1 x) \<le> start" if "x \<in> set (xs @ [v])" for x
        using that s(3) nv by (auto simp: k1(4))
      moreover have "start \<le> vm_start (mm_area mm1 y)" if "y \<in> set (n # ys)" for y
        using that ys [of y] s(4) nv by (cases "y = n") (auto simp: k1(4))
      ultimately have "\<exists>r mm'. unmap_loop start till (head (n # ys)) mm1 = Some (r, mm') \<and> vm_ok mm' \<and> frame mm' mm1 \<and>
          unmapped start till r (areas mm1) (areas mm')"
        by (intro unmap_tail [OF k1(1,2) _ _ le])
      moreover have "unmap_locked start till mm = unmap_loop start till (head (n # ys)) mm1"
        using s(1) True vt sp Some by (simp add: unmap_locked_def head_def, subst unmap_loop.simps, simp)
      ultimately show ?thesis using mp frame_trans by (auto simp: unmapped_def cut_def)
    qed
  qed
qed

section \<open>Gaps\<close>

lemma word_gap:
  fixes lo cur len :: u64
  assumes "lo < cur" "len \<le> cur - lo"
  shows "lo \<le> cur - len" "cur - len \<le> cur"
proof -
  have "unat (cur - lo) = unat cur - unat lo" using assms(1) by (intro unat_sub) simp
  then have n: "unat len \<le> unat cur - unat lo" "unat lo < unat cur"
    using assms by (simp_all add: word_le_nat_alt word_less_nat_alt)
  then have "unat (cur - len) = unat cur - unat len" by (intro unat_sub) (simp add: word_le_nat_alt)
  then show "lo \<le> cur - len" "cur - len \<le> cur" using n by (simp_all add: word_le_nat_alt)
qed

lemma gap_loop_free:
  assumes "gap_loop flr len cur (rev as) = g" "g \<noteq> 0" "areas_ok as"
  shows "flr \<le> g \<and> g + len \<le> cur \<and> g \<le> g + len \<and> (\<forall>a\<in>set as. vm_end a \<le> g \<or> g + len \<le> vm_start a)"
  using assms
proof (induction as arbitrary: cur rule: rev_induct)
  case Nil
  then have "flr < cur" "len \<le> cur - flr" "g = cur - len" by (auto split: if_splits)
  then show ?case using word_gap [of flr cur len] by simp
next
  case (snoc a as)
  have ok: "areas_ok as" "vm_start a < vm_end a" "\<forall>b\<in>set as. vm_end b \<le> vm_start a"
    using snoc.prems(3) by (auto simp: areas_ok_simps before_def)
  let ?lo = "if vm_end a > flr then vm_end a else flr"
  consider (skip) "vm_start a \<ge> cur" | (fit) "vm_start a < cur" "vm_end a \<le> cur" "cur > ?lo" "cur - ?lo \<ge> len"
    | (down) "vm_start a < cur" "\<not> (vm_end a \<le> cur \<and> cur > ?lo \<and> cur - ?lo \<ge> len)"
    by (meson not_le)
  then show ?case
  proof cases
    case skip
    then have "gap_loop flr len cur (rev as) = g" using snoc.prems(1) by simp
    from snoc.IH [OF this snoc.prems(2) ok(1)] skip show ?thesis by auto
  next
    case fit
    then have "\<not> cur \<le> vm_start a" by order
    then have g: "g = cur - len" using fit snoc.prems(1) by (simp add: Let_def)
    have lo: "?lo \<le> g" "g \<le> cur" using word_gap [OF fit(3,4)] g by simp_all
    then have "vm_end a \<le> g" "flr \<le> g" by (auto split: if_splits)
    with lo(2) g ok show ?thesis by fastforce
  next
    case down
    then have "vm_start a > flr" "gap_loop flr len (vm_start a) (rev as) = g"
      using snoc.prems(1,2) by (auto simp: Let_def split: if_splits)
    from snoc.IH [OF this(2) snoc.prems(2) ok(1)] down(1) show ?thesis by auto
  qed
qed

section \<open>Merging\<close>

lemma view_merge:
  assumes "vma_mergeable a b"
  shows "view b addr = view a addr"
proof -
  have m: "vm_end a = vm_start b" "vm_flags a = vm_flags b" "vm_pte_extra a = vm_pte_extra b" "vm_vnode a = vm_vnode b"
    "vm_priv a = vm_priv b" "vm_priv_id a = vm_priv_id b" "vm_pfn a = None" "vm_pfn b = None" "vm_open a = None" "vm_open b = None"
    "vm_close a = None" "vm_close b = None" "vm_vnode a = None \<or> vm_offset a + (vm_end a - vm_start a) = vm_offset b"
    using assms by (auto simp: vma_mergeable_def split: if_splits)
  have "vm_offset b + (addr - vm_start b) = vm_offset a + (addr - vm_start a)" if "vm_vnode a \<noteq> None"
  proof -
    have "vm_offset b = vm_offset a + (vm_end a - vm_start a)" using m(13) that by simp
    then show ?thesis using m(1) by simp
  qed
  then have "position b addr = position a addr" using m(2,4,7,8) by (simp add: position_def)
  then show ?thesis using m(2-12) by (simp add: view_def)
qed

lemma view_end: "view (a\<lparr>vm_end := e\<rparr>) addr = view a addr"
  by (simp add: view_def position_def)

lemma mapped_merge:
  assumes "vma_mergeable a b" "vm_start a < vm_end a" "vm_start b < vm_end b"
  shows "mapped (a\<lparr>vm_end := vm_end b\<rparr> # as) addr = mapped (a # b # as) addr"
proof -
  have e: "vm_end a = vm_start b" using assms(1) by (auto simp: vma_mergeable_def split: if_splits)
  have "in_area addr (a\<lparr>vm_end := vm_end b\<rparr>) \<longleftrightarrow> in_area addr a \<or> in_area addr b"
    using assms(2,3) e by (auto simp: in_area_def)
  then show ?thesis using view_merge [OF assms(1)] by (simp add: view_end)
qed

definition merge_two :: "nat \<Rightarrow> nat \<Rightarrow> mm \<Rightarrow> mm" where
  "merge_two v n mm = drop_area n (upd_area v (\<lambda>a. a\<lparr>vm_end := vm_end (mm_area mm n)\<rparr>) mm)"

lemma merge_two_spec:
  assumes ok: "vm_ok mm" and l: "mm_vmas mm = xs @ v # n # ys" and m: "vma_mergeable (mm_area mm v) (mm_area mm n)"
  shows "vm_ok (merge_two v n mm)" "mm_vmas (merge_two v n mm) = xs @ v # ys" "frame (merge_two v n mm) mm"
    "mapped (areas (merge_two v n mm)) addr = mapped (areas mm) addr"
proof -
  note d = vm_okD [OF ok]
  let ?a = "mm_area mm v" and ?b = "mm_area mm n"
  let ?u = "upd_area v (\<lambda>a. a\<lparr>vm_end := vm_end ?b\<rparr>) mm"
  have dist: "v \<notin> set xs" "v \<notin> set ys" "v \<noteq> n" "n \<notin> set xs" "n \<notin> set ys" using d(2) l by auto
  have old: "areas mm = map (mm_area mm) xs @ ?a # ?b # map (mm_area mm) ys" using l by (simp add: areas_def)
  have e: "vm_end ?a = vm_start ?b" using m by (auto simp: vma_mergeable_def split: if_splits)
  have len: "vm_start ?a < vm_end ?a" "vm_start ?b < vm_end ?b" using d(1) by (auto simp: old areas_ok_simps)
  let ?v = "vma_unlink n ?u"
  have lu: "mm_vmas ?u = (xs @ [v]) @ n # ys" using l by (simp add: upd_area_def)
  have i: "mm_vbad mm \<or> mm_vidx mm = mm_vmas mm" using d(5) by blast
  text \<open>The index still leads to \<open>n\<close>, since no start has changed.\<close>
  have up: "upto_addr ?u (vm_start (mm_area ?u n)) (xs @ [v, n]) ys"
    unfolding upto_addr_def
  proof (intro conjI ballI)
    show "mm_vmas ?u = (xs @ [v, n]) @ ys" using lu by simp
    show "vm_start (mm_area ?u x) \<le> vm_start (mm_area ?u n)" if "x \<in> set (xs @ [v, n])" for x
    proof -
      have "vm_start (mm_area mm x) \<le> vm_start ?b"
        using that areas_appendD(1,2) [OF d(1), of "xs @ [v]" "n # ys" x n] l by (cases "x = n") auto
      then show ?thesis using dist by (auto simp: upd_area_def)
    qed
    show "\<not> vm_start (mm_area ?u y) \<le> vm_start (mm_area ?u n)" if "y \<in> set ys" for y
    proof -
      have "vm_start ?b < vm_end ?b" "vm_end ?b \<le> vm_start (mm_area mm y)" "y \<noteq> v"
        using that dist areas_appendD(1,2) [OF d(1), of "xs @ [v, n]" ys n y] l by auto
      then show ?thesis using dist(3) by (simp add: upd_area_def)
    qed
  qed
  have idx: "mm_vbad ?v \<or> mm_vidx ?v = xs @ v # ys"
  proof (cases "mm_vbad mm")
    case False
    then have iu: "mm_vidx ?u = mm_vmas ?u" using i by (simp add: upd_area_def)
    have "vidx_upper ?u (vm_start (mm_area ?u n)) = length xs + 2" using vidx_upper_eq [OF iu up] by simp
    then show ?thesis using iu lu by (simp add: vma_unlink_def Let_def nth_append)
  qed (simp add: vma_unlink_def upd_area_def Let_def)
  have vm: "mm_vmas ?v = xs @ v # ys" using dist lu by (simp add: vma_unlink_def Let_def remove1_append)
  have keep: "mm_area ?v = mm_area ?u" "mm_mem ?v = mm_mem mm"
      "mm_brk ?v = mm_brk mm \<and> mm_brk_start ?v = mm_brk_start mm \<and> mm_mmap_top ?v = mm_mmap_top mm"
      "mm_vcache ?v = (if mm_vcache mm = Some n then None else mm_vcache mm)"
    by (simp_all add: vma_unlink_def Let_def upd_area_def)
  have fr: "frame ?v mm" unfolding frame_def names_def stock_def keep(2) vm using keep(3) l by auto
  have new: "areas ?v = map (mm_area mm) xs @ ?a\<lparr>vm_end := vm_end ?b\<rparr> # map (mm_area mm) ys"
    using dist unfolding areas_def vm keep(1) by (simp add: upd_area_def)
  have "areas_ok (areas ?v)" using d(1) len e unfolding new old by (auto simp: areas_ok_simps before_def)
  moreover have "distinct ((xs @ v # ys) @ stock ?v)" using d(2,3,4) l by (auto simp: stock_def keep(2))
  moreover have "c \<in> set (xs @ v # ys)" if "mm_vcache ?v = Some c" for c
    using that d(6) [of c] l unfolding keep(4) by (auto split: if_splits)
  ultimately have "vm_ok ?v" using idx vm by (simp add: vm_ok_def)
  then show "vm_ok (merge_two v n mm)" "mm_vmas (merge_two v n mm) = xs @ v # ys" "frame (merge_two v n mm) mm"
    using vm fr by (simp_all add: merge_two_def drop_area_def vma_release_def)
  have "areas (merge_two v n mm) = areas ?v" by (simp add: merge_two_def drop_area_def vma_release_def)
  then show "mapped (areas (merge_two v n mm)) addr = mapped (areas mm) addr"
    unfolding new old using mapped_merge [OF m len, of "map (mm_area mm) ys" addr] by (simp add: mapped_append new del: mapped.simps)
qed

lemma merge_loop_spec:
  assumes "vm_ok mm" "v = None \<or> (\<exists>xs w. v = Some w \<and> mm_vmas mm = xs @ w # ys)"
  shows "\<exists>mm'. merge_loop till v mm = Some mm' \<and> vm_ok mm' \<and> frame mm' mm \<and> (\<forall>addr. mapped (areas mm') addr = mapped (areas mm) addr)"
  using assms
proof (induction "length ys" arbitrary: ys mm v rule: less_induct)
  case less
  show ?case
  proof (cases v)
    case None
    then have "merge_loop till v mm = Some mm" by (subst merge_loop.simps) simp
    with less.prems(1) show ?thesis by simp
  next
    case (Some w)
    then obtain xs where l: "mm_vmas mm = xs @ w # ys" using less.prems(2) by auto
    note nx = vma_next_spec [OF vm_okD(2) [OF less.prems(1)] l]
    show ?thesis
    proof (cases "vm_start (mm_area mm w) \<le> till")
      case False
      then have "merge_loop till v mm = Some mm" using Some by (subst merge_loop.simps) simp
      with less.prems(1) show ?thesis by simp
    next
      case True
      show ?thesis
      proof (cases ys)
        case Nil
        then have "merge_loop till v mm = merge_loop till None mm" using Some True nx by (subst merge_loop.simps) simp
        also have "\<dots> = Some mm" by (subst merge_loop.simps) simp
        finally show ?thesis using less.prems(1) by simp
      next
        case (Cons n zs)
        have l2: "mm_vmas mm = xs @ w # n # zs" using l Cons by simp
        show ?thesis
        proof (cases "vma_mergeable (mm_area mm w) (mm_area mm n)")
          case m: True
          note mt = merge_two_spec [OF less.prems(1) l2 m]
          have "merge_loop till v mm = merge_loop till (Some w) (merge_two w n mm)"
            using Some True nx Cons m by (subst merge_loop.simps) (simp add: merge_two_def drop_area_def)
          moreover have "\<exists>mm'. merge_loop till (Some w) (merge_two w n mm) = Some mm' \<and> vm_ok mm' \<and>
              frame mm' (merge_two w n mm) \<and> (\<forall>addr. mapped (areas mm') addr = mapped (areas (merge_two w n mm)) addr)"
            by (rule less.hyps [of zs]) (use Cons mt(1,2) in auto)
          ultimately show ?thesis using mt(3,4) frame_trans by metis
        next
          case False
          have "merge_loop till v mm = merge_loop till (Some n) mm"
            using Some True nx Cons False by (subst merge_loop.simps) simp
          moreover have "\<exists>mm'. merge_loop till (Some n) mm = Some mm' \<and> vm_ok mm' \<and>
              frame mm' mm \<and> (\<forall>addr. mapped (areas mm') addr = mapped (areas mm) addr)"
            by (rule less.hyps [of zs]) (use Cons less.prems(1) l2 in \<open>auto intro!: exI [of _ "xs @ [w]"]\<close>)
          ultimately show ?thesis by simp
        qed
      qed
    qed
  qed
qed

lemma vma_merge_range_spec:
  assumes "vm_ok mm"
  shows "\<exists>mm'. vma_merge_range start till mm = Some mm' \<and> vm_ok mm' \<and> frame mm' mm \<and>
    (\<forall>addr. mapped (areas mm') addr = mapped (areas mm) addr)"
proof (rule first_ending_after_cases [OF assms, of "if start \<noteq> 0 then start - 1 else 0"])
  assume "vma_first_ending_after mm (if start \<noteq> 0 then start - 1 else 0) = None"
  then show ?thesis unfolding vma_merge_range_def using merge_loop_spec [OF assms, of None "[]" till] by simp
next
  fix xs v ys
  assume "vma_first_ending_after mm (if start \<noteq> 0 then start - 1 else 0) = Some v" "mm_vmas mm = xs @ v # ys"
  then show ?thesis unfolding vma_merge_range_def using merge_loop_spec [OF assms, of "Some v" ys till] by auto
qed

end
