(* ===== verification/Mmap.thy ===== *)
theory Mmap
  imports Vma
begin

unbundle bit_operations_syntax

text \<open>
  The system calls on memory: \<^verbatim>\<open>kernel/src/syscall/mem/mmap.c\<close>, \<^verbatim>\<open>munmap.c\<close>, \<^verbatim>\<open>brk.c\<close> and
  \<^verbatim>\<open>mremap.c\<close>.  They check the arguments and the limits of the task and call the address space.

  \<open>files\<close> is the table of open files, \<open>vnodes\<close> what the file systems say of a vnode.  References taken
  and dropped are recorded in \<open>mt_log\<close>.
\<close>

definition PROT_READ :: u64 where "PROT_READ = 1"
definition PROT_WRITE :: u64 where "PROT_WRITE = 2"
definition PROT_EXEC :: u64 where "PROT_EXEC = 4"
definition MAP_SHARED :: u64 where "MAP_SHARED = 1"
definition MAP_PRIVATE :: u64 where "MAP_PRIVATE = 2"
definition MAP_ANONYMOUS :: u64 where "MAP_ANONYMOUS = 0x20"
definition MAP_FIXED :: u64 where "MAP_FIXED = 0x10"
definition MAP_TYPE_MASK :: u64 where "MAP_TYPE_MASK = 0x0F"
definition MAP_POPULATE_FLAG :: u64 where "MAP_POPULATE_FLAG = 0x8000"
definition MAP_FIXED_NOREPLACE :: u64 where "MAP_FIXED_NOREPLACE = 0x100000"
definition RLIM_INF_K :: u64 where "RLIM_INF_K = - 1"

datatype mt_event = FdGet nat | FdPut nat | AnonNew nat | AnonUnref nat | Populate u64 u64 bool

record open_file =
  f_flags :: u32
  f_vnode :: "nat option"

record vnode_info =
  vi_memfd :: bool
  vi_ops :: bool
  vi_mmap_page :: bool
  vi_regular :: bool
  vi_read :: bool
  vi_write :: bool

record mem_task =
  mt_userspace :: bool
  mt_uid :: u32
  mt_mm :: "mm option"
  mt_rlim_as :: u64
  mt_rlim_data :: u64
  mt_rlim_memlock :: u64
  mt_log :: "mt_event list"

definition log :: "mt_event list \<Rightarrow> mem_task \<Rightarrow> mem_task" where
  "log es t = t\<lparr>mt_log := mt_log t @ es\<rparr>"

text \<open>The functions behind a device or shared memory mapping, by name.\<close>

definition memfd_pfn :: nat where "memfd_pfn = 1"
definition device_pfn :: nat where "device_pfn = 2"

definition prot_to_vm :: "u64 \<Rightarrow> u32" where
  "prot_to_vm prot =
     (if prot AND PROT_READ \<noteq> 0 then VM_READ else 0) OR
     (if prot AND PROT_WRITE \<noteq> 0 then VM_WRITE OR VM_READ else 0) OR
     (if prot AND PROT_EXEC \<noteq> 0 then VM_EXEC OR VM_READ else 0)"

text \<open>The result of an operation on the address space is the result of the call; \<open>None\<close>: a loop without end.\<close>

definition on_mm :: "mem_task \<Rightarrow> ('a \<times> mm) option \<Rightarrow> ('a \<times> mem_task) option" where
  "on_mm t r = map_option (\<lambda>(x, mm). (x, t\<lparr>mt_mm := Some mm\<rparr>)) r"

section \<open>mmap\<close>

definition device_op :: "vnode_info \<Rightarrow> bool" where "device_op i \<longleftrightarrow> vi_ops i \<and> vi_mmap_page i"
definition regular_op :: "vnode_info \<Rightarrow> bool" where "regular_op i \<longleftrightarrow> vi_regular i \<and> vi_ops i \<and> vi_read i"

text \<open>The branch for a mapping of an open file, once the vnode \<open>n\<close> is known.\<close>

definition mmap_file ::
  "(nat \<Rightarrow> vnode_info) \<Rightarrow> u64 \<Rightarrow> u64 \<Rightarrow> u64 \<Rightarrow> u64 \<Rightarrow> u32 \<Rightarrow> bool \<Rightarrow> u64 \<Rightarrow> open_file \<Rightarrow> nat \<Rightarrow> mm \<Rightarrow> (u64 result \<times> mm) option" where
  "mmap_file vnodes hint len prot type vmf fixed offset file n mm =
     (let acc = f_flags file AND 3 in
      if prot AND PROT_READ \<noteq> 0 \<and> acc = 1 then Some (Inl EACCES, mm)
      else if vi_memfd (vnodes n) \<and> type = MAP_SHARED then
        mm_map_pfn hint len vmf fixed 0 (Some memfd_pfn) None None 0 0 (Some n) offset mm
      else if device_op (vnodes n) then
        mm_map_pfn hint len (vmf OR VM_SHARED) fixed 0 (Some device_pfn) None None 0 0 (Some n) offset mm
      else if regular_op (vnodes n) then
        if type = MAP_SHARED \<and> prot AND PROT_WRITE \<noteq> 0 \<and> acc = 0 then Some (Inl EACCES, mm)
        else mm_map_file hint len vmf fixed (Some n) offset mm
      else Some (Inl ENODEV, mm))"

text \<open>Everything after the checks of the arguments; \<open>anon\<close> is what the creation of an anonymous vnode returns.\<close>

definition mmap_map ::
  "(nat \<Rightarrow> vnode_info) \<Rightarrow> (nat \<Rightarrow> open_file option) option \<Rightarrow> nat option \<Rightarrow>
   u64 \<Rightarrow> u64 \<Rightarrow> u64 \<Rightarrow> u64 \<Rightarrow> nat \<Rightarrow> u64 \<Rightarrow> bool \<Rightarrow> mem_task \<Rightarrow> mm \<Rightarrow> (u64 result \<times> mem_task) option" where
  "mmap_map vnodes files anon hint len prot flags fd offset fixed t mm =
     (let type = flags AND MAP_TYPE_MASK;
          vmf = prot_to_vm prot OR (if type = MAP_SHARED then VM_SHARED else 0) in
      if flags AND MAP_ANONYMOUS \<noteq> 0 then
        if type = MAP_SHARED then
          (case anon of
             None \<Rightarrow> Some (Inl ENOMEM, t)
           | Some n \<Rightarrow>
               on_mm (log [AnonNew n, AnonUnref n] t)
                 (mm_map_pfn hint len vmf fixed 0 (Some memfd_pfn) None None 0 0 (Some n) 0 mm))
        else on_mm t (mm_map_anon hint len vmf fixed mm)
      else
        (case files of
           None \<Rightarrow> Some (Inl EBADF, t)
         | Some tab \<Rightarrow>
             (case tab fd of
                None \<Rightarrow> Some (Inl EBADF, t)
              | Some file \<Rightarrow>
                  (case f_vnode file of
                     None \<Rightarrow> Some (Inl EBADF, log [FdGet fd, FdPut fd] t)
                   | Some n \<Rightarrow>
                       on_mm (log [FdGet fd, FdPut fd] t)
                         (mmap_file vnodes hint len prot type vmf fixed offset file n mm)))))"

text \<open>The checks before anything is done: the first that fails gives the error.\<close>

definition mmap_check :: "u64 \<Rightarrow> u64 \<Rightarrow> u64 \<Rightarrow> u64 \<Rightarrow> mem_task \<Rightarrow> mm \<Rightarrow> errno option" where
  "mmap_check hint len flags offset t mm =
     (let type = flags AND MAP_TYPE_MASK;
          a = hint AND NOT 0xFFF; rounded = (len + 0xFFF) AND NOT 0xFFF; e = a + rounded;
          noreplace = (flags AND MAP_FIXED_NOREPLACE \<noteq> 0);
          fixed = (flags AND MAP_FIXED \<noteq> 0 \<or> noreplace) in
      if \<not> mt_userspace t then Some EINVAL
      else if len = 0 then Some EINVAL
      else if len > 0x400000000000 then Some ENOMEM
      else if offset AND 0xFFF \<noteq> 0 then Some EINVAL
      else if type \<noteq> MAP_SHARED \<and> type \<noteq> MAP_PRIVATE then Some EINVAL
      else if noreplace \<and> (e < a \<or> e > MM_USER_TOP) then Some ENOMEM
      else if noreplace \<and> \<not> range_free mm a e then Some EEXIST
      else if fixed \<and> hint AND 0xFFF \<noteq> 0 then Some EINVAL
      else if mt_rlim_as t \<noteq> RLIM_INF_K \<and> mm_vm_bytes mm + rounded > mt_rlim_as t then Some ENOMEM
      else None)"

definition sys_mmap ::
  "(nat \<Rightarrow> vnode_info) \<Rightarrow> (nat \<Rightarrow> open_file option) option \<Rightarrow> nat option \<Rightarrow>
   u64 \<Rightarrow> u64 \<Rightarrow> u64 \<Rightarrow> u64 \<Rightarrow> nat \<Rightarrow> u64 \<Rightarrow> mem_task \<Rightarrow> (u64 result \<times> mem_task) option" where
  "sys_mmap vnodes files anon hint len prot flags fd offset t =
     (case mt_mm t of
        None \<Rightarrow> Some (Inl EINVAL, t)
      | Some mm \<Rightarrow>
          (case mmap_check hint len flags offset t mm of
             Some e \<Rightarrow> Some (Inl e, t)
           | None \<Rightarrow>
               let fixed = (flags AND MAP_FIXED \<noteq> 0 \<or> flags AND MAP_FIXED_NOREPLACE \<noteq> 0) in
               (case mmap_map vnodes files anon hint len prot flags fd offset fixed t mm of
                  None \<Rightarrow> None
                | Some (Inl err, t1) \<Rightarrow> Some (Inl err, t1)
                | Some (Inr r, t1) \<Rightarrow>
                    if flags AND MAP_POPULATE_FLAG \<noteq> 0 \<and> \<not> bit r 63
                    then Some (Inr r, log [Populate r len (prot AND PROT_WRITE \<noteq> 0 \<and> flags AND MAP_TYPE_MASK = MAP_PRIVATE)] t1)
                    else Some (Inr r, t1))))"

section \<open>The other calls\<close>

definition sys_munmap :: "u64 \<Rightarrow> u64 \<Rightarrow> mem_task \<Rightarrow> (unit result \<times> mem_task) option" where
  "sys_munmap addr len t =
     (case mt_mm t of
        None \<Rightarrow> Some (Inl EINVAL, t)
      | Some mm \<Rightarrow>
          if \<not> mt_userspace t \<or> addr AND 0xFFF \<noteq> 0 \<or> len = 0 then Some (Inl EINVAL, t)
          else on_mm t (mm_unmap addr len mm))"

definition writable_vnode :: "(nat \<Rightarrow> vnode_info) \<Rightarrow> nat \<Rightarrow> bool" where
  "writable_vnode vnodes n \<longleftrightarrow> \<not> vi_ops (vnodes n) \<or> vi_write (vnodes n)"

definition sys_mprotect :: "(nat \<Rightarrow> vnode_info) \<Rightarrow> u64 \<Rightarrow> u64 \<Rightarrow> u64 \<Rightarrow> mem_task \<Rightarrow> (unit result \<times> mem_task) option" where
  "sys_mprotect vnodes addr len prot t =
     (case mt_mm t of
        None \<Rightarrow> Some (Inl EINVAL, t)
      | Some mm \<Rightarrow>
          if addr AND 0xFFF \<noteq> 0 then Some (Inl EINVAL, t)
          else on_mm t (mm_protect (writable_vnode vnodes) addr len (prot_to_vm prot) mm))"

definition sys_madvise :: "u64 \<Rightarrow> u64 \<Rightarrow> u64 \<Rightarrow> mem_task \<Rightarrow> unit result \<times> mem_task" where
  "sys_madvise addr len advice t =
     (case mt_mm t of
        None \<Rightarrow> (Inl EINVAL, t)
      | Some mm \<Rightarrow>
          if addr AND 0xFFF \<noteq> 0 then (Inl EINVAL, t)
          else if advice = 4 \<or> advice = 8 then
            (case mm_discard addr len mm of (r, mm1) \<Rightarrow> (r, t\<lparr>mt_mm := Some mm1\<rparr>))
          else (ok, t))"

definition sys_msync :: "u64 \<Rightarrow> u64 \<Rightarrow> u64 \<Rightarrow> mem_task \<Rightarrow> unit result \<times> mem_task" where
  "sys_msync addr len flags t =
     (case mt_mm t of
        None \<Rightarrow> (Inl EINVAL, t)
      | Some mm \<Rightarrow>
          if addr AND 0xFFF \<noteq> 0 then (Inl EINVAL, t)
          else (case mm_sync addr len mm of (r, mm1) \<Rightarrow> (r, t\<lparr>mt_mm := Some mm1\<rparr>)))"

definition sys_mlock :: "u64 \<Rightarrow> u64 \<Rightarrow> mem_task \<Rightarrow> (unit result \<times> mem_task) option" where
  "sys_mlock addr len t =
     (case mt_mm t of
        None \<Rightarrow> Some (Inl EINVAL, t)
      | Some mm \<Rightarrow>
          let lim = mt_rlim_memlock t in
          if mt_uid t \<noteq> 0 \<and> lim = 0 then Some (Inl EPERM, t)
          else if mt_uid t \<noteq> 0 \<and> lim \<noteq> RLIM_INF_K \<and> mm_locked_bytes mm + len > lim then Some (Inl ENOMEM, t)
          else on_mm t (mm_mlock addr len True mm))"

definition sys_munlock :: "u64 \<Rightarrow> u64 \<Rightarrow> mem_task \<Rightarrow> (unit result \<times> mem_task) option" where
  "sys_munlock addr len t =
     (case mt_mm t of None \<Rightarrow> Some (Inl EINVAL, t) | Some mm \<Rightarrow> on_mm t (mm_mlock addr len False mm))"

definition sys_mlockall :: "u64 \<Rightarrow> mem_task \<Rightarrow> unit result \<times> mem_task" where
  "sys_mlockall flags t =
     (case mt_mm t of
        None \<Rightarrow> (Inl EINVAL, t)
      | Some mm \<Rightarrow>
          let lim = mt_rlim_memlock t in
          if flags = 0 \<or> flags AND NOT 7 \<noteq> 0 then (Inl EINVAL, t)
          else if mt_uid t \<noteq> 0 \<and> lim = 0 then (Inl EPERM, t)
          else if mt_uid t \<noteq> 0 \<and> lim \<noteq> RLIM_INF_K \<and> flags AND 1 \<noteq> 0 \<and> mm_vm_bytes mm > lim then (Inl ENOMEM, t)
          else (ok, t\<lparr>mt_mm := Some (mm_mlockall (ucast flags) True mm)\<rparr>))"

definition sys_munlockall :: "mem_task \<Rightarrow> unit result \<times> mem_task" where
  "sys_munlockall t =
     (case mt_mm t of None \<Rightarrow> (Inl EINVAL, t) | Some mm \<Rightarrow> (ok, t\<lparr>mt_mm := Some (mm_mlockall 0 False mm)\<rparr>))"

definition sys_brk :: "u64 \<Rightarrow> mem_task \<Rightarrow> (u64 result \<times> mem_task) option" where
  "sys_brk new_brk t =
     (case mt_mm t of
        None \<Rightarrow> Some (Inl EINVAL, t)
      | Some mm \<Rightarrow>
          let data = mt_rlim_data t in
          if \<not> mt_userspace t then Some (Inl EINVAL, t)
          else if new_brk = 0 then Some (Inr (mm_brk mm), t)
          else if data \<noteq> RLIM_INF_K \<and> new_brk > mm_brk_start mm \<and> new_brk - mm_brk_start mm > data
          then Some (Inr (mm_brk mm), t)
          else on_mm t (map_option (\<lambda>(b, mm1). (Inr b, mm1)) (mm_set_brk new_brk mm)))"

definition sys_mremap ::
  "bool \<Rightarrow> u64 \<Rightarrow> u64 \<Rightarrow> u64 \<Rightarrow> u64 \<Rightarrow> u64 \<Rightarrow> mem_task \<Rightarrow> (u64 result \<times> mem_task) option" where
  "sys_mremap tables old old_len new_len flags new_addr t =
     (case mt_mm t of
        None \<Rightarrow> Some (Inl EINVAL, t)
      | Some mm \<Rightarrow>
          if \<not> mt_userspace t then Some (Inl EINVAL, t)
          else on_mm t (mm_remap tables old old_len new_len (ucast flags) new_addr mm))"

end
