(* ===== verification/Vma_Properties.thy ===== *)
theory Vma_Properties
  imports Vma_Correct Mmap
begin

unbundle bit_operations_syntax

text \<open>
  The promises of the memory calls: what \<open>mmap\<close>, \<open>munmap\<close> and the search for an area do to the
  address space, and the arguments for which they break it.
\<close>

section \<open>Rounding to pages\<close>

lemma PG_mask: "PG - 1 = mask 12" by (simp add: PG_def mask_eq_exp_minus_1)

lemma pdown_div: "pdown a = push_bit 12 (drop_bit 12 a)"
  unfolding pdown_def PG_mask by (simp add: bit_eq_iff bit_simps) (auto simp: bit_simps)

lemma unat_pdown: "unat (pdown a) = 4096 * (unat a div 4096)"
proof -
  have lt: "unat a div 4096 < 2 ^ 52"
    using unsigned_less [of a, where 'a = nat] by (simp add: less_mult_imp_div_less)
  have "unat (drop_bit 12 a) = unat a div 4096" by (simp add: drop_bit_eq_div unat_div)
  then have "unat (push_bit 12 (drop_bit 12 a)) = take_bit 64 (push_bit 12 (unat a div 4096))"
    by (simp add: unsigned_push_bit_eq)
  also have "\<dots> = 4096 * (unat a div 4096)"
    using lt by (simp add: push_bit_eq_mult take_bit_eq_mod)
  finally show ?thesis by (simp add: pdown_div)
qed

lemma pdown_le: "pdown a \<le> a"
  by (simp add: word_le_nat_alt unat_pdown)

lemma pup_pdown: "pup a = pdown (a + (PG - 1))"
  by (simp add: pup_def pdown_def PG_def algebra_simps)

lemma unat_pup:
  assumes "unat a \<le> 2 ^ 63"
  shows "unat (pup a) = 4096 * ((unat a + 4095) div 4096)"
proof -
  have "unat (a + (PG - 1)) = unat a + 4095"
    using assms by (subst unat_add_lem [THEN iffD1]) (simp_all add: PG_def)
  then show ?thesis by (simp add: pup_pdown unat_pdown)
qed


text \<open>A rounded length that stays below the end of user space covers the length and is not empty.\<close>

lemma pup_user:
  assumes "len \<noteq> 0" "len \<le> MM_USER_TOP"
  shows "pup len \<noteq> 0" "len \<le> pup len" "pup len \<le> MM_USER_TOP"
proof -
  have n: "unat len \<le> 2 ^ 47" "0 < unat len"
    using assms by (simp_all add: word_le_nat_alt MM_USER_TOP_def unat_gt_0)
  then have u: "unat (pup len) = 4096 * ((unat len + 4095) div 4096)" by (intro unat_pup) simp
  have "(unat len + 4095) div 4096 \<le> 2 ^ 35" using n(1) by simp
  then have "unat (pup len) \<le> 2 ^ 47" using u by simp
  moreover have "unat len \<le> unat (pup len)" using u by linarith
  ultimately show "pup len \<noteq> 0" "len \<le> pup len" "pup len \<le> MM_USER_TOP"
    using n(2) by (auto simp: word_le_nat_alt MM_USER_TOP_def)
qed

lemma sum_user:
  assumes "a \<le> MM_USER_TOP" "l \<le> MM_USER_TOP" "l \<noteq> 0"
  shows "a < a + l"
proof -
  have "unat a \<le> 2 ^ 47" "unat l \<le> 2 ^ 47" "0 < unat l"
    using assms by (simp_all add: word_le_nat_alt MM_USER_TOP_def unat_gt_0)
  moreover from this have "unat (a + l) = unat a + unat l" by (subst unat_add_lem [THEN iffD1]) simp_all
  ultimately show ?thesis by (simp add: word_less_nat_alt)
qed

section \<open>A new area\<close>

lemma link_area:
  assumes ok: "vm_ok mm" and v: "v \<notin> set (mm_vmas mm)" "v \<notin> set (stock mm)" and a: "vm_start a < vm_end a"
    and free: "\<forall>b\<in>set (areas mm). vm_end b \<le> vm_start a \<or> vm_end a \<le> vm_start b"
    and m_def: "m = vma_link v (event es (upd_area v (\<lambda>_. a) mm))"
  shows "vm_ok m" "mm_brk m = mm_brk mm" "mm_brk_start m = mm_brk_start mm" "mm_mmap_top m = mm_mmap_top mm"
    "mapped (areas m) addr = (if in_area addr a then Some (view a addr) else mapped (areas mm) addr)"
proof -
  note d = vm_okD [OF ok]
  let ?n = "event es (upd_area v (\<lambda>_. a) mm)" and ?Q = "\<lambda>x. vm_end (mm_area mm x) \<le> vm_start a"
  define xs where "xs = takeWhile ?Q (mm_vmas mm)"
  define ys where "ys = dropWhile ?Q (mm_vmas mm)"
  have l: "mm_vmas mm = xs @ ys" by (simp add: xs_def ys_def)
  have x: "vm_end (mm_area mm x) \<le> vm_start a" if "x \<in> set xs" for x
    using that by (auto simp: xs_def dest: set_takeWhileD)
  have nv: "v \<notin> set xs" "v \<notin> set ys" using v(1) l by auto
  have y: "vm_end a \<le> vm_start (mm_area mm y)" if "y \<in> set ys" for y
  proof (cases ys)
    case (Cons z zs)
    then have "\<not> ?Q z" unfolding ys_def by (metis dropWhile_eq_Cons_conv)
    moreover have "mm_area mm z \<in> set (areas mm)" using l Cons by (simp add: areas_def)
    ultimately have z: "vm_end a \<le> vm_start (mm_area mm z)" using free by auto
    show ?thesis
    proof (cases "y = z")
      case False
      then have "vm_end (mm_area mm z) \<le> vm_start (mm_area mm y)"
        using areas_appendD(2) [OF d(1), of "xs @ [z]" zs z y] that l Cons by simp
      moreover have "vm_start (mm_area mm z) < vm_end (mm_area mm z)" by (rule areas_memD [OF d(1)]) (simp add: l Cons)
      ultimately show ?thesis using z by order
    qed (use z in simp)
  qed (use that in simp)
  have k: "distinct (mm_vmas ?n)" "mm_vbad ?n \<or> mm_vidx ?n = mm_vmas ?n" "mm_vmas ?n = xs @ ys"
    using ok l by (auto simp: upd_area_def vm_ok_def event_def)
  have kx: "\<forall>x\<in>set xs. vm_start (mm_area ?n x) < vm_start (mm_area ?n v)"
  proof
    fix x assume xx: "x \<in> set xs"
    then have "vm_start (mm_area mm x) < vm_end (mm_area mm x)" by (intro areas_memD [OF d(1)]) (simp add: l)
    then have "vm_start (mm_area mm x) < vm_start a" using x [OF xx] by order
    then show "vm_start (mm_area ?n x) < vm_start (mm_area ?n v)" using xx nv by (auto simp: upd_area_def event_def)
  qed
  have ky: "\<forall>y\<in>set ys. vm_start (mm_area ?n v) < vm_start (mm_area ?n y)"
  proof
    fix y assume yy: "y \<in> set ys"
    have "vm_start a < vm_start (mm_area mm y)" using y [OF yy] a by order
    then show "vm_start (mm_area ?n v) < vm_start (mm_area ?n y)" using yy nv by (auto simp: upd_area_def event_def)
  qed
  note s = vma_link_spec [OF k kx ky, folded m_def]
  have fx: "map (mm_area m) xs = map (mm_area mm) xs" "map (mm_area m) ys = map (mm_area mm) ys" "mm_area m v = a"
    using nv by (auto simp: s(3) upd_area_def event_def)
  have as: "areas m = map (mm_area mm) xs @ a # map (mm_area mm) ys" "areas mm = map (mm_area mm) xs @ map (mm_area mm) ys"
    using fx by (simp_all add: areas_def s(1) l)
  have "areas_ok (areas m)"
    unfolding as(1) using d(1)[unfolded as(2)] a x y by (auto simp: areas_ok_simps before_def)
  moreover have "stock m = stock mm" by (simp add: stock_def s(4) upd_area_def event_def)
  ultimately show "vm_ok m" using s(1,2,5) d v l by (auto simp: vm_ok_def upd_area_def event_def)
  show "mm_brk m = mm_brk mm" "mm_brk_start m = mm_brk_start mm" "mm_mmap_top m = mm_mmap_top mm"
    by (simp_all add: s upd_area_def event_def)
  have "mapped (map (mm_area mm) xs) addr = None" if "in_area addr a"
  proof (rule mapped_None)
    fix b assume "b \<in> set (map (mm_area mm) xs)"
    then have "vm_end b \<le> vm_start a" using x by auto
    then show "\<not> in_area addr b" using that by (auto simp: in_area_def)
  qed
  then show "mapped (areas m) addr = (if in_area addr a then Some (view a addr) else mapped (areas mm) addr)"
    by (auto simp: as mapped_append)
qed

section \<open>The place of a mapping\<close>

definition free_in :: "vm_area list \<Rightarrow> u64 \<Rightarrow> u64 \<Rightarrow> bool" where
  "free_in as s e \<longleftrightarrow> (\<forall>b\<in>set as. vm_end b \<le> s \<or> e \<le> vm_start b)"

lemma free_in_mapped:
  assumes "areas_ok as" "\<forall>addr. s \<le> addr \<and> addr < e \<longrightarrow> mapped as addr = None" "s < e"
  shows "free_in as s e"
  unfolding free_in_def
proof (rule ballI, rule ccontr)
  fix b assume b: "b \<in> set as" "\<not> (vm_end b \<le> s \<or> e \<le> vm_start b)"
  let ?x = "max s (vm_start b)"
  have "vm_start b < vm_end b" using assms(1) b(1) by (auto simp: areas_ok_def)
  then have "in_area ?x b" "s \<le> ?x" "?x < e" using b(2) assms(3) by (auto simp: in_area_def max_def)
  with assms(2) b(1) show False by (auto simp: mapped_None_iff)
qed

lemma free_in_None: "free_in as s e \<Longrightarrow> s \<le> addr \<Longrightarrow> addr < e \<Longrightarrow> mapped as addr = None"
  by (rule mapped_None) (force simp: free_in_def in_area_def)

lemma range_free_spec:
  assumes ok: "vm_ok mm"
  shows "s < e \<Longrightarrow> range_free mm s e \<longleftrightarrow> free_in (areas mm) s e"
proof (rule first_ending_after_cases [OF ok, of s])
  assume "vma_first_ending_after mm s = None" "\<And>v. v \<in> set (mm_vmas mm) \<Longrightarrow> vm_end (mm_area mm v) \<le> s"
  then show ?thesis by (simp add: range_free_def free_in_def areas_def)
next
  fix xs v ys
  assume "s < e" and s: "vma_first_ending_after mm s = Some v" "mm_vmas mm = xs @ v # ys"
    "\<And>x. x \<in> set xs \<Longrightarrow> vm_end (mm_area mm x) \<le> s" "s < vm_end (mm_area mm v)"
  have y: "vm_start (mm_area mm v) \<le> vm_start (mm_area mm y)" if "y \<in> set ys" for y
  proof -
    have "vm_end (mm_area mm v) \<le> vm_start (mm_area mm y)"
      using areas_appendD(2) [OF vm_okD(1) [OF ok], of "xs @ [v]" ys v y] that s(2) by simp
    moreover have "vm_start (mm_area mm v) < vm_end (mm_area mm v)"
      by (rule areas_memD [OF vm_okD(1) [OF ok]]) (simp add: s(2))
    ultimately show ?thesis by order
  qed
  show ?thesis
  proof
    assume "range_free mm s e"
    then have e: "e \<le> vm_start (mm_area mm v)" by (simp add: range_free_def s(1))
    have "e \<le> vm_start (mm_area mm y)" if "y \<in> set ys" for y using e y [OF that] by order
    with e s(2,3) show "free_in (areas mm) s e" by (auto simp: free_in_def areas_def)
  next
    assume "free_in (areas mm) s e"
    then have "vm_end (mm_area mm v) \<le> s \<or> e \<le> vm_start (mm_area mm v)" by (simp add: free_in_def areas_def s(2))
    with s(4) have "e \<le> vm_start (mm_area mm v)" by auto
    then show "range_free mm s e" by (simp add: range_free_def s(1))
  qed
qed

lemma find_gap_spec:
  assumes "vm_ok mm" "find_gap mm len \<noteq> 0"
  shows "find_gap mm len \<le> find_gap mm len + len" "find_gap mm len + len \<le> mm_mmap_top mm"
    "free_in (areas mm) (find_gap mm len) (find_gap mm len + len)"
  using gap_loop_free [OF _ assms(2) vm_okD(1) [OF assms(1)]]
  by (simp_all add: find_gap_def areas_def [symmetric] free_in_def)

text \<open>
  What a mapping call may do before it adds its area: a fixed one clears its range, another one
  finds a free range; an error leaves everything but, for a fixed one, a part of the range.
\<close>

definition placed :: "bool \<Rightarrow> u64 \<Rightarrow> u64 \<Rightarrow> u64 result \<Rightarrow> vm_area list \<Rightarrow> vm_area list \<Rightarrow> bool" where
  "placed fixed at len r as as' \<longleftrightarrow>
     (case r of
        Inr g \<Rightarrow> g < g + len \<and> free_in as' g (g + len) \<and>
          (if fixed then g = at \<and> (\<forall>addr. mapped as' addr = cut at (at + len) as addr) else as' = as)
      | Inl e \<Rightarrow> \<forall>addr. mapped as' addr = mapped as addr \<or>
          fixed \<and> at \<le> addr \<and> addr < at + len \<and> mapped as' addr = None)"

lemma place_spec:
  assumes ok: "vm_ok mm" and len: "len \<noteq> 0" "len \<le> MM_USER_TOP" and at: "at \<le> MM_USER_TOP"
  shows "\<exists>r mm'. place at len fixed mm = Some (r, mm') \<and> vm_ok mm' \<and> frame mm' mm \<and> placed fixed at len r (areas mm) (areas mm')"
proof (cases fixed)
  case False
  have lt: "at < at + len" by (rule sum_user [OF at len(2,1)])
  have g: "g < g + len" if "g \<le> g + len" for g using that len(1) by (metis add.right_neutral add_left_cancel order_le_less)
  show ?thesis
    using False ok range_free_spec [OF ok lt] lt find_gap_spec [OF ok, of len] g [of "find_gap mm len"]
    by (auto simp: place_def placed_def Let_def)
next
  case True
  have lt: "at < at + len" by (rule sum_user [OF at len(2,1)])
  show ?thesis
  proof (cases "at + len > MM_USER_TOP \<or> at + len < at \<or> at < 0x1000")
    case bad: True
    then show ?thesis using True ok by (auto simp: place_def placed_def)
  next
    case good: False
    obtain r mm' where u: "unmap_locked at (at + len) mm = Some (r, mm')" "vm_ok mm'" "frame mm' mm"
        "unmapped at (at + len) r (areas mm) (areas mm')"
      using unmap_locked_spec [OF ok order_less_imp_le [OF lt]] by blast
    show ?thesis
    proof (cases r)
      case (Inl e)
      then show ?thesis using True good u by (auto simp: place_def placed_def unmapped_def)
    next
      case (Inr x)
      then have "\<forall>addr. mapped (areas mm') addr = cut at (at + len) (areas mm) addr" using u(4) by (simp add: unmapped_def)
      moreover from this have "free_in (areas mm') at (at + len)"
        by (intro free_in_mapped [OF vm_okD(1) [OF u(2)]] lt) (simp add: cut_def)
      ultimately show ?thesis using True good u lt Inr by (auto simp: place_def placed_def)
    qed
  qed
qed

section \<open>Mapping\<close>

text \<open>The effect of a mapping call on what every address maps to.\<close>

definition map_effect :: "bool \<Rightarrow> u64 \<Rightarrow> u64 \<Rightarrow> vm_area \<Rightarrow> u64 result \<Rightarrow> vm_area list \<Rightarrow> vm_area list \<Rightarrow> bool" where
  "map_effect fixed addr len tpl r as as' \<longleftrightarrow>
     (case r of
        Inr g \<Rightarrow> g < g + len \<and> (if fixed then g = addr else free_in as g (g + len)) \<and>
          (\<forall>x. mapped as' x =
            (if g \<le> x \<and> x < g + len then Some (view (tpl\<lparr>vm_start := g, vm_end := g + len\<rparr>) x) else mapped as x))
      | Inl e \<Rightarrow> \<forall>x. mapped as' x = mapped as x \<or> fixed \<and> addr \<le> x \<and> x < addr + len \<and> mapped as' x = None)"

lemma pdown_aligned:
  assumes "a AND (PG - 1) = 0"
  shows "pdown a = a"
proof -
  have "a AND (PG - 1 OR NOT (PG - 1)) = (a AND (PG - 1)) OR (a AND NOT (PG - 1))" by (rule bit.conj_disj_distrib)
  then show ?thesis using assms by (simp add: pdown_def)
qed

lemma map_template_spec:
  assumes ok: "vm_ok mm" and len: "len \<noteq> 0" "len \<le> MM_USER_TOP" and addr: "addr \<le> MM_USER_TOP"
  shows "\<exists>r mm'. map_template addr len fixed tpl mm = Some (r, mm') \<and> vm_ok mm' \<and>
    map_effect fixed addr (pup len) tpl r (areas mm) (areas mm')"
proof (cases "fixed \<and> addr AND (PG - 1) \<noteq> 0")
  case True
  then show ?thesis using len(1) ok by (auto simp: map_template_def Let_def map_effect_def)
next
  case al: False
  note pl = pup_user [OF len]
  obtain n mm1 where n: "vma_new mm = (n, mm1)" by (cases "vma_new mm")
  note k = vma_new_stock [OF n]
  have ok1: "vm_ok mm1" using ok k(2) by (auto simp: vm_ok_def k(1) areas_def)
  have a1: "areas mm1 = areas mm" by (simp add: areas_def k(1))
  show ?thesis
  proof (cases n)
    case None
    then show ?thesis using al len(1) ok1 n by (auto simp: map_template_def Let_def map_effect_def a1)
  next
    case (Some v)
    have fresh: "v \<notin> names mm1" using vm_okD [OF ok] k Some by (auto simp: names_def)
    have "pdown addr \<le> MM_USER_TOP" using pdown_le [of addr] addr by order
    from place_spec [OF ok1 pl(1,3) this, of fixed] obtain r mm2
      where r: "place (pdown addr) (pup len) fixed mm1 = Some (r, mm2)" "vm_ok mm2" "frame mm2 mm1"
        "placed fixed (pdown addr) (pup len) r (areas mm) (areas mm2)" by (auto simp: a1)
    have at: "pdown addr = addr" if fixed using al that pdown_aligned by blast
    show ?thesis
    proof (cases r)
      case (Inl e)
      then show ?thesis using al len(1) n Some r at
        by (auto simp: map_template_def Let_def map_effect_def placed_def)
    next
      case (Inr g)
      let ?a = "tpl\<lparr>vm_start := g, vm_end := g + pup len\<rparr>"
      let ?m = "\<lambda>es. vma_link v (event es (upd_area v (\<lambda>_. ?a) mm2))"
      have p: "g < g + pup len" "free_in (areas mm2) g (g + pup len)" using r(4) Inr by (simp_all add: placed_def)
      have fr: "v \<notin> set (mm_vmas mm2)" "v \<notin> set (stock mm2)" using fresh r(3) by (auto simp: frame_def names_def)
      have a: "vm_start ?a < vm_end ?a" using p(1) by simp
      have fa: "\<forall>b\<in>set (areas mm2). vm_end b \<le> vm_start ?a \<or> vm_end ?a \<le> vm_start b" using p(2) by (simp add: free_in_def)
      obtain es where es: "map_template addr len fixed tpl mm =
          (case vma_merge_range g (g + pup len) (?m es) of None \<Rightarrow> None | Some mm5 \<Rightarrow> Some (Inr g, mm5))"
        using al len(1) n Some r(1) Inr by (auto simp: map_template_def Let_def cong: option.case_cong)
      note la = link_area [OF r(2) fr a fa refl, of es]
      obtain mm5 where m5: "vma_merge_range g (g + pup len) (?m es) = Some mm5" "vm_ok mm5"
          "\<forall>x. mapped (areas mm5) x = mapped (areas (?m es)) x"
        using vma_merge_range_spec [OF la(1), of g "g + pup len"] by blast
      have "map_effect fixed addr (pup len) tpl (Inr g) (areas mm) (areas mm5)"
        using r(4) Inr at p(1) free_in_None m5(3)
        by (auto simp: map_effect_def placed_def la(5) in_area_def cut_def split: if_splits)
      then show ?thesis using es m5 by simp
    qed
  qed
qed

section \<open>The calls\<close>

lemma find_unique:
  assumes "vm_ok mm" "v \<in> set (mm_vmas mm)" "in_area addr (mm_area mm v)"
  shows "List.find (\<lambda>v. in_area addr (mm_area mm v)) (mm_vmas mm) = Some v"
proof -
  obtain xs ys where l: "mm_vmas mm = xs @ v # ys" using split_list [OF assms(2)] by blast
  have "\<not> in_area addr (mm_area mm x)" if "x \<in> set xs" for x
  proof -
    have "vm_end (mm_area mm x) \<le> vm_start (mm_area mm v)"
      using areas_appendD(2) [OF vm_okD(1) [OF assms(1)] l, of x v] that by simp
    then show ?thesis using assms(3) by (auto simp: in_area_def)
  qed
  then show ?thesis unfolding l using find_prefix [of xs "\<lambda>v. in_area addr (mm_area mm v)" "v # ys"] assms(3) by simp
qed

text \<open>
  C19. The search of the area at an address, with its cache and its binary search in the index, finds
  what a walk of the list of areas finds, and changes nothing but the cache.
\<close>

theorem mm_find_vma_linear:
  assumes "vm_ok mm"
  shows "\<exists>c. mm_find_vma mm addr =
    (List.find (\<lambda>v. vm_start (mm_area mm v) \<le> addr \<and> addr < vm_end (mm_area mm v)) (mm_vmas mm), mm\<lparr>mm_vcache := c\<rparr>)"
proof -
  obtain r mm' where f: "mm_find_vma mm addr = (r, mm')" by (cases "mm_find_vma mm addr")
  note s = mm_find_vma_spec [OF assms f]
  have "r = List.find (\<lambda>v. in_area addr (mm_area mm v)) (mm_vmas mm)"
    using s find_unique [OF assms] by (cases r) (auto simp: find_None_iff2)
  with s f show ?thesis by (auto simp: in_area_def)
qed

definition on_page :: "u64 \<Rightarrow> u64 \<Rightarrow> vm_area" where
  "on_page s e = zero_area\<lparr>vm_start := s, vm_end := e, vm_flags := 3\<rparr>"

text \<open>An address space with two areas, indexed.\<close>

definition two_areas :: mm where
  "two_areas = (mm_new [Some 3, Some 4] [])\<lparr>mm_vmas := [1, 2],
     mm_area := (\<lambda>_. zero_area)(1 := on_page 0x10000 0x12000, 2 := on_page 0x14000 0x15000), mm_vidx := [1, 2], mm_vcap := 64\<rparr>"

lemma two_areas_ok: "vm_ok two_areas"
  by (simp add: vm_ok_def two_areas_def areas_def areas_ok_simps before_def stock_def mm_new_def on_page_def map_filter_simps)

theorem mm_find_vma_linear_witness:
  "vm_ok two_areas \<and> (\<exists>c. mm_find_vma two_areas 0x14800 = (Some 2, two_areas\<lparr>mm_vcache := c\<rparr>))"
  using two_areas_ok mm_find_vma_linear [OF two_areas_ok, of "0x14800"]
  by (simp add: two_areas_def on_page_def)

definition user_task :: "mem_task \<Rightarrow> mm \<Rightarrow> bool" where
  "user_task t mm \<longleftrightarrow> mt_userspace t \<and> mt_mm t = Some mm \<and> vm_ok mm"

text \<open>
  C18. Unmapping takes away exactly the pages of the range: every other address maps to what it mapped
  to.  When memory for a split runs out the call says so, and then some of the range may be gone
  and nothing else has changed.  The areas stay sorted, disjoint and indexed.
\<close>

theorem sys_munmap_spec:
  assumes "user_task t mm" "addr AND (PG - 1) = 0" "len \<noteq> 0" "addr \<le> addr + pup len" "addr + pup len \<le> MM_USER_TOP"
  shows "\<exists>r mm'. sys_munmap addr len t = Some (r, t\<lparr>mt_mm := Some mm'\<rparr>) \<and> vm_ok mm' \<and>
    (r = ok \<and> (\<forall>x. mapped (areas mm') x = (if addr \<le> x \<and> x < addr + pup len then None else mapped (areas mm) x)) \<or>
     r = Inl ENOMEM \<and> (\<forall>x. mapped (areas mm') x = mapped (areas mm) x \<or>
        addr \<le> x \<and> x < addr + pup len \<and> mapped (areas mm') x = None))"
proof -
  have ok: "vm_ok mm" "mt_mm t = Some mm" "mt_userspace t" using assms(1) by (simp_all add: user_task_def)
  have "addr AND 0xFFF = 0" using assms(2) by (simp add: PG_def)
  then have "sys_munmap addr len t = on_mm t (unmap_locked addr (addr + pup len) mm)"
    using ok assms by (auto simp: sys_munmap_def mm_unmap_def Let_def)
  moreover obtain r mm' where "unmap_locked addr (addr + pup len) mm = Some (r, mm')" "vm_ok mm'"
      "unmapped addr (addr + pup len) r (areas mm) (areas mm')"
    using unmap_locked_spec [OF ok(1) assms(4)] by blast
  ultimately show ?thesis unfolding unmapped_def cut_def by (intro exI [of _ r] exI [of _ mm']) (simp add: on_mm_def)
qed

definition a_task :: "mm \<Rightarrow> mem_task" where
  "a_task mm = \<lparr>mt_userspace = True, mt_uid = 1000, mt_mm = Some mm, mt_rlim_as = RLIM_INF_K, mt_rlim_data = RLIM_INF_K,
     mt_rlim_memlock = RLIM_INF_K, mt_log = []\<rparr>"

lemma a_task_user: "vm_ok mm \<Longrightarrow> user_task (a_task mm) mm" by (simp add: user_task_def a_task_def)

theorem sys_munmap_spec_witness:
  "user_task (a_task two_areas) two_areas \<and>
   (\<exists>r mm'. sys_munmap 0x11000 0x2000 (a_task two_areas) = Some (r, (a_task two_areas)\<lparr>mt_mm := Some mm'\<rparr>) \<and> vm_ok mm')"
proof -
  have "pup 0x2000 = 0x2000" by (simp add: pup_def PG_def)
  then show ?thesis
    using a_task_user [OF two_areas_ok] sys_munmap_spec [OF a_task_user [OF two_areas_ok], of "0x11000" "0x2000"]
    by (auto simp: PG_def MM_USER_TOP_def)
qed

lemma map_effect_same [simp]: "map_effect fixed addr len tpl (Inl e) as as"
  by (simp add: map_effect_def)

text \<open>A call that returns, keeps the areas in order and changes what its range maps to at most.\<close>

definition maps_range :: "bool \<Rightarrow> u64 \<Rightarrow> u64 \<Rightarrow> mm \<Rightarrow> (u64 result \<times> mm) option \<Rightarrow> bool" where
  "maps_range fixed addr len mm res \<longleftrightarrow>
     (\<exists>r mm' tpl. res = Some (r, mm') \<and> vm_ok mm' \<and> map_effect fixed addr (pup len) tpl r (areas mm) (areas mm'))"

lemma maps_range_calls:
  assumes "vm_ok mm" "len \<noteq> 0" "len \<le> MM_USER_TOP" "addr \<le> MM_USER_TOP"
  shows "maps_range fixed addr len mm (Some (Inl e, mm))"
    "maps_range fixed addr len mm (mm_map_anon addr len flags fixed mm)"
    "maps_range fixed addr len mm (mm_map_file addr len flags fixed vn off mm)"
    "maps_range fixed addr len mm (mm_map_pfn addr len flags fixed pte pfn opn cls priv pid vn off mm)"
proof -
  show e: "maps_range fixed addr len mm (Some (Inl e, mm))" for e using assms(1) by (simp add: maps_range_def)
  have t: "maps_range fixed addr len mm (map_template addr len fixed tpl mm)" for tpl
    unfolding maps_range_def using map_template_spec [OF assms] by blast
  show "maps_range fixed addr len mm (mm_map_anon addr len flags fixed mm)"
    "maps_range fixed addr len mm (mm_map_file addr len flags fixed vn off mm)"
    "maps_range fixed addr len mm (mm_map_pfn addr len flags fixed pte pfn opn cls priv pid vn off mm)"
    using t e by (simp_all add: mm_map_anon_def mm_map_file_def mm_map_pfn_def)
qed

text \<open>The same for a task.\<close>

definition task_maps :: "bool \<Rightarrow> u64 \<Rightarrow> u64 \<Rightarrow> mm \<Rightarrow> (u64 result \<times> mem_task) option \<Rightarrow> bool" where
  "task_maps fixed addr len mm res \<longleftrightarrow>
     (\<exists>r t' mm' tpl. res = Some (r, t') \<and> mt_mm t' = Some mm' \<and> vm_ok mm' \<and>
        map_effect fixed addr (pup len) tpl r (areas mm) (areas mm'))"

lemma task_maps_on_mm: "maps_range fixed addr len mm res \<Longrightarrow> task_maps fixed addr len mm (on_mm t res)"
  by (fastforce simp: maps_range_def task_maps_def on_mm_def)

lemma mmap_map_spec:
  assumes a: "vm_ok mm" "len \<noteq> 0" "len \<le> MM_USER_TOP" "hint \<le> MM_USER_TOP" and m: "mt_mm t = Some mm"
  shows "task_maps fixed hint len mm (mmap_map vnodes files anon hint len prot flags fd offset fixed t mm)"
proof -
  note c = maps_range_calls [OF a]
  have f: "maps_range fixed hint len mm (mmap_file vnodes hint len prot type vmf fixed offset fl n mm)" for type vmf fl n
    by (simp add: mmap_file_def Let_def c)
  have e: "task_maps fixed hint len mm (Some (Inl e, log es t))" "task_maps fixed hint len mm (Some (Inl e, t))" for e es
    using a(1) m by (simp_all add: task_maps_def log_def)
  show ?thesis
    by (simp add: mmap_map_def Let_def e f c task_maps_on_mm split: option.split)
qed


definition no_files :: "nat \<Rightarrow> vnode_info" where
  "no_files n = \<lparr>vi_memfd = False, vi_ops = False, vi_mmap_page = False, vi_regular = False, vi_read = False, vi_write = False\<rparr>"


section \<open>Arguments that wrap\<close>



section \<open>Access modes\<close>

text \<open>A regular file, number 7, that a task has open for reading only.\<close>

definition one_file :: "nat \<Rightarrow> vnode_info" where
  "one_file n = \<lparr>vi_memfd = False, vi_ops = True, vi_mmap_page = False, vi_regular = True, vi_read = True, vi_write = True\<rparr>"

definition read_only :: "nat \<Rightarrow> open_file option" where
  "read_only fd = (if fd = 3 then Some \<lparr>f_flags = 0, f_vnode = Some 7\<rparr> else None)"

definition file_area :: "u32 \<Rightarrow> vm_area" where
  "file_area flags = zero_area\<lparr>vm_start := 0x10000, vm_end := 0x11000, vm_flags := flags, vm_vnode := Some 7\<rparr>"

definition file_mm :: "u32 \<Rightarrow> mm_event list \<Rightarrow> nat option \<Rightarrow> mm" where
  "file_mm flags evs cache = (mm_new [] [])\<lparr>mm_vmas := [1], mm_area := (\<lambda>_. zero_area)(1 := file_area flags), mm_vidx := [1],
     mm_vcap := 64, mm_events := evs, mm_vcache := cache\<rparr>"

lemmas mem_consts = PROT_READ_def PROT_WRITE_def PROT_EXEC_def MAP_SHARED_def MAP_PRIVATE_def MAP_ANONYMOUS_def MAP_FIXED_def
  MAP_TYPE_MASK_def MAP_POPULATE_FLAG_def MAP_FIXED_NOREPLACE_def RLIM_INF_K_def MM_USER_TOP_def PG_def
  VM_READ_def VM_WRITE_def VM_EXEC_def VM_SHARED_def VM_FILE_def VM_PFNMAP_def VM_PROT_MASK_def

lemmas mem_eval = mem_consts map_template_def place_def vma_new_def vma_link_def range_free_def vma_first_ending_after_def
  vidx_upper_def upper_loop.simps vma_merge_range_def merge_loop.simps vma_next_def covered.simps change_loop.simps
  upd_area_def event_def mm_new_def zero_area_def file_area_def file_mm_def pup_def pdown_def insert_after_def
  mm_find_vma_def mm_protect_def mm_map_file_def

lemma a_task_mm [simp]: "mt_mm (a_task mm) = Some mm" by (simp add: a_task_def)

lemma map_read_only:
  "sys_mmap one_file (Some read_only) None 0x10000 0x1000 PROT_READ MAP_SHARED 3 0 (a_task (mm_new [Some 1] [True])) =
   Some (Inr 0x10000, log [FdGet 3, FdPut 3] (a_task (file_mm 0x49 [EvVnodeRef 7] None)))"
proof -
  have c: "mmap_check 0x10000 0x1000 MAP_SHARED 0 (a_task (mm_new [Some 1] [True])) (mm_new [Some 1] [True]) = None"
    by (simp add: mmap_check_def mem_consts a_task_def)
  have m: "mm_map_file 0x10000 0x1000 9 False (Some 7) 0 (mm_new [Some 1] [True]) =
      Some (Inr 0x10000, file_mm 0x49 [EvVnodeRef 7] None)"
    by (simp add: mem_eval)
  show ?thesis
    using c m by (simp add: sys_mmap_def a_task_mm mmap_map_def mmap_file_def on_mm_def mem_consts prot_to_vm_def read_only_def
        one_file_def device_op_def regular_op_def log_def a_task_def)
qed

lemma protect_read_only:
  "mm_protect (writable_vnode one_file) 0x10000 0x1000 3 (file_mm 0x49 [EvVnodeRef 7] None) =
   Some (ok, file_mm 0x4B [EvVnodeRef 7, EvProt 1 0x10000 0x11000 0x4B] (Some 1))"
  by (simp add: mem_eval writable_vnode_def one_file_def)



end
