(* ===== verification/Pagecache.thy ===== *)
theory Pagecache
  imports Buddy
begin

unbundle bit_operations_syntax

text \<open>
  User pages: the reference counts of frames, \<^verbatim>\<open>kernel/src/memory/pageref.c\<close>, and the page cache,
  \<^verbatim>\<open>kernel/src/memory/pagecache.c\<close>, above the page allocator of \<open>Buddy\<close>.

  A frame is a number, an address of it is \<open>nat\<close>; \<open>pg_mem\<close> holds its bytes.  The cache is a hash table
  of entries and a list of them, most recently used first.  The file systems appear as the
  arguments \<open>rd\<close>, which reads some bytes at an offset, and \<open>key\<close>, the identity they give a file;
  \<open>pg_kmem\<close> holds the results of the coming allocations of entries.
\<close>

definition PC_BUCKETS :: nat where "PC_BUCKETS = 4096"

record pc_entry =
  pe_fs :: u64
  pe_id :: u64
  pe_index :: u64
  pe_phys :: nat

record page_world =
  pg_pmm :: pmm_state
  g_refs :: "nat \<Rightarrow> u32"
  g_frames :: nat
  g_shrink :: bool
  pg_mem :: "nat \<Rightarrow> nat \<Rightarrow> u8"
  g_hash :: "nat \<Rightarrow> pc_entry list"
  g_lru :: "pc_entry list"
  g_count :: u64
  pg_kmem :: "bool list"

section \<open>Reference counts\<close>

definition pageref_init :: "(nat \<Rightarrow> u32) option \<Rightarrow> page_world \<Rightarrow> page_world" where
  "pageref_init table w =
     (case table of
        None \<Rightarrow> w\<lparr>g_frames := 0\<rparr>
      | Some t \<Rightarrow> w\<lparr>g_frames := total_pages (pg_pmm w), g_refs := (\<lambda>_. 0)\<rparr>)"

text \<open>The index of the counter of a frame, if it has one.\<close>

definition slot :: "page_world \<Rightarrow> nat \<Rightarrow> nat option" where
  "slot w phys = (if phys div PAGE_SIZE < g_frames w then Some (phys div PAGE_SIZE) else None)"

definition page_ref :: "nat \<Rightarrow> page_world \<Rightarrow> page_world" where
  "page_ref phys w =
     (case slot w phys of
        None \<Rightarrow> w
      | Some f \<Rightarrow> w\<lparr>g_refs := (g_refs w)(f := g_refs w f + 1)\<rparr>)"

definition page_unref :: "nat \<Rightarrow> page_world \<Rightarrow> (bool \<times> page_world) outcome" where
  "page_unref phys w =
     (case slot w phys of
        None \<Rightarrow> Done (False, w)
      | Some f \<Rightarrow>
          let old = g_refs w f; w1 = w\<lparr>g_refs := (g_refs w)(f := old - 1)\<rparr> in
          if old = 1 then
            if phys \<ge> PMM_FREE_MIN_PHYS then
              and_then (pmm_free (phys_to_virt (pg_pmm w) (phys div PAGE_SIZE * PAGE_SIZE)) 1 (pg_pmm w))
                (\<lambda>s. Done (True, w1\<lparr>pg_pmm := s\<rparr>))
            else Done (True, w1)
          else if old = 0 then Done (False, w1\<lparr>g_refs := (g_refs w1)(f := g_refs w1 f + 1)\<rparr>)
          else Done (False, w1))"

definition page_refcount :: "nat \<Rightarrow> page_world \<Rightarrow> u32" where
  "page_refcount phys w = (case slot w phys of None \<Rightarrow> 0 | Some f \<Rightarrow> g_refs w f)"

section \<open>The hash table and the list\<close>

definition bucket :: "u64 \<Rightarrow> u64 \<Rightarrow> u64 \<Rightarrow> nat" where
  "bucket fs ino index =
     (let h0 = fs * 0x9E3779B97F4A7C15; h1 = h0 XOR (ino * 0xC2B2AE3D27D4EB4F);
          h2 = h1 XOR (index * 0x165667B19E3779F9); h = h2 XOR (drop_bit 29 h2)
      in unat (h mod of_nat PC_BUCKETS))"

definition entry_bucket :: "pc_entry \<Rightarrow> nat" where
  "entry_bucket e = bucket (pe_fs e) (pe_id e) (pe_index e)"

definition find_locked :: "u64 \<Rightarrow> u64 \<Rightarrow> u64 \<Rightarrow> page_world \<Rightarrow> pc_entry option" where
  "find_locked fs ino index w =
     List.find (\<lambda>e. pe_fs e = fs \<and> pe_id e = ino \<and> pe_index e = index) (g_hash w (bucket fs ino index))"

definition lru_unlink :: "pc_entry \<Rightarrow> page_world \<Rightarrow> page_world" where
  "lru_unlink e w = w\<lparr>g_lru := remove1 e (g_lru w)\<rparr>"

definition lru_push_front :: "pc_entry \<Rightarrow> page_world \<Rightarrow> page_world" where
  "lru_push_front e w = w\<lparr>g_lru := e # g_lru w\<rparr>"

definition hash_remove :: "pc_entry \<Rightarrow> page_world \<Rightarrow> page_world" where
  "hash_remove e w =
     (let w1 = lru_unlink e (w\<lparr>g_hash := (g_hash w)(entry_bucket e := remove1 e (g_hash w (entry_bucket e)))\<rparr>)
      in w1\<lparr>g_count := g_count w1 - 1\<rparr>)"

section \<open>Shrinking and allocation\<close>

text \<open>The result: how many pages were given back.  The entry used least recently goes first.\<close>

fun shrink_loop :: "nat \<Rightarrow> nat \<Rightarrow> page_world \<Rightarrow> (nat \<times> page_world) outcome" where
  "shrink_loop 0 d w = Done (d, w)"
| "shrink_loop (Suc n) d w =
     (case List.find (\<lambda>e. page_refcount (pe_phys e) w = 1) (rev (g_lru w)) of
        None \<Rightarrow> Done (d, w)
      | Some e \<Rightarrow>
          if pe_phys e = 0 then Done (d, hash_remove e w)
          else and_then (page_unref (pe_phys e) (hash_remove e w)) (\<lambda>(_, w1). shrink_loop n (d + 1) w1))"

definition pagecache_shrink :: "nat \<Rightarrow> page_world \<Rightarrow> (nat \<times> page_world) outcome" where
  "pagecache_shrink want w = shrink_loop want 0 w"

definition pagecache_init :: "page_world \<Rightarrow> page_world" where
  "pagecache_init w = w\<lparr>g_shrink := True\<rparr>"

definition pagecache_pages :: "page_world \<Rightarrow> u64" where
  "pagecache_pages w = g_count w"

text \<open>An address of 0: no memory.\<close>

definition fresh_page :: "u64 \<Rightarrow> page_world \<Rightarrow> nat \<times> page_world" where
  "fresh_page p w =
     (if p = 0 then (0, w)
      else
        let phys = virt_to_phys (pg_pmm w) p;
            w1 = w\<lparr>pg_mem := (pg_mem w)(phys div PAGE_SIZE := (\<lambda>_. 0))\<rparr>
        in (phys, case slot w1 phys of None \<Rightarrow> w1 | Some f \<Rightarrow> w1\<lparr>g_refs := (g_refs w1)(f := 1)\<rparr>))"

definition page_alloc_user :: "page_world \<Rightarrow> (nat \<times> page_world) outcome" where
  "page_alloc_user w =
     and_then (pmm_alloc 1 (pg_pmm w)) (\<lambda>(p, s).
       let w1 = w\<lparr>pg_pmm := s\<rparr> in
       if p = 0 \<and> g_shrink w1 then
         and_then (pagecache_shrink 256 w1) (\<lambda>(_, w2).
           and_then (pmm_alloc 1 (pg_pmm w2)) (\<lambda>(p2, s2). Done (fresh_page p2 (w2\<lparr>pg_pmm := s2\<rparr>))))
       else Done (fresh_page p w1))"

section \<open>Reading through the cache\<close>

text \<open>
  \<^verbatim>\<open>pagecache_get\<close> has three parts: the look-up under the lock, the reading of the page without
  it, and the insertion under the lock again.
\<close>

definition pc_lookup :: "u64 \<times> u64 \<Rightarrow> u64 \<Rightarrow> page_world \<Rightarrow> nat option \<times> page_world" where
  "pc_lookup key index w =
     (case find_locked (fst key) (snd key) index w of
        None \<Rightarrow> (None, w)
      | Some e \<Rightarrow> (Some (pe_phys e), lru_push_front e (lru_unlink e (page_ref (pe_phys e) w))))"

text \<open>The bytes read go into the page from position \<open>got\<close> on.\<close>

definition put_bytes :: "nat \<Rightarrow> u8 list \<Rightarrow> (nat \<Rightarrow> u8) \<Rightarrow> nat \<Rightarrow> u8" where
  "put_bytes pos bs page i = (if pos \<le> i \<and> i < pos + length bs then bs ! (i - pos) else page i)"

function fill_loop :: "(nat \<Rightarrow> u64 \<Rightarrow> u8 list result) \<Rightarrow> u64 \<Rightarrow> nat \<Rightarrow> (nat \<Rightarrow> u8) \<Rightarrow> errno option \<times> (nat \<Rightarrow> u8)" where
  "fill_loop rd off got page =
     (if got < PAGE_SIZE then
        (case rd (PAGE_SIZE - got) (off + of_nat got) of
           Inl e \<Rightarrow> (Some e, page)
         | Inr bs \<Rightarrow>
             if bs = [] then (None, page)
             else fill_loop rd off (got + length bs) (put_bytes got bs page))
      else (None, page))"
  by pat_completeness auto
termination by (relation "measure (\<lambda>(rd, off, got, page). PAGE_SIZE - got)") (auto simp: neq_Nil_conv)

declare fill_loop.simps [simp del]

definition pc_fill :: "(nat \<Rightarrow> u64 \<Rightarrow> u8 list result) \<Rightarrow> u64 \<Rightarrow> page_world \<Rightarrow> (nat result \<times> page_world) outcome" where
  "pc_fill rd index w =
     and_then (page_alloc_user w) (\<lambda>(phys, w1).
       if phys = 0 then Done (Inl ENOMEM, w1)
       else
         case fill_loop rd (index * of_nat PAGE_SIZE) 0 (pg_mem w1 (phys div PAGE_SIZE)) of
           (err, page) \<Rightarrow>
             let w2 = w1\<lparr>pg_mem := (pg_mem w1)(phys div PAGE_SIZE := page)\<rparr> in
             (case err of
                Some e \<Rightarrow> and_then (page_unref phys w2) (\<lambda>(_, w3). Done (Inl e, w3))
              | None \<Rightarrow> Done (Inr phys, w2)))"

definition pc_add :: "pc_entry \<Rightarrow> page_world \<Rightarrow> page_world" where
  "pc_add ne w =
     (let b = bucket (pe_fs ne) (pe_id ne) (pe_index ne);
          w2 = lru_push_front ne (w\<lparr>g_hash := (g_hash w)(b := ne # g_hash w b)\<rparr>)
      in page_ref (pe_phys ne) (w2\<lparr>g_count := g_count w2 + 1\<rparr>))"

definition pc_insert :: "u64 \<times> u64 \<Rightarrow> u64 \<Rightarrow> nat \<Rightarrow> page_world \<Rightarrow> (nat \<times> page_world) outcome" where
  "pc_insert key index phys w =
     (case pg_kmem w of
        True # ks \<Rightarrow>
          let w1 = w\<lparr>pg_kmem := ks\<rparr> in
          (case find_locked (fst key) (snd key) index w1 of
             Some e \<Rightarrow>
               and_then (page_unref phys (page_ref (pe_phys e) w1)) (\<lambda>(_, w2). Done (pe_phys e, w2))
           | None \<Rightarrow>
               Done (phys, pc_add \<lparr>pe_fs = fst key, pe_id = snd key, pe_index = index, pe_phys = phys\<rparr> w1))
      | _ \<Rightarrow> Done (phys, w\<lparr>pg_kmem := tl (pg_kmem w)\<rparr>))"

text \<open>\<open>readable\<close>: the vnode has operations and one of them reads.\<close>

definition pagecache_get ::
  "bool \<Rightarrow> u64 \<times> u64 \<Rightarrow> (nat \<Rightarrow> u64 \<Rightarrow> u8 list result) \<Rightarrow> u64 \<Rightarrow> page_world \<Rightarrow> (nat result \<times> page_world) outcome" where
  "pagecache_get readable key rd index w =
     (if \<not> readable then Done (Inl EIO, w)
      else case pc_lookup key index w of
        (Some phys, w1) \<Rightarrow> Done (Inr phys, w1)
      | (None, w1) \<Rightarrow>
          and_then (pc_fill rd index w1) (\<lambda>(r, w2).
            case r of
              Inl e \<Rightarrow> Done (Inl e, w2)
            | Inr phys \<Rightarrow> and_then (pc_insert key index phys w2) (\<lambda>(p, w3). Done (Inr p, w3))))"

definition pagecache_peek :: "u64 \<times> u64 \<Rightarrow> u64 \<Rightarrow> page_world \<Rightarrow> nat result \<times> page_world" where
  "pagecache_peek key index w =
     (case find_locked (fst key) (snd key) index w of
        None \<Rightarrow> (Inl ENOENT, w)
      | Some e \<Rightarrow> (Inr (pe_phys e), page_ref (pe_phys e) w))"

section \<open>Writes and truncation\<close>

text \<open>The bytes \<open>cs\<close> to \<open>ce\<close> of the file, in the page that starts at \<open>pstart\<close>.\<close>

definition wrote_page :: "u64 \<times> u64 \<Rightarrow> u64 \<Rightarrow> u64 \<Rightarrow> u8 list \<Rightarrow> u64 \<Rightarrow> page_world \<Rightarrow> page_world outcome" where
  "wrote_page key offset till src pg w =
     (let pstart = pg * of_nat PAGE_SIZE;
          cs = (if offset > pstart then offset else pstart);
          ce = (if till < pstart + of_nat PAGE_SIZE then till else pstart + of_nat PAGE_SIZE)
      in case find_locked (fst key) (snd key) pg w of
           None \<Rightarrow> Done w
         | Some e \<Rightarrow>
             if pe_phys e = 0 then Done (page_ref (pe_phys e) w)
             else
               let f = pe_phys e div PAGE_SIZE; w1 = page_ref (pe_phys e) w;
                   bs = take (unat (ce - cs)) (drop (unat (cs - offset)) src)
               in and_then (page_unref (pe_phys e)
                     (w1\<lparr>pg_mem := (pg_mem w1)(f := put_bytes (unat (cs - pstart)) bs (pg_mem w1 f))\<rparr>))
                   (\<lambda>(_, w2). Done w2))"

text \<open>\<open>n\<close> bounds the number of pages; a loop past it would never end.\<close>

fun wrote_loop :: "nat \<Rightarrow> u64 \<times> u64 \<Rightarrow> u64 \<Rightarrow> u64 \<Rightarrow> u8 list \<Rightarrow> u64 \<Rightarrow> page_world \<Rightarrow> page_world outcome" where
  "wrote_loop 0 key offset till src pg w = Hang"
| "wrote_loop (Suc n) key offset till src pg w =
     (if pg * of_nat PAGE_SIZE < till then
        and_then (wrote_page key offset till src pg w) (wrote_loop n key offset till src (pg + 1))
      else Done w)"

definition pagecache_wrote :: "u64 \<times> u64 \<Rightarrow> u64 \<Rightarrow> u8 list \<Rightarrow> page_world \<Rightarrow> page_world outcome" where
  "pagecache_wrote key offset src w =
     (if src = [] then Done w
      else wrote_loop (length src div PAGE_SIZE + 3) key offset (offset + of_nat (length src)) src
             (offset div of_nat PAGE_SIZE) w)"

text \<open>At most 64 entries are dropped in one round; \<open>n\<close> bounds the rounds.\<close>

definition matching :: "u64 \<Rightarrow> u64 \<Rightarrow> u64 \<Rightarrow> page_world \<Rightarrow> pc_entry list" where
  "matching fs ino from w =
     filter (\<lambda>e. pe_fs e = fs \<and> pe_id e = ino \<and> pe_index e \<ge> from) (concat (map (g_hash w) [0..<PC_BUCKETS]))"

fun unref_all :: "nat list \<Rightarrow> page_world \<Rightarrow> page_world outcome" where
  "unref_all [] w = Done w"
| "unref_all (p # ps) w = and_then (page_unref p w) (\<lambda>(_, w1). unref_all ps w1)"

fun drop_rounds :: "nat \<Rightarrow> u64 \<Rightarrow> u64 \<Rightarrow> u64 \<Rightarrow> page_world \<Rightarrow> page_world outcome" where
  "drop_rounds 0 fs ino from w = Hang"
| "drop_rounds (Suc n) fs ino from w =
     (let es = take 64 (matching fs ino from w) in
      and_then (unref_all (map pe_phys es) (fold hash_remove es w))
        (\<lambda>w1. if length es < 64 then Done w1 else drop_rounds n fs ino from w1))"

definition drop_matching :: "u64 \<Rightarrow> u64 \<Rightarrow> u64 \<Rightarrow> page_world \<Rightarrow> page_world outcome" where
  "drop_matching fs ino from w = drop_rounds (length (g_lru w) + 1) fs ino from w"

definition pagecache_truncated :: "u64 \<times> u64 \<Rightarrow> u64 \<Rightarrow> page_world \<Rightarrow> page_world outcome" where
  "pagecache_truncated key new_size w =
     and_then (drop_matching (fst key) (snd key) ((new_size + of_nat PAGE_SIZE - 1) div of_nat PAGE_SIZE) w) (\<lambda>w1.
       if new_size mod of_nat PAGE_SIZE \<noteq> 0 then
         (case find_locked (fst key) (snd key) (new_size div of_nat PAGE_SIZE) w1 of
            None \<Rightarrow> Done w1
          | Some e \<Rightarrow>
              let w2 = page_ref (pe_phys e) w1 in
              if pe_phys e = 0 then Done w2
              else
                let f = pe_phys e div PAGE_SIZE; inn = unat (new_size mod of_nat PAGE_SIZE)
                in and_then (page_unref (pe_phys e)
                     (w2\<lparr>pg_mem := (pg_mem w2)(f := put_bytes inn (replicate (PAGE_SIZE - inn) 0) (pg_mem w2 f))\<rparr>))
                   (\<lambda>(_, w3). Done w3))
       else Done w1)"

definition pagecache_invalidate_key :: "u64 \<Rightarrow> u64 \<Rightarrow> page_world \<Rightarrow> page_world outcome" where
  "pagecache_invalidate_key fs ino w = (if g_count w = 0 then Done w else drop_matching fs ino 0 w)"

definition pagecache_invalidate :: "u64 \<times> u64 \<Rightarrow> page_world \<Rightarrow> page_world outcome" where
  "pagecache_invalidate key w = drop_matching (fst key) (snd key) 0 w"

text \<open>\<open>own\<close>: the file system gives the file an identity of its own.\<close>

definition pagecache_vnode_released :: "bool \<Rightarrow> u64 \<times> u64 \<Rightarrow> page_world \<Rightarrow> page_world outcome" where
  "pagecache_vnode_released own key w =
     (if own then Done w
      else if g_count w = 0 then Done w
      else drop_matching (fst key) (snd key) 0 w)"

end
