(* ===== verification/Single_Page.thy ===== *)
theory Single_Page
  imports Buddy_Correct
begin

text \<open>
  The page allocator as its clients that take one page at a time see it: an allocation takes one
  free frame, or finds none, and a free of a frame gives it back.
\<close>

lemma order_one: "pages_to_order 1 = Some 0"
proof -
  have "pages_to_order_loop 1 1 0 = Some 0" by (subst pages_to_order_loop.simps) simp
  then show ?thesis by (simp add: pages_to_order_def)
qed

lemma frames_one: "frames (f * PAGE_SIZE) 0 = {f}"
  by (simp add: frames_def PAGE_SIZE_def)

definition page_at :: "pmm_state \<Rightarrow> nat \<Rightarrow> bool" where
  "page_at s f \<longleftrightarrow> block_ok s 0 (f * PAGE_SIZE)"

lemma page_at_iff: "page_at s f \<longleftrightarrow> PMM_FREE_MIN_PHYS \<le> f * PAGE_SIZE \<and> f * PAGE_SIZE + PAGE_SIZE \<le> mem_end s"
  by (simp add: page_at_def block_ok_def block_size_def)

lemma alloc_one:
  assumes wf: "pmm_wf s"
  shows "\<exists>p s'. pmm_alloc 1 s = Done (p, s') \<and> pmm_wf s' \<and> mem_end s' = mem_end s \<and> hhdm_offset s' = hhdm_offset s \<and>
    (p = 0 \<and> free_frames s' = free_frames s \<or>
     (\<exists>f. p \<noteq> 0 \<and> virt_to_phys s' p = f * PAGE_SIZE \<and> page_at s f \<and> f \<in> free_frames s \<and> free_frames s' = free_frames s - {f}))"
proof -
  have inv: "buddy_inv s" and off: "unat (hhdm_offset s) + mem_end s < 2 ^ 64" using wf by (simp_all add: pmm_wf_def)
  obtain p s' where al: "pmm_alloc 1 s = Done (p, s')" using pmm_alloc_returns [of 1 s] by auto
  have one: "(1::u64) \<noteq> 0" "unat (1::u64) \<le> 2 ^ 63" by simp_all
  note c = pmm_alloc_correct [OF inv al one]
  have wf': "pmm_wf s'" using c off by (auto simp: pmm_wf_def)
  show ?thesis
  proof (cases "p = 0")
    case True
    have "phys_to_virt s b \<noteq> 0" if "block_ok s ord b" for ord b
      using phys_to_virt_nonzero(1) [OF wf] block_ok_bounds [OF that] by simp
    with True c have "free_frames s' = free_frames s" by metis
    with True al wf' c show ?thesis by simp
  next
    case False
    with c obtain b where b: "p = phys_to_virt s b" "block_ok s 0 b" "frames b 0 \<subseteq> free_frames s"
        "free_frames s' = free_frames s - frames b 0"
      by (auto simp: order_one simp del: One_nat_def)
    define f where "f = b div PAGE_SIZE"
    have bf: "b = f * PAGE_SIZE" using b(2) by (simp add: f_def block_ok_def block_size_def)
    have "b < 2 ^ 64" using b(2) off by (simp add: block_ok_def)
    then have "virt_to_phys s' p = f * PAGE_SIZE"
      using virt_phys_inverse [of b s] c by (simp add: b(1) bf virt_to_phys_def phys_to_virt_def)
    moreover have "page_at s f" "f \<in> free_frames s" "free_frames s' = free_frames s - {f}"
      using b by (simp_all add: bf frames_one page_at_def)
    ultimately show ?thesis using False al wf' c by blast
  qed
qed

lemma free_one:
  assumes wf: "pmm_wf s" and at: "page_at s f" and fresh: "f \<notin> free_frames s"
  shows "\<exists>s'. pmm_free (phys_to_virt s (f * PAGE_SIZE)) 1 s = Done s' \<and> pmm_wf s' \<and> mem_end s' = mem_end s \<and>
    hhdm_offset s' = hhdm_offset s \<and> free_frames s' = insert f (free_frames s)"
proof -
  have inv: "buddy_inv s" and off: "unat (hhdm_offset s) + mem_end s < 2 ^ 64" using wf by (simp_all add: pmm_wf_def)
  have ok: "block_ok s 0 (f * PAGE_SIZE)" using at by (simp add: page_at_def)
  then have b: "0 < f * PAGE_SIZE" "f * PAGE_SIZE < mem_end s" using block_ok_bounds by blast+
  note pv = phys_to_virt_nonzero [OF wf b]
  have "\<exists>s'. pmm_free (phys_to_virt s (f * PAGE_SIZE)) 1 s = Done s' \<and> buddy_inv s' \<and>
    free_frames s' = frames (f * PAGE_SIZE) 0 \<union> free_frames s \<and> mem_end s' = mem_end s \<and>
    hhdm_offset s' = hhdm_offset s \<and> usable_pages s' = usable_pages s"
    by (rule pmm_free_correct [OF inv pv(2,1) _ _ _ ok])
       (use fresh in \<open>simp_all add: order_one frames_one PMM_MAX_ORDER_NR_def\<close>)
  then show ?thesis using off by (auto simp: frames_one pmm_wf_def)
qed

lemma PS: "PAGE_SIZE = 4096" by (simp add: PAGE_SIZE_def)

lemma PS_neq [simp]: "PAGE_SIZE \<noteq> 0" by (simp add: PS)

lemma frame_div [simp]: "f * PAGE_SIZE div PAGE_SIZE = f" by (simp add: PS)

lemma page_at_cong: "mem_end s' = mem_end s \<Longrightarrow> page_at s' f = page_at s f"
  by (simp add: page_at_iff)

text \<open>An allocation of one page fails only when no frame is free.\<close>

lemma alloc_one_none:
  assumes wf: "pmm_wf s" and al: "pmm_alloc 1 s = Done (0, s')"
  shows "free_frames s = {}"
proof -
  have inv: "buddy_inv s" using wf by (simp add: pmm_wf_def)
  have "phys_to_virt s b \<noteq> 0" if "block_ok s ord b" for ord b
    using phys_to_virt_nonzero(1) [OF wf] block_ok_bounds [OF that] by simp
  then have "\<forall>k<PMM_MAX_ORDER_NR. unat (1::u64) \<le> 2 ^ k \<longrightarrow> fblocks s k = []"
    using pmm_alloc_complete [OF inv, of 1] al by auto
  then show ?thesis by (simp add: free_frames_def)
qed

end
