(* ===== verification/Pagecache_Correct.thy ===== *)
theory Pagecache_Correct
  imports Pagecache Single_Page
begin

text \<open>
  The count of a frame is the number of references to it: those of the cache and those its users
  hold.  So the last user frees it, nobody frees it twice, and the cached pages are the pages of
  the files.
\<close>

section \<open>The invariant\<close>

definition entry_key :: "pc_entry \<Rightarrow> u64 \<times> u64 \<times> u64" where
  "entry_key e = (pe_fs e, pe_id e, pe_index e)"

definition cache_ok :: "page_world \<Rightarrow> bool" where
  "cache_ok w \<longleftrightarrow> distinct (map entry_key (g_lru w)) \<and> distinct (map pe_phys (g_lru w)) \<and>
     (\<forall>b. distinct (g_hash w b) \<and> set (g_hash w b) = {e \<in> set (g_lru w). entry_bucket e = b}) \<and>
     g_count w = of_nat (length (g_lru w)) \<and> (\<forall>e\<in>set (g_lru w). PAGE_SIZE dvd pe_phys e)"

text \<open>The references of the cache to a frame; its users hold \<open>held\<close> more.\<close>

definition cached :: "nat \<Rightarrow> page_world \<Rightarrow> nat" where
  "cached f w = (if f * PAGE_SIZE \<in> pe_phys ` set (g_lru w) then 1 else 0)"

definition counts_ok :: "(nat \<Rightarrow> nat) \<Rightarrow> page_world \<Rightarrow> bool" where
  "counts_ok held w \<longleftrightarrow> pmm_wf (pg_pmm w) \<and> mem_end (pg_pmm w) \<le> g_frames w * PAGE_SIZE \<and>
     (\<forall>f<g_frames w. unat (g_refs w f) = held f + cached f w) \<and>
     (\<forall>f. 0 < held f + cached f w \<longrightarrow> page_at (pg_pmm w) f \<and> f \<notin> free_frames (pg_pmm w))"

definition page_inv :: "(nat \<Rightarrow> nat) \<Rightarrow> page_world \<Rightarrow> bool" where
  "page_inv held w \<longleftrightarrow> cache_ok w \<and> counts_ok held w"

text \<open>The counters have room for the references in use.\<close>

definition room :: "(nat \<Rightarrow> nat) \<Rightarrow> bool" where
  "room held \<longleftrightarrow> (\<forall>f. held f < 2 ^ 32 - 3)"

lemma counts_okI:
  assumes "pmm_wf (pg_pmm w)" "mem_end (pg_pmm w) \<le> g_frames w * PAGE_SIZE"
    "\<And>f. f < g_frames w \<Longrightarrow> unat (g_refs w f) = held f + cached f w"
    "\<And>f. 0 < held f + cached f w \<Longrightarrow> page_at (pg_pmm w) f \<and> f \<notin> free_frames (pg_pmm w)"
  shows "counts_ok held w"
  using assms by (simp add: counts_ok_def)

lemma counts_okD:
  assumes "counts_ok held w"
  shows "pmm_wf (pg_pmm w)" "mem_end (pg_pmm w) \<le> g_frames w * PAGE_SIZE"
    "f < g_frames w \<Longrightarrow> unat (g_refs w f) = held f + cached f w"
    "0 < held f + cached f w \<Longrightarrow> page_at (pg_pmm w) f \<and> f \<notin> free_frames (pg_pmm w)"
proof -
  have *: "pmm_wf (pg_pmm w) \<and> mem_end (pg_pmm w) \<le> g_frames w * PAGE_SIZE \<and>
     (\<forall>f<g_frames w. unat (g_refs w f) = held f + cached f w) \<and>
     (\<forall>f. 0 < held f + cached f w \<longrightarrow> page_at (pg_pmm w) f \<and> f \<notin> free_frames (pg_pmm w))"
    using assms unfolding counts_ok_def .
  from * show "pmm_wf (pg_pmm w)" by (rule conjunct1)
  from * show "mem_end (pg_pmm w) \<le> g_frames w * PAGE_SIZE" by (elim conjE)
  from * show "f < g_frames w \<Longrightarrow> unat (g_refs w f) = held f + cached f w" by (elim conjE) simp
  from * show "0 < held f + cached f w \<Longrightarrow> page_at (pg_pmm w) f \<and> f \<notin> free_frames (pg_pmm w)"
    by (elim conjE) (erule allE [of _ f], erule allE [of _ f], erule (1) mp)
qed

lemma page_atD: "counts_ok held w \<Longrightarrow> page_at (pg_pmm w) f \<Longrightarrow> f < g_frames w \<and> 0 < f"
  using counts_okD(2) [of held w] by (simp add: page_at_iff PS PMM_FREE_MIN_PHYS_def)

lemma slot_frame: "f < g_frames w \<Longrightarrow> slot w (f * PAGE_SIZE) = Some f"
  by (simp add: slot_def PS)

lemma cached_le: "cached f w \<le> 1" by (simp add: cached_def)

text \<open>All that the reference counts leave alone.\<close>

definition same_cache :: "page_world \<Rightarrow> page_world \<Rightarrow> bool" where
  "same_cache w' w \<longleftrightarrow> g_lru w' = g_lru w \<and> g_hash w' = g_hash w \<and> g_count w' = g_count w \<and> pg_mem w' = pg_mem w \<and>
     pg_kmem w' = pg_kmem w \<and> g_shrink w' = g_shrink w \<and> g_frames w' = g_frames w"

lemma same_cacheD:
  "same_cache w' w \<Longrightarrow> cache_ok w' = cache_ok w \<and> cached f w' = cached f w"
  by (simp add: same_cache_def cache_ok_def cached_def)

lemma page_invI: "same_cache w' w \<Longrightarrow> cache_ok w \<Longrightarrow> counts_ok held w' \<Longrightarrow> page_inv held w'"
  using same_cacheD [of w' w] by (simp add: page_inv_def)

lemma page_ref_inv:
  assumes inv: "page_inv held w" and r: "room held" and p: "0 < held f + cached f w"
  shows "page_inv (held(f := held f + 1)) (page_ref (f * PAGE_SIZE) w)" "same_cache (page_ref (f * PAGE_SIZE) w) w"
    "pg_pmm (page_ref (f * PAGE_SIZE) w) = pg_pmm w"
proof -
  have c: "counts_ok held w" and co: "cache_ok w" using inv by (simp_all add: page_inv_def)
  have f: "f < g_frames w" using page_atD [OF c] counts_okD(4) [OF c p] by blast
  have w: "page_ref (f * PAGE_SIZE) w = w\<lparr>g_refs := (g_refs w)(f := g_refs w f + 1)\<rparr>"
    by (simp add: page_ref_def slot_frame [OF f])
  have u: "unat (g_refs w f) = held f + cached f w" by (rule counts_okD(3) [OF c f])
  have "held f < 2 ^ 32 - 3" using r by (simp add: room_def)
  then have "unat (g_refs w f) + unat (1 :: u32) < 2 ^ 32" using u cached_le [of f w] by simp
  then have "unat (g_refs w f + 1) = unat (g_refs w f) + unat (1 :: u32)" by (subst unat_add_lem [THEN iffD1]) simp_all
  then have n: "unat (g_refs w f + 1) = held f + 1 + cached f w" using u by simp
  show s: "same_cache (page_ref (f * PAGE_SIZE) w) w" by (simp add: w same_cache_def)
  show "pg_pmm (page_ref (f * PAGE_SIZE) w) = pg_pmm w" by (simp add: w)
  note k = conjunct2 [OF same_cacheD [OF s]]
  have "counts_ok (held(f := held f + 1)) (page_ref (f * PAGE_SIZE) w)"
  proof (rule counts_okI)
    fix g
    show "unat (g_refs (page_ref (f * PAGE_SIZE) w) g) = (held(f := held f + 1)) g + cached g (page_ref (f * PAGE_SIZE) w)"
      if "g < g_frames (page_ref (f * PAGE_SIZE) w)"
      using n counts_okD(3) [OF c, of g] that unfolding k by (simp add: w)
    show "page_at (pg_pmm (page_ref (f * PAGE_SIZE) w)) g \<and> g \<notin> free_frames (pg_pmm (page_ref (f * PAGE_SIZE) w))"
      if "0 < (held(f := held f + 1)) g + cached g (page_ref (f * PAGE_SIZE) w)"
      using p counts_okD(4) [OF c, of g] that unfolding k by (cases "g = f") (simp_all add: w)
  qed (use counts_okD(1,2) [OF c] in \<open>simp_all add: w\<close>)
  then show "page_inv (held(f := held f + 1)) (page_ref (f * PAGE_SIZE) w)"
    by (rule page_invI [OF s co])
qed

lemma page_unref_inv:
  assumes inv: "page_inv held w" and p: "0 < held f"
  shows "\<exists>b w'. page_unref (f * PAGE_SIZE) w = Done (b, w') \<and> page_inv (held(f := held f - 1)) w' \<and> same_cache w' w"
proof -
  have c: "counts_ok held w" and co: "cache_ok w" using inv by (simp_all add: page_inv_def)
  have at: "page_at (pg_pmm w) f" "f \<notin> free_frames (pg_pmm w)" using counts_okD(4) [OF c, of f] p by simp_all
  then have f: "f < g_frames w" using page_atD [OF c] by blast
  have u: "unat (g_refs w f) = held f + cached f w" by (rule counts_okD(3) [OF c f])
  have nz: "g_refs w f \<noteq> 0" using u p by (metis add_is_0 less_not_refl unat_0)
  let ?w = "w\<lparr>g_refs := (g_refs w)(f := g_refs w f - 1)\<rparr>"
  have n: "unat (g_refs w f - 1) = held f - 1 + cached f w"
    using u p unat_minus_one [OF nz] by simp
  have s: "same_cache (?w\<lparr>pg_pmm := x\<rparr>) w" for x by (simp add: same_cache_def)
  have s1: "same_cache ?w w" by (simp add: same_cache_def)
  show ?thesis
  proof (cases "g_refs w f = 1")
    case True
    then have h: "held f = 1" "cached f w = 0" using u p by simp_all
    have m: "PMM_FREE_MIN_PHYS \<le> f * PAGE_SIZE" using at(1) by (simp add: page_at_iff)
    have wf: "pmm_wf (pg_pmm w)" by (rule counts_okD(1) [OF c])
    obtain s' where fr: "pmm_free (phys_to_virt (pg_pmm w) (f * PAGE_SIZE)) 1 (pg_pmm w) = Done s'" "pmm_wf s'"
        "mem_end s' = mem_end (pg_pmm w)" "free_frames s' = insert f (free_frames (pg_pmm w))"
      using free_one [OF wf at] by blast
    have e: "page_unref (f * PAGE_SIZE) w = Done (True, ?w\<lparr>pg_pmm := s'\<rparr>)"
      using True m fr(1) by (simp add: page_unref_def slot_frame [OF f])
    have "counts_ok (held(f := held f - 1)) (?w\<lparr>pg_pmm := s'\<rparr>)"
    proof (rule counts_okI)
      fix g
      note k = conjunct2 [OF same_cacheD [OF s]]
      show "unat (g_refs (?w\<lparr>pg_pmm := s'\<rparr>) g) = (held(f := held f - 1)) g + cached g (?w\<lparr>pg_pmm := s'\<rparr>)"
        if "g < g_frames (?w\<lparr>pg_pmm := s'\<rparr>)"
        using n counts_okD(3) [OF c, of g] that unfolding k by simp
      show "page_at (pg_pmm (?w\<lparr>pg_pmm := s'\<rparr>)) g \<and> g \<notin> free_frames (pg_pmm (?w\<lparr>pg_pmm := s'\<rparr>))"
        if "0 < (held(f := held f - 1)) g + cached g (?w\<lparr>pg_pmm := s'\<rparr>)"
        using h counts_okD(4) [OF c, of g] that fr(4) page_at_cong [OF fr(3)] unfolding k by (cases "g = f") simp_all
    qed (use fr counts_okD(2) [OF c] in simp_all)
    then show ?thesis using e s page_invI [OF s co] by blast
  next
    case False
    then have e: "page_unref (f * PAGE_SIZE) w = Done (False, ?w)"
      using nz by (simp add: page_unref_def slot_frame [OF f])
    note k = conjunct2 [OF same_cacheD [OF s1]]
    have "counts_ok (held(f := held f - 1)) ?w"
    proof (rule counts_okI)
      fix g
      show "unat (g_refs ?w g) = (held(f := held f - 1)) g + cached g ?w" if "g < g_frames ?w"
        using n counts_okD(3) [OF c, of g] that unfolding k by simp
      show "page_at (pg_pmm ?w) g \<and> g \<notin> free_frames (pg_pmm ?w)" if "0 < (held(f := held f - 1)) g + cached g ?w"
        using at counts_okD(4) [OF c, of g] that unfolding k by (cases "g = f") simp_all
    qed (use counts_okD(1,2) [OF c] in simp_all)
    then show ?thesis using e s1 page_invI [OF s1 co] by blast
  qed
qed

section \<open>The table and the list\<close>

lemma cache_okD:
  assumes "cache_ok w"
  shows "distinct (map entry_key (g_lru w))" "distinct (map pe_phys (g_lru w))" "distinct (g_lru w)" "distinct (g_hash w b)"
    "set (g_hash w b) = {e \<in> set (g_lru w). entry_bucket e = b}" "g_count w = of_nat (length (g_lru w))"
    "e \<in> set (g_lru w) \<Longrightarrow> PAGE_SIZE dvd pe_phys e"
  using assms by (auto simp: cache_ok_def distinct_map)

lemma cache_okI:
  assumes "distinct (map entry_key (g_lru w))" "distinct (map pe_phys (g_lru w))"
    "\<And>b. distinct (g_hash w b)" "\<And>b. set (g_hash w b) = {e \<in> set (g_lru w). entry_bucket e = b}"
    "g_count w = of_nat (length (g_lru w))" "\<And>e. e \<in> set (g_lru w) \<Longrightarrow> PAGE_SIZE dvd pe_phys e"
  shows "cache_ok w"
  using assms by (simp add: cache_ok_def)

lemma key_inj: "cache_ok w \<Longrightarrow> e \<in> set (g_lru w) \<Longrightarrow> e' \<in> set (g_lru w) \<Longrightarrow> entry_key e = entry_key e' \<Longrightarrow> e = e'"
  using cache_okD(1) [of w] by (auto simp: distinct_map dest: inj_onD)

lemma phys_inj: "cache_ok w \<Longrightarrow> e \<in> set (g_lru w) \<Longrightarrow> e' \<in> set (g_lru w) \<Longrightarrow> pe_phys e = pe_phys e' \<Longrightarrow> e = e'"
  using cache_okD(2) [of w] by (auto simp: distinct_map dest: inj_onD)

lemma find_locked_iff:
  assumes "cache_ok w"
  shows "find_locked fs ino index w = Some e \<longleftrightarrow> e \<in> set (g_lru w) \<and> entry_key e = (fs, ino, index)"
proof
  assume "find_locked fs ino index w = Some e"
  then have "e \<in> set (g_hash w (bucket fs ino index))" "entry_key e = (fs, ino, index)"
    by (auto simp: find_locked_def find_Some_iff entry_key_def)
  then show "e \<in> set (g_lru w) \<and> entry_key e = (fs, ino, index)" using cache_okD(5) [OF assms] by simp
next
  assume e: "e \<in> set (g_lru w) \<and> entry_key e = (fs, ino, index)"
  then have "e \<in> set (g_hash w (bucket fs ino index))"
    using cache_okD(5) [OF assms] by (auto simp: entry_bucket_def entry_key_def)
  then obtain e' where e': "find_locked fs ino index w = Some e'"
    using e by (cases "find_locked fs ino index w") (auto simp: find_locked_def find_None_iff entry_key_def)
  then have "e' \<in> set (g_hash w (bucket fs ino index))" "entry_key e' = (fs, ino, index)"
    by (auto simp: find_locked_def find_Some_iff entry_key_def)
  then have "e' = e" using cache_okD(5) [OF assms] key_inj [OF assms] e by simp
  with e' show "find_locked fs ino index w = Some e" by simp
qed

lemma find_locked_None:
  "cache_ok w \<Longrightarrow> find_locked fs ino index w = None \<longleftrightarrow> (\<forall>e\<in>set (g_lru w). entry_key e \<noteq> (fs, ino, index))"
  using find_locked_iff [of w fs ino index] by (cases "find_locked fs ino index w") auto

lemma hash_remove_simps [simp]:
  "g_lru (hash_remove e w) = remove1 e (g_lru w)" "pg_mem (hash_remove e w) = pg_mem w" "pg_pmm (hash_remove e w) = pg_pmm w"
  "g_refs (hash_remove e w) = g_refs w" "g_frames (hash_remove e w) = g_frames w" "pg_kmem (hash_remove e w) = pg_kmem w"
  "g_shrink (hash_remove e w) = g_shrink w" "g_count (hash_remove e w) = g_count w - 1"
  "g_hash (hash_remove e w) = (g_hash w)(entry_bucket e := remove1 e (g_hash w (entry_bucket e)))"
  by (simp_all add: hash_remove_def lru_unlink_def Let_def)

lemma frame_of:
  assumes "cache_ok w" "e \<in> set (g_lru w)"
  shows "pe_phys e div PAGE_SIZE * PAGE_SIZE = pe_phys e" "cached (pe_phys e div PAGE_SIZE) w = 1"
  using cache_okD(7) [OF assms] assms(2) by (auto simp: cached_def)

lemma hash_remove_inv:
  assumes inv: "page_inv held w" and e: "e \<in> set (g_lru w)"
  defines "f \<equiv> pe_phys e div PAGE_SIZE"
  shows "page_inv (held(f := held f + 1)) (hash_remove e w)"
proof -
  have c: "counts_ok held w" and co: "cache_ok w" using inv by (simp_all add: page_inv_def)
  note fr = frame_of [OF co e, folded f_def]
  have set: "set (remove1 e (g_lru w)) = set (g_lru w) - {e}" by (simp add: set_remove1_eq [OF cache_okD(3) [OF co]])
  have ca: "cached g (hash_remove e w) = (if g = f then 0 else cached g w)" for g
  proof (cases "g = f")
    case True
    have "f * PAGE_SIZE \<notin> pe_phys ` (set (g_lru w) - {e})"
    proof
      assume "f * PAGE_SIZE \<in> pe_phys ` (set (g_lru w) - {e})"
      then obtain e' where "e' \<in> set (g_lru w) - {e}" "f * PAGE_SIZE = pe_phys e'" by blast
      then show False using phys_inj [OF co _ e, of e'] fr(1) by simp
    qed
    with True show ?thesis by (simp add: cached_def set)
  next
    case False
    then have "pe_phys e \<noteq> g * PAGE_SIZE" using fr(1) by (auto simp: PS)
    then have "g * PAGE_SIZE \<in> pe_phys ` (set (g_lru w) - {e}) \<longleftrightarrow> g * PAGE_SIZE \<in> pe_phys ` set (g_lru w)" by auto
    with False show ?thesis by (simp add: cached_def set)
  qed
  have "cache_ok (hash_remove e w)"
  proof (rule cache_okI)
    fix b
    show "distinct (map entry_key (g_lru (hash_remove e w)))" "distinct (map pe_phys (g_lru (hash_remove e w)))"
      using cache_okD(1-3) [OF co] set by (auto simp: distinct_map inj_on_def distinct_remove1)
    show "distinct (g_hash (hash_remove e w) b)" using cache_okD(4) [OF co] by (simp add: distinct_remove1)
    show "set (g_hash (hash_remove e w) b) = {x \<in> set (g_lru (hash_remove e w)). entry_bucket x = b}"
      using cache_okD(5) [OF co] set_remove1_eq [OF cache_okD(4) [OF co]] set by auto
    show "g_count (hash_remove e w) = of_nat (length (g_lru (hash_remove e w)))"
    proof -
      obtain n where "length (g_lru w) = Suc n" using length_pos_if_in_set [OF e] by (cases "length (g_lru w)") auto
      then show ?thesis using cache_okD(6) [OF co] e by (simp add: length_remove1)
    qed
  qed (use cache_okD(7) [OF co] set in auto)
  moreover have "counts_ok (held(f := held f + 1)) (hash_remove e w)"
  proof (rule counts_okI)
    fix g
    show "unat (g_refs (hash_remove e w) g) = (held(f := held f + 1)) g + cached g (hash_remove e w)"
      if "g < g_frames (hash_remove e w)"
      using counts_okD(3) [OF c, of g] that fr(2) by (simp add: ca)
    show "page_at (pg_pmm (hash_remove e w)) g \<and> g \<notin> free_frames (pg_pmm (hash_remove e w))"
      if "0 < (held(f := held f + 1)) g + cached g (hash_remove e w)"
      using counts_okD(4) [OF c, of g] that fr(2) by (cases "g = f") (simp_all add: ca)
  qed (use counts_okD(1,2) [OF c] in simp_all)
  ultimately show ?thesis by (simp add: page_inv_def)
qed

text \<open>An entry moves to the front of the list.\<close>

lemma touch_ok:
  assumes co: "cache_ok w" and e: "e \<in> set (g_lru w)"
  shows "cache_ok (lru_push_front e (lru_unlink e w))" "cached f (lru_push_front e (lru_unlink e w)) = cached f w"
    "set (g_lru (lru_push_front e (lru_unlink e w))) = set (g_lru w)"
proof -
  let ?w = "lru_push_front e (lru_unlink e w)"
  have f: "g_lru ?w = e # remove1 e (g_lru w)" "g_hash ?w = g_hash w" "g_count ?w = g_count w"
    by (simp_all add: lru_push_front_def lru_unlink_def)
  have set: "set (remove1 e (g_lru w)) = set (g_lru w) - {e}" by (simp add: set_remove1_eq [OF cache_okD(3) [OF co]])
  show sl: "set (g_lru ?w) = set (g_lru w)" using e by (auto simp: f set)
  have d: "distinct (g_lru ?w)" using cache_okD(3) [OF co] by (simp add: f set distinct_remove1)
  show "cache_ok ?w"
  proof (rule cache_okI)
    show "distinct (map entry_key (g_lru ?w))" "distinct (map pe_phys (g_lru ?w))"
      using d cache_okD(1,2) [OF co] by (simp_all add: distinct_map sl)
    show "g_count ?w = of_nat (length (g_lru ?w))"
      using cache_okD(6) [OF co] e length_pos_if_in_set [OF e] by (simp add: f length_remove1)
  qed (use cache_okD(4,5,7) [OF co] sl f(2) in auto)
  show "cached f ?w = cached f w" by (simp add: cached_def sl)
qed

section \<open>Allocation\<close>

lemma cached_pos: "cache_ok w \<Longrightarrow> 0 < cached f w \<longleftrightarrow> (\<exists>e\<in>set (g_lru w). pe_phys e = f * PAGE_SIZE)"
  by (simp add: cached_def image_iff eq_commute)

text \<open>What shrinking changes: some entries go, all pages stay as they are.\<close>

definition shrunk :: "page_world \<Rightarrow> page_world \<Rightarrow> bool" where
  "shrunk w' w \<longleftrightarrow> set (g_lru w') \<subseteq> set (g_lru w) \<and> pg_mem w' = pg_mem w \<and> pg_kmem w' = pg_kmem w \<and>
     g_shrink w' = g_shrink w \<and> g_frames w' = g_frames w"

lemma shrunk_trans: "shrunk c b \<Longrightarrow> shrunk b a \<Longrightarrow> shrunk c a" by (auto simp: shrunk_def)

lemma entry_nonzero:
  assumes "page_inv held w" "e \<in> set (g_lru w)"
  shows "pe_phys e \<noteq> 0"
proof -
  have co: "cache_ok w" and c: "counts_ok held w" using assms(1) by (simp_all add: page_inv_def)
  note fr = frame_of [OF co assms(2)]
  have "0 < pe_phys e div PAGE_SIZE" using page_atD [OF c] counts_okD(4) [OF c, of "pe_phys e div PAGE_SIZE"] fr(2) by simp
  then show ?thesis by (auto simp: PS)
qed

lemma shrink_loop_inv:
  "page_inv held w \<Longrightarrow> \<exists>d' w'. shrink_loop n d w = Done (d', w') \<and> page_inv held w' \<and> shrunk w' w"
proof (induction n arbitrary: d w)
  case 0
  then show ?case by (simp add: shrunk_def)
next
  case (Suc n)
  show ?case
  proof (cases "List.find (\<lambda>e. page_refcount (pe_phys e) w = 1) (rev (g_lru w))")
    case None
    then show ?thesis using Suc.prems by (simp add: shrunk_def)
  next
    case (Some e)
    then have e: "e \<in> set (g_lru w)" by (metis find_Some_iff nth_mem set_rev)
    let ?f = "pe_phys e div PAGE_SIZE"
    have co: "cache_ok w" using Suc.prems by (simp add: page_inv_def)
    note nz = entry_nonzero [OF Suc.prems e]
    have i: "page_inv (held(?f := held ?f + 1)) (hash_remove e w)" by (rule hash_remove_inv [OF Suc.prems e])
    obtain b w1 where u: "page_unref (?f * PAGE_SIZE) (hash_remove e w) = Done (b, w1)"
        "page_inv (held(?f := held ?f + 1, ?f := (held(?f := held ?f + 1)) ?f - 1)) w1" "same_cache w1 (hash_remove e w)"
      using page_unref_inv [OF i, of ?f] by auto
    have "held(?f := held ?f + 1, ?f := (held(?f := held ?f + 1)) ?f - 1) = held" by auto
    with u(2) have i1: "page_inv held w1" by simp
    obtain d' w' where r: "shrink_loop n (d + 1) w1 = Done (d', w')" "page_inv held w'" "shrunk w' w1"
      using Suc.IH [OF i1] by blast
    have "shrunk w1 w" using u(3) set_remove1_subset [of e "g_lru w"] by (simp add: shrunk_def same_cache_def)
    moreover have "shrink_loop (Suc n) d w = Done (d', w')"
      using Some nz u(1) r(1) by (simp add: frame_of [OF co e])
    ultimately show ?thesis using r(2,3) shrunk_trans by blast
  qed
qed

text \<open>A page for a user, zeroed, with one reference.\<close>

definition new_page :: "(nat \<Rightarrow> nat) \<Rightarrow> page_world \<Rightarrow> nat \<Rightarrow> page_world \<Rightarrow> bool" where
  "new_page held w phys w' \<longleftrightarrow>
     phys = 0 \<and> page_inv held w' \<and> shrunk w' w \<or>
     (\<exists>f. phys = f * PAGE_SIZE \<and> 0 < f \<and> held f = 0 \<and> cached f w' = 0 \<and> page_inv (held(f := 1)) w' \<and>
        shrunk (w'\<lparr>pg_mem := pg_mem w\<rparr>) w \<and> pg_mem w' = (pg_mem w)(f := (\<lambda>_. 0)))"

lemma new_page_shrunk: "new_page held w1 phys w' \<Longrightarrow> shrunk w1 w \<Longrightarrow> new_page held w phys w'"
  unfolding new_page_def shrunk_def by auto

lemma fresh_page_inv:
  assumes inv: "page_inv held w"
  shows "\<exists>p s'. pmm_alloc 1 (pg_pmm w) = Done (p, s') \<and> (p = 0 \<longrightarrow> page_inv held (w\<lparr>pg_pmm := s'\<rparr>)) \<and>
    new_page held w (fst (fresh_page p (w\<lparr>pg_pmm := s'\<rparr>))) (snd (fresh_page p (w\<lparr>pg_pmm := s'\<rparr>)))"
proof -
  have c: "counts_ok held w" and co: "cache_ok w" using inv by (simp_all add: page_inv_def)
  obtain p s' where al: "pmm_alloc 1 (pg_pmm w) = Done (p, s')" "pmm_wf s'" "mem_end s' = mem_end (pg_pmm w)"
      "p = 0 \<and> free_frames s' = free_frames (pg_pmm w) \<or>
       (\<exists>f. p \<noteq> 0 \<and> virt_to_phys s' p = f * PAGE_SIZE \<and> page_at (pg_pmm w) f \<and> f \<in> free_frames (pg_pmm w) \<and>
            free_frames s' = free_frames (pg_pmm w) - {f})"
    using alloc_one [OF counts_okD(1) [OF c]] by blast
  have s: "same_cache (w\<lparr>pg_pmm := s'\<rparr>) w" by (simp add: same_cache_def)
  note k = conjunct2 [OF same_cacheD [OF s]]
  have i: "page_inv held (w\<lparr>pg_pmm := s'\<rparr>)"
  proof (rule page_invI [OF s co], rule counts_okI)
    fix g
    show "unat (g_refs (w\<lparr>pg_pmm := s'\<rparr>) g) = held g + cached g (w\<lparr>pg_pmm := s'\<rparr>)" if "g < g_frames (w\<lparr>pg_pmm := s'\<rparr>)"
      using counts_okD(3) [OF c, of g] that unfolding k by simp
    show "page_at (pg_pmm (w\<lparr>pg_pmm := s'\<rparr>)) g \<and> g \<notin> free_frames (pg_pmm (w\<lparr>pg_pmm := s'\<rparr>))"
      if "0 < held g + cached g (w\<lparr>pg_pmm := s'\<rparr>)"
      using counts_okD(4) [OF c, of g] that al(4) page_at_cong [OF al(3), of g] unfolding k by auto
  qed (use al(2,3) counts_okD(2) [OF c] in simp_all)
  show ?thesis
  proof (cases "p = 0")
    case True
    then show ?thesis using al(1) i by (auto simp: fresh_page_def new_page_def shrunk_def)
  next
    case False
    then obtain f where f: "virt_to_phys s' p = f * PAGE_SIZE" "page_at (pg_pmm w) f" "f \<in> free_frames (pg_pmm w)"
        "free_frames s' = free_frames (pg_pmm w) - {f}" using al(4) by blast
    have "\<not> 0 < held f + cached f w" using counts_okD(4) [OF c, of f] f(3) by blast
    then have z: "held f = 0" "cached f w = 0" by simp_all
    have lt: "f < g_frames w" "0 < f" using page_atD [OF c f(2)] by simp_all
    let ?m = "(pg_mem w)(f := (\<lambda>_. 0))"
    let ?w = "w\<lparr>pg_pmm := s', pg_mem := ?m, g_refs := (g_refs w)(f := 1)\<rparr>"
    have e: "fresh_page p (w\<lparr>pg_pmm := s'\<rparr>) = (f * PAGE_SIZE, ?w)"
      using False f(1) slot_frame [of f "w\<lparr>pg_pmm := s', pg_mem := ?m\<rparr>"] lt(1) by (simp add: fresh_page_def Let_def)
    have cw: "cached g ?w = cached g w" for g by (simp add: cached_def)
    have "counts_ok (held(f := 1)) ?w"
    proof (rule counts_okI)
      fix g
      show "unat (g_refs ?w g) = (held(f := 1)) g + cached g ?w" if "g < g_frames ?w"
        using counts_okD(3) [OF c, of g] that z unfolding cw by simp
      show "page_at (pg_pmm ?w) g \<and> g \<notin> free_frames (pg_pmm ?w)" if "0 < (held(f := 1)) g + cached g ?w"
        using counts_okD(4) [OF c, of g] that f(2,4) page_at_cong [OF al(3), of g] unfolding cw
        by (cases "g = f") simp_all
    qed (use al(2,3) counts_okD(2) [OF c] in simp_all)
    moreover have "cache_ok ?w" using co by (simp add: cache_ok_def)
    ultimately have "page_inv (held(f := 1)) ?w" by (simp add: page_inv_def)
    then have "new_page held w (f * PAGE_SIZE) ?w"
      unfolding new_page_def using z lt(2) by (intro disjI2 exI [of _ f]) (simp add: shrunk_def cw)
    then show ?thesis using al(1) e False by simp
  qed
qed

lemma page_alloc_user_inv:
  assumes inv: "page_inv held w"
  shows "\<exists>phys w'. page_alloc_user w = Done (phys, w') \<and> new_page held w phys w'"
proof -
  obtain p s' where a: "pmm_alloc 1 (pg_pmm w) = Done (p, s')" "p = 0 \<Longrightarrow> page_inv held (w\<lparr>pg_pmm := s'\<rparr>)"
      "new_page held w (fst (fresh_page p (w\<lparr>pg_pmm := s'\<rparr>))) (snd (fresh_page p (w\<lparr>pg_pmm := s'\<rparr>)))"
    using fresh_page_inv [OF inv] by blast
  show ?thesis
  proof (cases "p = 0 \<and> g_shrink w")
    case True
    then obtain d w2 where s: "pagecache_shrink 256 (w\<lparr>pg_pmm := s'\<rparr>) = Done (d, w2)" "page_inv held w2" "shrunk w2 (w\<lparr>pg_pmm := s'\<rparr>)"
      using shrink_loop_inv [OF a(2)] unfolding pagecache_shrink_def by blast
    obtain p2 s2 where b: "pmm_alloc 1 (pg_pmm w2) = Done (p2, s2)"
        "new_page held w2 (fst (fresh_page p2 (w2\<lparr>pg_pmm := s2\<rparr>))) (snd (fresh_page p2 (w2\<lparr>pg_pmm := s2\<rparr>)))"
      using fresh_page_inv [OF s(2)] by blast
    have "shrunk w2 w" using s(3) by (simp add: shrunk_def)
    with b True a(1) s(1) show ?thesis
      by (cases "fresh_page p2 (w2\<lparr>pg_pmm := s2\<rparr>)") (auto simp: page_alloc_user_def Let_def intro: new_page_shrunk)
  next
    case False
    then show ?thesis using a(1,3) by (cases "fresh_page p (w\<lparr>pg_pmm := s'\<rparr>)") (auto simp: page_alloc_user_def Let_def)
  qed
qed

section \<open>Pages of files\<close>

text \<open>
  The content of the files, by identity and position; bytes behind the end are zero.  The reading
  operation of a file system returns a prefix of what is asked for, and nothing only at the end.
\<close>

type_synonym files = "u64 \<times> u64 \<Rightarrow> nat \<Rightarrow> u8"

definition reads :: "files \<Rightarrow> u64 \<times> u64 \<Rightarrow> (nat \<Rightarrow> u64 \<Rightarrow> u8 list result) \<Rightarrow> bool" where
  "reads files key rd \<longleftrightarrow> (\<forall>n off bs. rd n off = Inr bs \<longrightarrow> length bs \<le> n \<and>
     (\<forall>i<length bs. bs ! i = files key (unat off + i)) \<and> (bs = [] \<longrightarrow> (\<forall>i<n. files key (unat off + i) = 0)))"

definition coherent :: "files \<Rightarrow> page_world \<Rightarrow> bool" where
  "coherent files w \<longleftrightarrow> (\<forall>e\<in>set (g_lru w). \<forall>i<PAGE_SIZE.
     pg_mem w (pe_phys e div PAGE_SIZE) i = files (pe_fs e, pe_id e) (unat (pe_index e) * PAGE_SIZE + i))"

lemma coherent_shrunk: "coherent files w \<Longrightarrow> shrunk w' w \<Longrightarrow> coherent files w'"
  by (auto simp: coherent_def shrunk_def)

lemma fill_loop_reads:
  assumes "reads files key rd" "\<forall>i<got. page i = files key (unat off + i)" "\<forall>i\<ge>got. page i = 0"
    "fill_loop rd off got page = (None, page')" "unat off + PAGE_SIZE \<le> 2 ^ 64"
  shows "\<forall>i<PAGE_SIZE. page' i = files key (unat off + i)"
  using assms
proof (induction rd off got page arbitrary: page' rule: fill_loop.induct)
  case (1 rd off got page)
  show ?case
  proof (cases "got < PAGE_SIZE")
    case False
    then have "page' = page" using "1.prems"(4) by (subst (asm) fill_loop.simps) simp
    with False "1.prems"(2) show ?thesis by simp
  next
    case True
    then have ug: "unat (off + of_nat got) = unat off + got" using "1.prems"(5)
      by (simp add: unat_word_ariths unat_of_nat PS)
    show ?thesis
    proof (cases "rd (PAGE_SIZE - got) (off + of_nat got)")
      case (Inl e)
      then show ?thesis using True "1.prems"(4) by (subst (asm) fill_loop.simps) simp
    next
      case (Inr bs)
      have r: "length bs \<le> PAGE_SIZE - got" "\<And>i. i < length bs \<Longrightarrow> bs ! i = files key (unat off + got + i)"
          "\<And>i. bs = [] \<Longrightarrow> i < PAGE_SIZE - got \<Longrightarrow> files key (unat off + got + i) = 0"
        using "1.prems"(1) Inr unfolding reads_def ug [symmetric] by blast+
      show ?thesis
      proof (cases "bs = []")
        case e: True
        then have p: "page' = page" using True Inr "1.prems"(4) by (subst (asm) fill_loop.simps) simp
        have "page' i = files key (unat off + i)" if "i < PAGE_SIZE" for i
          using r(3) [OF e, of "i - got"] that "1.prems"(2,3) p by (cases "i < got") auto
        then show ?thesis by blast
      next
        case False
        have f: "fill_loop rd off (got + length bs) (put_bytes got bs page) = (None, page')"
          using True Inr False "1.prems"(4) by (subst (asm) fill_loop.simps) simp
        have "put_bytes got bs page i = files key (unat off + i)" if "i < got + length bs" for i
          using r(2) [of "i - got"] that "1.prems"(2) by (cases "i < got") (auto simp: put_bytes_def)
        then have lo: "\<forall>i<got + length bs. put_bytes got bs page i = files key (unat off + i)" by blast
        have hi: "\<forall>i\<ge>got + length bs. put_bytes got bs page i = 0" using "1.prems"(3) by (simp add: put_bytes_def)
        show ?thesis by (rule "1.IH" [OF True Inr False "1.prems"(1) lo hi f "1.prems"(5)])
      qed
    qed
  qed
qed

lemma index_offset:
  assumes "index < 2 ^ 52"
  shows "unat (index * of_nat PAGE_SIZE :: u64) = unat index * PAGE_SIZE" "unat index * PAGE_SIZE + PAGE_SIZE \<le> 2 ^ 64"
proof -
  have "unat index < 2 ^ 52" using assms by (simp add: word_less_nat_alt)
  then show "unat index * PAGE_SIZE + PAGE_SIZE \<le> 2 ^ 64" "unat (index * of_nat PAGE_SIZE :: u64) = unat index * PAGE_SIZE"
    by (simp_all add: unat_word_ariths PS)
qed

text \<open>
  What a call that returns a page promises: the page has one more reference, it holds a page of
  the file, and the cache is coherent.
\<close>

definition got_page :: "(nat \<Rightarrow> nat) \<Rightarrow> files \<Rightarrow> u64 \<times> u64 \<Rightarrow> u64 \<Rightarrow> nat \<Rightarrow> page_world \<Rightarrow> bool" where
  "got_page held files key index phys w \<longleftrightarrow>
     (\<exists>f. phys = f * PAGE_SIZE \<and> page_inv (held(f := held f + 1)) w \<and> coherent files w \<and>
        (\<forall>i<PAGE_SIZE. pg_mem w f i = files key (unat index * PAGE_SIZE + i)))"

lemma coherent_same: "same_cache w' w \<Longrightarrow> coherent files w' = coherent files w"
  by (simp add: coherent_def same_cache_def)

lemma coherent_touch:
  "cache_ok w \<Longrightarrow> e \<in> set (g_lru w) \<Longrightarrow> coherent files (lru_push_front e (lru_unlink e w)) = coherent files w"
  using touch_ok(3) [of w e] by (simp add: coherent_def) (simp add: lru_push_front_def lru_unlink_def)

lemma touch_inv:
  assumes inv: "page_inv held w" and e: "e \<in> set (g_lru w)"
  shows "page_inv held (lru_push_front e (lru_unlink e w))"
proof -
  have c: "counts_ok held w" and co: "cache_ok w" using inv by (simp_all add: page_inv_def)
  note t = touch_ok(1,2) [OF co e]
  let ?w = "lru_push_front e (lru_unlink e w)"
  have f: "pg_pmm ?w = pg_pmm w" "g_refs ?w = g_refs w" "g_frames ?w = g_frames w"
    by (simp_all add: lru_push_front_def lru_unlink_def)
  have "counts_ok held ?w = counts_ok held w" unfolding counts_ok_def f t(2) by (rule refl)
  with t(1) c show ?thesis by (simp add: page_inv_def)
qed

lemma pc_lookup_inv:
  assumes inv: "page_inv held w" and r: "room held" and ch: "coherent files w" and l: "pc_lookup key index w = (x, w')"
  shows "case x of None \<Rightarrow> w' = w \<and> find_locked (fst key) (snd key) index w = None | Some phys \<Rightarrow> got_page held files key index phys w'"
proof (cases "find_locked (fst key) (snd key) index w")
  case None
  then show ?thesis using l by (auto simp: pc_lookup_def)
next
  case (Some e)
  have co: "cache_ok w" using inv by (simp add: page_inv_def)
  have e: "e \<in> set (g_lru w)" "entry_key e = (fst key, snd key, index)" using Some find_locked_iff [OF co] by blast+
  let ?f = "pe_phys e div PAGE_SIZE" and ?w = "page_ref (pe_phys e) w"
  note fr = frame_of [OF co e(1)]
  have p: "0 < held ?f + cached ?f w" using fr(2) by simp
  note pr = page_ref_inv [OF inv r p, unfolded fr(1)]
  have l2: "g_lru ?w = g_lru w" "pg_mem ?w = pg_mem w" using pr(2) by (simp_all add: same_cache_def)
  have e2: "e \<in> set (g_lru ?w)" using e(1) l2 by simp
  have co2: "cache_ok ?w" using pr(1) by (simp add: page_inv_def)
  have x: "x = Some (pe_phys e)" "w' = lru_push_front e (lru_unlink e ?w)" using l Some by (simp_all add: pc_lookup_def)
  have m: "pg_mem w' = pg_mem w" using l2 by (simp add: x lru_push_front_def lru_unlink_def)
  have "coherent files w'" using ch coherent_touch [OF co2 e2] coherent_same [OF pr(2)] by (simp add: x)
  moreover have "\<forall>i<PAGE_SIZE. pg_mem w' ?f i = files key (unat index * PAGE_SIZE + i)"
    using ch e unfolding m coherent_def by (cases key) (auto simp: entry_key_def)
  ultimately show ?thesis
    unfolding x option.case got_page_def using touch_inv [OF pr(1) e2] fr(1) by (intro exI [of _ ?f]) (simp add: x)
qed

lemma pc_fill_inv:
  assumes inv: "page_inv held w" and ch: "coherent files w" and rd: "reads files key rd" and ix: "index < 2 ^ 52"
  shows "\<exists>r w'. pc_fill rd index w = Done (r, w') \<and>
    (case r of
       Inl e \<Rightarrow> page_inv held w' \<and> coherent files w'
     | Inr phys \<Rightarrow> \<exists>f. phys = f * PAGE_SIZE \<and> held f = 0 \<and> cached f w' = 0 \<and> page_inv (held(f := 1)) w' \<and> coherent files w' \<and>
         (\<forall>i<PAGE_SIZE. pg_mem w' f i = files key (unat index * PAGE_SIZE + i)))"
proof -
  obtain phys w1 where a: "page_alloc_user w = Done (phys, w1)" "new_page held w phys w1" using page_alloc_user_inv [OF inv] by blast
  show ?thesis
  proof (cases "phys = 0")
    case True
    then have "page_inv held w1 \<and> shrunk w1 w" using a(2) by (auto simp: new_page_def PS)
    then show ?thesis using True a(1) coherent_shrunk [OF ch] by (auto simp: pc_fill_def)
  next
    case False
    then obtain f where f: "phys = f * PAGE_SIZE" "held f = 0" "cached f w1 = 0" "page_inv (held(f := 1)) w1"
        "shrunk (w1\<lparr>pg_mem := pg_mem w\<rparr>) w" "pg_mem w1 = (pg_mem w)(f := (\<lambda>_. 0))"
      using a(2) by (auto simp: new_page_def)
    have lru: "set (g_lru w1) \<subseteq> set (g_lru w)" using f(5) by (simp add: shrunk_def)
    obtain err page where fl: "fill_loop rd (index * of_nat PAGE_SIZE) 0 (\<lambda>_. 0) = (err, page)" by fastforce
    let ?w = "w1\<lparr>pg_mem := (pg_mem w1)(f := page)\<rparr>"
    have co: "cache_ok w1" using f(4) by (simp add: page_inv_def)
    have nf: "pe_phys e div PAGE_SIZE \<noteq> f" if "e \<in> set (g_lru w1)" for e
      using frame_of(2) [OF co that] f(3) by auto
    have i: "page_inv (held(f := 1)) ?w" "cached f ?w = 0"
      using f(3,4) by (simp_all add: page_inv_def cache_ok_def counts_ok_def cached_def)
    have c: "coherent files ?w" using ch nf lru by (auto simp: coherent_def f(6))
    show ?thesis
    proof (cases err)
      case None
      then have "\<forall>i<PAGE_SIZE. page i = files key (unat index * PAGE_SIZE + i)"
        using fill_loop_reads [OF rd, of 0 "\<lambda>_. 0" "index * of_nat PAGE_SIZE" page] fl index_offset [OF ix] by simp
      then show ?thesis using a(1) False f fl None i c PAGE_SIZE_pos by (auto simp: pc_fill_def Let_def)
    next
      case (Some e)
      obtain b w3 where u: "page_unref (f * PAGE_SIZE) ?w = Done (b, w3)" "page_inv (held(f := 1, f := (held(f := 1)) f - 1)) w3" "same_cache w3 ?w"
        using page_unref_inv [OF i(1), of f] by auto
      have "held(f := 1, f := (held(f := 1)) f - 1) = held" using f(2) by auto
      with u(2) have "page_inv held w3" by simp
      then show ?thesis using a(1) False f fl Some u(1) c coherent_same [OF u(3)] PAGE_SIZE_pos by (auto simp: pc_fill_def Let_def)
    qed
  qed
qed

text \<open>A page with a reference of its own enters the cache, which takes another.\<close>

lemma pc_add_inv:
  assumes inv: "page_inv h w" and f: "0 < h f" "h f < 2 ^ 32 - 3" "cached f w = 0"
    and none: "find_locked (pe_fs ne) (pe_id ne) (pe_index ne) w = None" and ne: "pe_phys ne = f * PAGE_SIZE"
  shows "page_inv h (pc_add ne w)" "g_lru (pc_add ne w) = ne # g_lru w" "pg_mem (pc_add ne w) = pg_mem w"
proof -
  have c: "counts_ok h w" and co: "cache_ok w" using inv by (simp_all add: page_inv_def)
  let ?b = "bucket (pe_fs ne) (pe_id ne) (pe_index ne)"
  have lt: "f < g_frames w" using page_atD [OF c] counts_okD(4) [OF c, of f] f(1) by simp
  let ?w = "w\<lparr>g_hash := (g_hash w)(?b := ne # g_hash w ?b), g_lru := ne # g_lru w, g_count := g_count w + 1,
      g_refs := (g_refs w)(f := g_refs w f + 1)\<rparr>"
  have e: "pc_add ne w = ?w" using lt by (simp add: pc_add_def lru_push_front_def page_ref_def slot_def ne Let_def)
  have nk: "entry_key ne \<notin> entry_key ` set (g_lru w)"
    using none unfolding find_locked_None [OF co] by (auto simp: entry_key_def image_iff)
  have np: "pe_phys ne \<notin> pe_phys ` set (g_lru w)" using f(3) by (simp add: cached_def ne split: if_splits)
  have nn: "ne \<notin> set (g_lru w)" using nk by blast
  have eb: "entry_bucket ne = ?b" by (simp add: entry_bucket_def)
  have "cache_ok ?w"
  proof (rule cache_okI)
    fix b
    show "distinct (map entry_key (g_lru ?w))" "distinct (map pe_phys (g_lru ?w))" using cache_okD(1,2) [OF co] nk np by simp_all
    show "distinct (g_hash ?w b)" using cache_okD(4,5) [OF co] nn by simp
    show "set (g_hash ?w b) = {x \<in> set (g_lru ?w). entry_bucket x = b}" using cache_okD(5) [OF co] eb by auto
    show "g_count ?w = of_nat (length (g_lru ?w))" using cache_okD(6) [OF co] by simp
    show "PAGE_SIZE dvd pe_phys x" if "x \<in> set (g_lru ?w)" for x using that cache_okD(7) [OF co] ne by auto
  qed
  moreover have "counts_ok h ?w"
  proof (rule counts_okI)
    fix g
    have cg: "cached g ?w = (if g = f then 1 else cached g w)" by (auto simp: cached_def ne PS)
    have "unat (g_refs w f) = h f" using counts_okD(3) [OF c lt] f(3) by simp
    moreover from this have "unat (g_refs w f + 1) = unat (g_refs w f) + unat (1 :: u32)"
      using f(2) by (subst unat_add_lem [THEN iffD1]) simp_all
    ultimately show "unat (g_refs ?w g) = h g + cached g ?w" if "g < g_frames ?w"
      using counts_okD(3) [OF c, of g] that unfolding cg by simp
    show "page_at (pg_pmm ?w) g \<and> g \<notin> free_frames (pg_pmm ?w)" if "0 < h g + cached g ?w"
      using counts_okD(4) [OF c, of g] that f(1) unfolding cg by (cases "g = f") simp_all
  qed (use counts_okD(1,2) [OF c] in simp_all)
  ultimately show "page_inv h (pc_add ne w)" by (simp add: e page_inv_def)
  show "g_lru (pc_add ne w) = ne # g_lru w" "pg_mem (pc_add ne w) = pg_mem w" by (simp_all add: e)
qed

lemma page_inv_kmem [simp]: "page_inv held (w\<lparr>pg_kmem := ks\<rparr>) = page_inv held w"
  by (simp add: page_inv_def cache_ok_def counts_ok_def cached_def)

lemma coherent_kmem [simp]: "coherent files (w\<lparr>pg_kmem := ks\<rparr>) = coherent files w"
  by (simp add: coherent_def)

lemma find_locked_kmem [simp]: "find_locked fs ino index (w\<lparr>pg_kmem := ks\<rparr>) = find_locked fs ino index w"
  by (simp add: find_locked_def)

lemma cached_kmem [simp]: "cached f (w\<lparr>pg_kmem := ks\<rparr>) = cached f w"
  by (simp add: cached_def)

lemma pc_insert_inv:
  assumes inv: "page_inv (held(f := 1)) w" and f: "held f = 0" "cached f w = 0" and r: "room held" and ch: "coherent files w"
    and pg: "\<forall>i<PAGE_SIZE. pg_mem w f i = files key (unat index * PAGE_SIZE + i)"
  shows "\<exists>p w'. pc_insert key index (f * PAGE_SIZE) w = Done (p, w') \<and> got_page held files key index p w'"
proof (cases "\<exists>ks. pg_kmem w = True # ks")
  case False
  then have "pc_insert key index (f * PAGE_SIZE) w = Done (f * PAGE_SIZE, w\<lparr>pg_kmem := tl (pg_kmem w)\<rparr>)"
    by (auto simp: pc_insert_def split: list.split bool.split)
  moreover have "got_page held files key index (f * PAGE_SIZE) (w\<lparr>pg_kmem := tl (pg_kmem w)\<rparr>)"
    unfolding got_page_def using inv f(1) ch pg by (intro exI [of _ f]) simp
  ultimately show ?thesis by blast
next
  case True
  then obtain ks where ks: "pg_kmem w = True # ks" by blast
  define w1 where "w1 = w\<lparr>pg_kmem := ks\<rparr>"
  have i1: "page_inv (held(f := 1)) w1" and c1: "cached f w1 = 0" and h1: "coherent files w1" and m1: "pg_mem w1 = pg_mem w"
    using inv f(2) ch by (simp_all add: w1_def)
  have co: "cache_ok w1" using i1 by (simp add: page_inv_def)
  show ?thesis
  proof (cases "find_locked (fst key) (snd key) index w1")
    case None
    let ?ne = "\<lparr>pe_fs = fst key, pe_id = snd key, pe_index = index, pe_phys = f * PAGE_SIZE\<rparr>"
    let ?w' = "pc_add ?ne w1"
    have ii: "page_inv (held(f := 1)) ?w'" "g_lru ?w' = ?ne # g_lru w1" "pg_mem ?w' = pg_mem w1"
      using pc_add_inv [OF i1 _ _ c1, of ?ne] None by simp_all
    have e: "pc_insert key index (f * PAGE_SIZE) w = Done (f * PAGE_SIZE, ?w')"
      using ks None by (simp add: pc_insert_def w1_def Let_def)
    have "coherent files ?w'" using h1 pg m1 ii(2,3) by (auto simp: coherent_def)
    then have "got_page held files key index (f * PAGE_SIZE) ?w'"
      unfolding got_page_def using ii(1,3) f(1) m1 pg by (intro exI [of _ f]) simp
    with e show ?thesis by blast
  next
    case (Some x)
    have x: "x \<in> set (g_lru w1)" "entry_key x = (fst key, snd key, index)" using Some find_locked_iff [OF co] by blast+
    let ?g = "pe_phys x div PAGE_SIZE" and ?h = "held(f := 1)"
    note fr = frame_of [OF co x(1)]
    have gf: "?g \<noteq> f" using fr(2) c1 by auto
    have rm: "room ?h" using r by (simp add: room_def)
    have p: "0 < ?h ?g + cached ?g w1" using fr(2) by simp
    note pr = page_ref_inv [OF i1 rm p, unfolded fr(1)]
    have pf: "0 < (?h(?g := ?h ?g + 1)) f" using gf by simp
    obtain b w2 where u: "page_unref (f * PAGE_SIZE) (page_ref (pe_phys x) w1) = Done (b, w2)"
        "page_inv ((?h(?g := ?h ?g + 1))(f := (?h(?g := ?h ?g + 1)) f - 1)) w2" "same_cache w2 (page_ref (pe_phys x) w1)"
      using page_unref_inv [OF pr(1) pf] by blast
    have "(?h(?g := ?h ?g + 1))(f := (?h(?g := ?h ?g + 1)) f - 1) = held(?g := held ?g + 1)" using gf f(1) by auto
    with u(2) have i2: "page_inv (held(?g := held ?g + 1)) w2" by simp
    have m2: "pg_mem w2 = pg_mem w1" using u(3) pr(2) by (simp add: same_cache_def)
    have c2: "coherent files w2" using h1 coherent_same [OF u(3)] coherent_same [OF pr(2)] by simp
    have "\<forall>i<PAGE_SIZE. pg_mem w1 ?g i = files key (unat index * PAGE_SIZE + i)"
      using h1 x unfolding coherent_def by (cases key) (auto simp: entry_key_def)
    then have "got_page held files key index (pe_phys x) w2"
      unfolding got_page_def using i2 c2 m2 fr(1) by (intro exI [of _ ?g]) simp
    moreover have "pc_insert key index (f * PAGE_SIZE) w = Done (pe_phys x, w2)"
      using ks Some u(1) by (simp add: pc_insert_def w1_def Let_def)
    ultimately show ?thesis by blast
  qed
qed

lemma pagecache_get_inv:
  assumes inv: "page_inv held w" and r: "room held" and ch: "coherent files w" and rd: "reads files key rd" and ix: "index < 2 ^ 52"
  shows "\<exists>x w'. pagecache_get readable key rd index w = Done (x, w') \<and>
    (case x of Inl e \<Rightarrow> page_inv held w' \<and> coherent files w' | Inr phys \<Rightarrow> got_page held files key index phys w')"
proof (cases readable)
  case False
  then show ?thesis using inv ch by (simp add: pagecache_get_def)
next
  case True
  obtain x w1 where l: "pc_lookup key index w = (x, w1)" by fastforce
  note li = pc_lookup_inv [OF inv r ch l]
  show ?thesis
  proof (cases x)
    case (Some phys)
    then show ?thesis using True l li by (simp add: pagecache_get_def)
  next
    case None
    then have w1: "w1 = w" using li by simp
    obtain y w2 where f: "pc_fill rd index w = Done (y, w2)" and fy: "case y of
       Inl e \<Rightarrow> page_inv held w2 \<and> coherent files w2
     | Inr phys \<Rightarrow> \<exists>f. phys = f * PAGE_SIZE \<and> held f = 0 \<and> cached f w2 = 0 \<and> page_inv (held(f := 1)) w2 \<and> coherent files w2 \<and>
         (\<forall>i<PAGE_SIZE. pg_mem w2 f i = files key (unat index * PAGE_SIZE + i))"
      using pc_fill_inv [OF inv ch rd ix] by blast
    show ?thesis
    proof (cases y)
      case (Inl e)
      then show ?thesis using True l None w1 f fy by (simp add: pagecache_get_def)
    next
      case (Inr phys)
      then obtain g where g: "phys = g * PAGE_SIZE" "held g = 0" "cached g w2 = 0" "page_inv (held(g := 1)) w2" "coherent files w2"
          "\<forall>i<PAGE_SIZE. pg_mem w2 g i = files key (unat index * PAGE_SIZE + i)" using fy by auto
      obtain p w3 where "pc_insert key index (g * PAGE_SIZE) w2 = Done (p, w3)" "got_page held files key index p w3"
        using pc_insert_inv [OF g(4,2,3) r g(5,6)] by blast
      then show ?thesis using True l None w1 f Inr g(1) by (simp add: pagecache_get_def)
    qed
  qed
qed

lemma pagecache_peek_inv:
  assumes inv: "page_inv held w" and r: "room held" and ch: "coherent files w" and p: "pagecache_peek key index w = (x, w')"
  shows "case x of Inl e \<Rightarrow> w' = w | Inr phys \<Rightarrow> got_page held files key index phys w'"
proof (cases "find_locked (fst key) (snd key) index w")
  case None
  then show ?thesis using p by (auto simp: pagecache_peek_def)
next
  case (Some e)
  have co: "cache_ok w" using inv by (simp add: page_inv_def)
  have e: "e \<in> set (g_lru w)" "entry_key e = (fst key, snd key, index)" using Some find_locked_iff [OF co] by blast+
  let ?f = "pe_phys e div PAGE_SIZE"
  note fr = frame_of [OF co e(1)]
  have pos: "0 < held ?f + cached ?f w" using fr(2) by simp
  note pr = page_ref_inv [OF inv r pos, unfolded fr(1)]
  have x: "x = Inr (pe_phys e)" "w' = page_ref (pe_phys e) w" using p Some by (simp_all add: pagecache_peek_def)
  have m: "pg_mem w' = pg_mem w" using pr(2) by (simp add: x same_cache_def)
  have "\<forall>i<PAGE_SIZE. pg_mem w' ?f i = files key (unat index * PAGE_SIZE + i)"
    using ch e unfolding m coherent_def by (cases key) (auto simp: entry_key_def)
  then show ?thesis
    unfolding x sum.case got_page_def using pr(1) ch coherent_same [OF pr(2)] fr(1) by (intro exI [of _ ?f]) (simp add: x)
qed

section \<open>Writes\<close>

text \<open>The files after the bytes of a write up to position \<open>lim\<close>.\<close>

definition patch :: "u64 \<times> u64 \<Rightarrow> nat \<Rightarrow> u8 list \<Rightarrow> nat \<Rightarrow> files \<Rightarrow> files" where
  "patch key off src lim files k p =
     (if k = key \<and> off \<le> p \<and> p < off + length src \<and> p < lim then src ! (p - off) else files k p)"

definition file_write :: "u64 \<times> u64 \<Rightarrow> nat \<Rightarrow> u8 list \<Rightarrow> files \<Rightarrow> files" where
  "file_write key off src files = patch key off src (off + length src) files"

lemma page_inv_mem [simp]: "page_inv held (w\<lparr>pg_mem := m\<rparr>) = page_inv held w"
  by (simp add: page_inv_def cache_ok_def counts_ok_def cached_def)

text \<open>Taking and dropping a reference around a change of the page changes the page alone.\<close>

lemma with_page:
  assumes inv: "page_inv held w" and r: "room held" and e: "e \<in> set (g_lru w)"
  shows "\<exists>b w'. page_unref (pe_phys e) ((page_ref (pe_phys e) w)\<lparr>pg_mem := m\<rparr>) = Done (b, w') \<and> page_inv held w' \<and>
    same_cache w' (w\<lparr>pg_mem := m\<rparr>)"
proof -
  have co: "cache_ok w" using inv by (simp add: page_inv_def)
  let ?f = "pe_phys e div PAGE_SIZE"
  note fr = frame_of [OF co e]
  have pos: "0 < held ?f + cached ?f w" using fr(2) by simp
  note pr = page_ref_inv [OF inv r pos, unfolded fr(1)]
  have i: "page_inv (held(?f := held ?f + 1)) ((page_ref (pe_phys e) w)\<lparr>pg_mem := m\<rparr>)" using pr(1) by simp
  have pf: "0 < (held(?f := held ?f + 1)) ?f" by simp
  obtain b w' where u: "page_unref (pe_phys e) ((page_ref (pe_phys e) w)\<lparr>pg_mem := m\<rparr>) = Done (b, w')"
      "page_inv ((held(?f := held ?f + 1))(?f := (held(?f := held ?f + 1)) ?f - 1)) w'"
      "same_cache w' ((page_ref (pe_phys e) w)\<lparr>pg_mem := m\<rparr>)"
    using page_unref_inv [OF i pf] unfolding fr(1) by blast
  have "(held(?f := held ?f + 1))(?f := (held(?f := held ?f + 1)) ?f - 1) = held" by auto
  moreover have "same_cache w' (w\<lparr>pg_mem := m\<rparr>)" using u(3) pr(2) by (simp add: same_cache_def)
  ultimately show ?thesis using u(1,2) by auto
qed

lemma patch_byte:
  fixes o' P i :: nat
  assumes "o' < P + PAGE_SIZE" "P < o' + length src" "i < PAGE_SIZE"
  shows "put_bytes (max o' P - P) (take (min (o' + length src) (P + PAGE_SIZE) - max o' P) (drop (max o' P - o') src)) page i =
    (if o' \<le> P + i \<and> P + i < o' + length src then src ! (P + i - o') else page i)"
proof -
  let ?bs = "take (min (o' + length src) (P + PAGE_SIZE) - max o' P) (drop (max o' P - o') src)"
  have l: "length ?bs = min (o' + length src) (P + PAGE_SIZE) - max o' P" using assms by auto
  have c: "max o' P - P \<le> i \<and> i < max o' P - P + length ?bs \<longleftrightarrow> o' \<le> P + i \<and> P + i < o' + length src"
    using assms l by auto
  show ?thesis
  proof (cases "o' \<le> P + i \<and> P + i < o' + length src")
    case True
    then have "max o' P - P \<le> i \<and> i < max o' P - P + length ?bs" using c by blast
    then have b: "max o' P - P \<le> i" "i - (max o' P - P) < length ?bs" by (simp_all only: less_diff_conv2 add.commute)
    have "?bs ! (i - (max o' P - P)) = src ! (max o' P - o' + (i - (max o' P - P)))" using b(2) assms by (simp add: l)
    also have "max o' P - o' + (i - (max o' P - P)) = P + i - o'" using b(1) True by auto
    finally show ?thesis using True c by (simp only: put_bytes_def if_True simp_thms)
  next
    case False
    then show ?thesis using c by (simp only: put_bytes_def if_False)
  qed
qed

definition fits :: "u64 \<Rightarrow> u8 list \<Rightarrow> bool" where
  "fits offset src \<longleftrightarrow> unat offset + length src < 2 ^ 63 \<and> src \<noteq> []"

lemma write_positions:
  assumes fit: "fits offset src" and pg: "unat pg * PAGE_SIZE < unat offset + length src" "unat offset < unat pg * PAGE_SIZE + PAGE_SIZE"
  defines "P \<equiv> unat pg * PAGE_SIZE" and "till \<equiv> offset + of_nat (length src)" and "pstart \<equiv> pg * of_nat PAGE_SIZE"
  defines "cs \<equiv> if offset > pstart then offset else pstart"
  defines "ce \<equiv> if till < pstart + of_nat PAGE_SIZE then till else pstart + of_nat PAGE_SIZE"
  shows "unat (cs - pstart) = max (unat offset) P - P" "unat (cs - offset) = max (unat offset) P - unat offset"
    "unat (ce - cs) = min (unat offset + length src) (P + PAGE_SIZE) - max (unat offset) P"
proof -
  have n: "unat offset + length src < 2 ^ 63" using fit by (simp add: fits_def)
  have t: "unat till = unat offset + length src" using n by (simp add: till_def unat_word_ariths unat_of_nat)
  have p: "unat pstart = P" using n pg(1) by (simp add: pstart_def P_def unat_word_ariths PS)
  have pe: "unat (pstart + of_nat PAGE_SIZE) = P + PAGE_SIZE" using n pg(1) p by (simp add: unat_word_ariths P_def PS)
  have cs: "unat cs = max (unat offset) P" by (auto simp: cs_def word_less_nat_alt p)
  have ce: "unat ce = min (unat offset + length src) (P + PAGE_SIZE)"
    unfolding ce_def word_less_nat_alt t pe using t pe by (simp add: min_def)
  have le: "pstart \<le> cs" "offset \<le> cs" by (auto simp: cs_def)
  have le2: "cs \<le> ce" using pg by (simp add: word_le_nat_alt cs ce P_def)
  show "unat (cs - pstart) = max (unat offset) P - P" "unat (cs - offset) = max (unat offset) P - unat offset"
    "unat (ce - cs) = min (unat offset + length src) (P + PAGE_SIZE) - max (unat offset) P"
    using unat_sub [OF le(1)] unat_sub [OF le(2)] unat_sub [OF le2] by (simp_all add: cs ce p)
qed

lemma wrote_page_inv:
  assumes inv: "page_inv held w" and r: "room held" and fit: "fits offset src"
    and pg: "unat pg * PAGE_SIZE < unat offset + length src" "unat offset < unat pg * PAGE_SIZE + PAGE_SIZE"
    and ch: "coherent (patch key (unat offset) src (unat pg * PAGE_SIZE) files) w"
  shows "\<exists>w'. wrote_page key offset (offset + of_nat (length src)) src pg w = Done w' \<and> page_inv held w' \<and>
    coherent (patch key (unat offset) src (unat pg * PAGE_SIZE + PAGE_SIZE) files) w'"
proof -
  let ?o = "unat offset" and ?P = "unat pg * PAGE_SIZE"
  have co: "cache_ok w" using inv by (simp add: page_inv_def)
  have other: "patch key ?o src (?P + PAGE_SIZE) files (pe_fs x, pe_id x) (unat (pe_index x) * PAGE_SIZE + i) =
      patch key ?o src ?P files (pe_fs x, pe_id x) (unat (pe_index x) * PAGE_SIZE + i)"
    if "i < PAGE_SIZE" "(pe_fs x, pe_id x) \<noteq> key \<or> pe_index x \<noteq> pg" for x i
  proof (cases "(pe_fs x, pe_id x) = key")
    case True
    then have "unat (pe_index x) \<noteq> unat pg" using that(2) by (simp add: word_unat_eq_iff)
    then have "unat (pe_index x) * PAGE_SIZE + i < ?P \<longleftrightarrow> unat (pe_index x) * PAGE_SIZE + i < ?P + PAGE_SIZE"
      using that(1) by (simp add: PS) linarith
    then show ?thesis by (simp add: patch_def)
  qed (simp add: patch_def)
  show ?thesis
  proof (cases "find_locked (fst key) (snd key) pg w")
    case None
    then have "(pe_fs x, pe_id x) \<noteq> key \<or> pe_index x \<noteq> pg" if "x \<in> set (g_lru w)" for x
      using that unfolding find_locked_None [OF co] by (auto simp: entry_key_def)
    then have "coherent (patch key ?o src (?P + PAGE_SIZE) files) w"
      unfolding coherent_def using ch [unfolded coherent_def] other by metis
    then show ?thesis using None inv by (simp add: wrote_page_def)
  next
    case (Some e)
    have e: "e \<in> set (g_lru w)" "entry_key e = (fst key, snd key, pg)" using Some find_locked_iff [OF co] by blast+
    let ?f = "pe_phys e div PAGE_SIZE"
    let ?pg = "put_bytes (max ?o ?P - ?P) (take (min (?o + length src) (?P + PAGE_SIZE) - max ?o ?P) (drop (max ?o ?P - ?o) src)) (pg_mem w ?f)"
    obtain b w' where u: "page_unref (pe_phys e) ((page_ref (pe_phys e) w)\<lparr>pg_mem := (pg_mem w)(?f := ?pg)\<rparr>) = Done (b, w')"
        "page_inv held w'" "same_cache w' (w\<lparr>pg_mem := (pg_mem w)(?f := ?pg)\<rparr>)"
      using with_page [OF inv r e(1)] by blast
    have mem: "pg_mem (page_ref (pe_phys e) w) = pg_mem w" by (simp add: page_ref_def split: option.split)
    have w': "wrote_page key offset (offset + of_nat (length src)) src pg w = Done w'"
      using Some entry_nonzero [OF inv e(1)] u(1)
      by (simp add: wrote_page_def Let_def write_positions [OF fit pg] mem)
    have "coherent (patch key ?o src (?P + PAGE_SIZE) files) (w\<lparr>pg_mem := (pg_mem w)(?f := ?pg)\<rparr>)"
      unfolding coherent_def
    proof (intro ballI allI impI)
      fix x i assume x: "x \<in> set (g_lru (w\<lparr>pg_mem := (pg_mem w)(?f := ?pg)\<rparr>))" and i: "i < PAGE_SIZE"
      let ?pos = "unat (pe_index x) * PAGE_SIZE + i"
      have old: "pg_mem w (pe_phys x div PAGE_SIZE) i = patch key ?o src ?P files (pe_fs x, pe_id x) ?pos"
        using ch x i by (simp add: coherent_def)
      show "pg_mem (w\<lparr>pg_mem := (pg_mem w)(?f := ?pg)\<rparr>) (pe_phys x div PAGE_SIZE) i =
          patch key ?o src (?P + PAGE_SIZE) files (pe_fs x, pe_id x) ?pos"
      proof (cases "x = e")
        case True
        have k: "(pe_fs x, pe_id x) = key" "pe_index x = pg" using e(2) True by (cases key; simp add: entry_key_def)+
        show ?thesis using patch_byte [OF pg(2,1) i, of "pg_mem w ?f"] old True i k
          by (auto simp: patch_def)
      next
        case False
        have xl: "x \<in> set (g_lru w)" using x by simp
        have ne: "pe_phys x div PAGE_SIZE \<noteq> ?f"
          using phys_inj [OF co xl e(1)] frame_of(1) [OF co e(1)] frame_of(1) [OF co xl] False by auto
        have "(pe_fs x, pe_id x) \<noteq> key \<or> pe_index x \<noteq> pg" using key_inj [OF co _ e(1)] x False e(2) by (cases key) (auto simp: entry_key_def)
        from other [OF i this] old ne show ?thesis by simp
      qed
    qed
    then have "coherent (patch key ?o src (?P + PAGE_SIZE) files) w'" using coherent_same [OF u(3)] by simp
    with w' u(2) show ?thesis by blast
  qed
qed

lemma wrote_loop_stop:
  assumes "fits offset src" "unat offset + length src \<le> unat pg * PAGE_SIZE" "unat pg * PAGE_SIZE < 2 ^ 64"
    "coherent (patch key (unat offset) src (unat pg * PAGE_SIZE) files) w"
  shows "wrote_loop (Suc n) key offset (offset + of_nat (length src)) src pg w = Done w"
    "coherent (file_write key (unat offset) src files) w"
proof -
  have t: "unat (offset + of_nat (length src)) = unat offset + length src"
    using assms(1) by (simp add: fits_def unat_word_ariths unat_of_nat)
  have "unat (pg * of_nat PAGE_SIZE) = unat pg * PAGE_SIZE" using assms(3) by (simp add: unat_word_ariths PS)
  then have "\<not> pg * of_nat PAGE_SIZE < offset + of_nat (length src)" using assms(2) by (simp add: word_less_nat_alt t)
  then show "wrote_loop (Suc n) key offset (offset + of_nat (length src)) src pg w = Done w" by simp
  have "patch key (unat offset) src (unat pg * PAGE_SIZE) files = file_write key (unat offset) src files"
    using assms(2) by (auto simp: fun_eq_iff patch_def file_write_def)
  then show "coherent (file_write key (unat offset) src files) w" using assms(4) by simp
qed

lemma wrote_loop_inv:
  assumes "page_inv held w" "room held" "fits offset src" "unat offset < unat pg * PAGE_SIZE + PAGE_SIZE"
    "unat pg * PAGE_SIZE \<le> unat offset + length src + PAGE_SIZE" "unat offset + length src \<le> (unat pg + n) * PAGE_SIZE"
    "coherent (patch key (unat offset) src (unat pg * PAGE_SIZE) files) w"
  shows "\<exists>w'. wrote_loop (Suc n) key offset (offset + of_nat (length src)) src pg w = Done w' \<and> page_inv held w' \<and>
    coherent (file_write key (unat offset) src files) w'"
  using assms
proof (induction n arbitrary: pg w)
  case (0 pg w)
  have b: "unat pg * PAGE_SIZE < 2 ^ 64" using 0(3,5) by (simp add: fits_def PS)
  show ?case using wrote_loop_stop [OF 0(3) _ b 0(7)] 0(1,6) by simp
next
  case (Suc n pg w)
  have n: "unat offset + length src < 2 ^ 63" using Suc.prems(3) by (simp add: fits_def)
  have b: "unat pg * PAGE_SIZE < 2 ^ 64" using n Suc.prems(5) by (simp add: PS)
  show ?case
  proof (cases "unat pg * PAGE_SIZE < unat offset + length src")
    case False
    then show ?thesis using wrote_loop_stop [OF Suc.prems(3) _ b Suc.prems(7)] Suc.prems(1) by (metis not_less)
  next
    case True
    obtain w1 where w1: "wrote_page key offset (offset + of_nat (length src)) src pg w = Done w1" "page_inv held w1"
        "coherent (patch key (unat offset) src (unat pg * PAGE_SIZE + PAGE_SIZE) files) w1"
      using wrote_page_inv [OF Suc.prems(1-3) True Suc.prems(4,7)] by blast
    have s: "unat (pg + 1) = unat pg + 1" using True n by (simp add: unat_word_ariths PS)
    have m: "unat (pg + 1) * PAGE_SIZE = unat pg * PAGE_SIZE + PAGE_SIZE" by (simp add: s)
    have "unat (pg * of_nat PAGE_SIZE) = unat pg * PAGE_SIZE" using b by (simp add: unat_word_ariths PS)
    moreover have "unat (offset + of_nat (length src)) = unat offset + length src"
      using n by (simp add: unat_word_ariths unat_of_nat)
    ultimately have c: "pg * of_nat PAGE_SIZE < offset + of_nat (length src)" using True by (simp add: word_less_nat_alt)
    have "\<exists>w'. wrote_loop (Suc n) key offset (offset + of_nat (length src)) src (pg + 1) w1 = Done w' \<and> page_inv held w' \<and>
        coherent (file_write key (unat offset) src files) w'"
    proof (rule Suc.IH [OF w1(2) Suc.prems(2,3)])
      show "unat offset < unat (pg + 1) * PAGE_SIZE + PAGE_SIZE" using Suc.prems(4) by (simp only: m)
      show "unat (pg + 1) * PAGE_SIZE \<le> unat offset + length src + PAGE_SIZE" using True by (simp only: m)
      show "unat offset + length src \<le> (unat (pg + 1) + n) * PAGE_SIZE" using Suc.prems(6) by (simp add: s)
      show "coherent (patch key (unat offset) src (unat (pg + 1) * PAGE_SIZE) files) w1" using w1(3) by (simp only: m)
    qed
    moreover have "wrote_loop (Suc (Suc n)) key offset (offset + of_nat (length src)) src pg w =
        wrote_loop (Suc n) key offset (offset + of_nat (length src)) src (pg + 1) w1"
      using c w1(1) by (subst wrote_loop.simps(2)) (simp del: wrote_loop.simps)
    ultimately show ?thesis by simp
  qed
qed

lemma pagecache_wrote_inv:
  assumes inv: "page_inv held w" and r: "room held" and ch: "coherent files w" and b: "unat offset + length src < 2 ^ 63"
  shows "\<exists>w'. pagecache_wrote key offset src w = Done w' \<and> page_inv held w' \<and> coherent (file_write key (unat offset) src files) w'"
proof (cases "src = []")
  case True
  then have "file_write key (unat offset) src files = files" by (auto simp: fun_eq_iff file_write_def patch_def)
  with True inv ch show ?thesis by (simp add: pagecache_wrote_def)
next
  case False
  let ?pg = "offset div of_nat PAGE_SIZE"
  have u: "unat ?pg = unat offset div PAGE_SIZE" by (simp add: unat_div PS)
  have fit: "fits offset src" using b False by (simp add: fits_def)
  have p: "unat ?pg * PAGE_SIZE \<le> unat offset" by (simp add: u)
  then have "patch key (unat offset) src (unat ?pg * PAGE_SIZE) files = files" by (auto simp: fun_eq_iff patch_def)
  then have c: "coherent (patch key (unat offset) src (unat ?pg * PAGE_SIZE) files) w" using ch by simp
  have dm: "m < m div PAGE_SIZE * PAGE_SIZE + PAGE_SIZE" for m
    using div_mult_mod_eq [of m PAGE_SIZE] mod_less_divisor [OF PAGE_SIZE_pos, of m] by linarith
  have lo: "unat offset < unat ?pg * PAGE_SIZE + PAGE_SIZE" unfolding u by (rule dm)
  have "(unat ?pg + (length src div PAGE_SIZE + 2)) * PAGE_SIZE =
      unat offset div PAGE_SIZE * PAGE_SIZE + length src div PAGE_SIZE * PAGE_SIZE + 2 * PAGE_SIZE"
    unfolding u by (simp add: distrib_right)
  then have up: "unat offset + length src \<le> (unat ?pg + (length src div PAGE_SIZE + 2)) * PAGE_SIZE"
    using dm [of "unat offset"] dm [of "length src"] by linarith
  have "unat ?pg * PAGE_SIZE \<le> unat offset + length src + PAGE_SIZE" using p by simp
  from wrote_loop_inv [OF inv r fit lo this up c] show ?thesis using False by (simp add: pagecache_wrote_def numeral_3_eq_3 del: wrote_loop.simps)
qed

end
