(* ===== verification/Pagecache_Properties.thy ===== *)
theory Pagecache_Properties
  imports Pagecache_Correct Buddy_Properties
begin

text \<open>
  Dropping and truncating cached pages, and the promises of the page cache: along every sequence of
  calls the counts of the frames are exact, no frame is freed while it is referenced or twice, and
  the cached pages are the pages of the files.  A page that is read while its file is written breaks
  the last of these.
\<close>

section \<open>Dropping entries\<close>

text \<open>The references that a list of entries holds.\<close>

definition refs_of :: "pc_entry list \<Rightarrow> nat \<Rightarrow> nat" where
  "refs_of es f = length (filter (\<lambda>e. pe_phys e div PAGE_SIZE = f) es)"

lemma fold_remove_inv:
  assumes "page_inv held w" "distinct es" "set es \<subseteq> set (g_lru w)"
  shows "page_inv (\<lambda>f. held f + refs_of es f) (fold hash_remove es w) \<and> pg_mem (fold hash_remove es w) = pg_mem w \<and>
    set (g_lru (fold hash_remove es w)) = set (g_lru w) - set es \<and> pg_kmem (fold hash_remove es w) = pg_kmem w \<and>
    length (g_lru (fold hash_remove es w)) + length es = length (g_lru w)"
  using assms
proof (induction es arbitrary: held w)
  case Nil
  then show ?case by (simp add: refs_of_def)
next
  case (Cons e es)
  let ?f = "pe_phys e div PAGE_SIZE"
  have co: "cache_ok w" using Cons.prems(1) by (simp add: page_inv_def)
  have e: "e \<in> set (g_lru w)" using Cons.prems(3) by simp
  have i: "page_inv (held(?f := held ?f + 1)) (hash_remove e w)" by (rule hash_remove_inv [OF Cons.prems(1) e])
  have set: "set (g_lru (hash_remove e w)) = set (g_lru w) - {e}" by (simp add: set_remove1_eq [OF cache_okD(3) [OF co]])
  have sub: "set es \<subseteq> set (g_lru (hash_remove e w))" using Cons.prems(2,3) set by auto
  have "(\<lambda>f. (held(?f := held ?f + 1)) f + refs_of es f) = (\<lambda>f. held f + refs_of (e # es) f)"
    by (auto simp: refs_of_def)
  moreover have "length (g_lru (hash_remove e w)) + 1 = length (g_lru w)"
    using e length_pos_if_in_set [OF e] by (simp add: length_remove1)
  ultimately show ?case using Cons.IH [OF i _ sub] Cons.prems(2) set by auto
qed

lemma unref_all_inv:
  assumes "page_inv (\<lambda>f. held f + refs_of es f) w" "\<forall>e\<in>set es. PAGE_SIZE dvd pe_phys e"
  shows "\<exists>w'. unref_all (map pe_phys es) w = Done w' \<and> page_inv held w' \<and> same_cache w' w"
  using assms
proof (induction es arbitrary: w)
  case Nil
  then show ?case by (simp add: refs_of_def same_cache_def)
next
  case (Cons e es)
  let ?f = "pe_phys e div PAGE_SIZE" and ?h = "\<lambda>f. held f + refs_of (e # es) f"
  have f: "?f * PAGE_SIZE = pe_phys e" using Cons.prems(2) by simp
  have p: "0 < ?h ?f" by (simp add: refs_of_def)
  obtain b w1 where u: "page_unref (pe_phys e) w = Done (b, w1)" "page_inv (?h(?f := ?h ?f - 1)) w1" "same_cache w1 w"
    using page_unref_inv [OF Cons.prems(1) p] unfolding f by blast
  have "?h(?f := ?h ?f - 1) = (\<lambda>f. held f + refs_of es f)" by (auto simp: refs_of_def)
  with u(2) Cons.IH [of w1] Cons.prems(2) obtain w' where "unref_all (map pe_phys es) w1 = Done w'" "page_inv held w'" "same_cache w' w1"
    by auto
  with u(1,3) show ?case by (auto simp: same_cache_def)
qed

section \<open>Matching entries\<close>

definition matches :: "u64 \<Rightarrow> u64 \<Rightarrow> u64 \<Rightarrow> pc_entry \<Rightarrow> bool" where
  "matches fs ino from e \<longleftrightarrow> pe_fs e = fs \<and> pe_id e = ino \<and> pe_index e \<ge> from"

lemma bucket_less: "entry_bucket e < PC_BUCKETS"
proof -
  have "unat (h mod of_nat PC_BUCKETS :: u64) < PC_BUCKETS" for h
    by (simp add: PC_BUCKETS_def unat_mod)
  then show ?thesis by (simp add: entry_bucket_def bucket_def Let_def)
qed

lemma distinct_buckets:
  assumes "cache_ok w"
  shows "distinct (concat (map (g_hash w) [0..<n]))"
proof (induction n)
  case (Suc n)
  have "set (concat (map (g_hash w) [0..<n])) \<inter> set (g_hash w n) = {}"
    using cache_okD(5) [OF assms] by auto
  with Suc cache_okD(4) [OF assms, of n] show ?case by simp
qed simp

lemma matching_spec:
  assumes "cache_ok w"
  shows "distinct (matching fs ino from w)" "set (matching fs ino from w) = {e \<in> set (g_lru w). matches fs ino from e}"
proof -
  show "distinct (matching fs ino from w)" using distinct_buckets [OF assms] by (simp add: matching_def)
  have "(\<Union>b\<in>{0..<PC_BUCKETS}. set (g_hash w b)) = set (g_lru w)"
    using cache_okD(5) [OF assms] bucket_less by auto
  then show "set (matching fs ino from w) = {e \<in> set (g_lru w). matches fs ino from e}"
    by (auto simp: matching_def matches_def)
qed

lemma drop_rounds_inv:
  assumes "page_inv held w" "length (g_lru w) < n"
  shows "\<exists>w'. drop_rounds n fs ino from w = Done w' \<and> page_inv held w' \<and> pg_mem w' = pg_mem w \<and>
    set (g_lru w') = {e \<in> set (g_lru w). \<not> matches fs ino from e}"
  using assms
proof (induction n arbitrary: w)
  case (Suc n)
  have co: "cache_ok w" using Suc.prems(1) by (simp add: page_inv_def)
  let ?m = "matching fs ino from w"
  define es where "es = take 64 ?m"
  note ms = matching_spec [OF co, of fs ino "from"]
  have d: "distinct es" and sub: "set es \<subseteq> set (g_lru w)" using ms set_take_subset [of 64 ?m] by (auto simp: es_def)
  have f: "page_inv (\<lambda>f. held f + refs_of es f) (fold hash_remove es w)" "pg_mem (fold hash_remove es w) = pg_mem w"
      "set (g_lru (fold hash_remove es w)) = set (g_lru w) - set es"
      "length (g_lru (fold hash_remove es w)) + length es = length (g_lru w)"
    using fold_remove_inv [OF Suc.prems(1) d sub] by blast+
  have "\<forall>e\<in>set es. PAGE_SIZE dvd pe_phys e" using sub cache_okD(7) [OF co] by blast
  from unref_all_inv [OF f(1) this] obtain w1 where u: "unref_all (map pe_phys es) (fold hash_remove es w) = Done w1"
      "page_inv held w1" "same_cache w1 (fold hash_remove es w)" by blast
  have w1: "set (g_lru w1) = set (g_lru w) - set es" "length (g_lru w1) + length es = length (g_lru w)" "pg_mem w1 = pg_mem w"
    using u(3) f(2-4) by (simp_all add: same_cache_def)
  show ?case
  proof (cases "length es < 64")
    case True
    then have "es = ?m" by (simp add: es_def)
    then have "set (g_lru w1) = {e \<in> set (g_lru w). \<not> matches fs ino from e}" using w1(1) ms(2) by auto
    moreover have "drop_rounds (Suc n) fs ino from w = Done w1" using True u(1) by (simp add: Let_def es_def [symmetric])
    ultimately show ?thesis using u(2) w1(3) by auto
  next
    case False
    have "length (g_lru w1) < n" using w1(2) False Suc.prems(2) by linarith
    from Suc.IH [OF u(2) this] obtain w' where w': "drop_rounds n fs ino from w1 = Done w'" "page_inv held w'" "pg_mem w' = pg_mem w1"
        "set (g_lru w') = {e \<in> set (g_lru w1). \<not> matches fs ino from e}" by blast
    have "matches fs ino from e" if "e \<in> set es" for e using that ms(2) set_take_subset [of 64 ?m] by (auto simp: es_def)
    then have "set (g_lru w') = {e \<in> set (g_lru w). \<not> matches fs ino from e}" using w'(4) w1(1) by auto
    moreover have "drop_rounds (Suc n) fs ino from w = Done w'" using False u(1) w'(1) by (simp add: Let_def es_def [symmetric])
    ultimately show ?thesis using w'(2,3) w1(3) by auto
  qed
qed simp

lemma drop_matching_inv:
  assumes "page_inv held w"
  shows "\<exists>w'. drop_matching fs ino from w = Done w' \<and> page_inv held w' \<and> pg_mem w' = pg_mem w \<and>
    set (g_lru w') = {e \<in> set (g_lru w). \<not> matches fs ino from e}"
  unfolding drop_matching_def by (rule drop_rounds_inv [OF assms]) simp

lemma coherent_drop: "coherent files w \<Longrightarrow> pg_mem w' = pg_mem w \<Longrightarrow> set (g_lru w') \<subseteq> set (g_lru w) \<Longrightarrow> coherent files w'"
  by (auto simp: coherent_def)

text \<open>Truncation cuts a file; what lies behind the new end reads as zero.\<close>

definition file_truncate :: "u64 \<times> u64 \<Rightarrow> nat \<Rightarrow> files \<Rightarrow> files" where
  "file_truncate key sz files k p = (if k = key \<and> sz \<le> p then 0 else files k p)"

lemma round_up_pages:
  assumes "unat sz < 2 ^ 63"
  shows "unat ((sz + of_nat PAGE_SIZE - 1) div of_nat PAGE_SIZE :: u64) = (unat sz + (PAGE_SIZE - 1)) div PAGE_SIZE"
proof -
  have "unat (sz + of_nat PAGE_SIZE - 1) = unat sz + 4095"
  proof -
    have e: "sz + of_nat PAGE_SIZE - 1 = sz + (4095 :: u64)" by (simp add: PS)
    show ?thesis unfolding e using assms by (subst unat_add_lem [THEN iffD1]) simp_all
  qed
  then show ?thesis by (simp add: unat_div PS)
qed

lemma kept_pages:
  fixes sz i p :: nat
  assumes "i < (sz + (PAGE_SIZE - 1)) div PAGE_SIZE"
  shows "i * PAGE_SIZE < sz"
proof -
  have "i + 1 \<le> (sz + (PAGE_SIZE - 1)) div PAGE_SIZE" using assms by simp
  then have "(i + 1) * PAGE_SIZE \<le> (sz + (PAGE_SIZE - 1)) div PAGE_SIZE * PAGE_SIZE" by (rule mult_le_mono1)
  also have "\<dots> \<le> sz + (PAGE_SIZE - 1)" by simp
  finally have "i * PAGE_SIZE + PAGE_SIZE \<le> sz + (PAGE_SIZE - 1)" by (simp add: add_mult_distrib)
  then show ?thesis using PAGE_SIZE_pos by arith
qed

lemma pagecache_truncated_inv:
  assumes inv: "page_inv held w" and r: "room held" and ch: "coherent files w" and szb: "unat sz < 2 ^ 63"
  shows "\<exists>w'. pagecache_truncated key sz w = Done w' \<and> page_inv held w' \<and> coherent (file_truncate key (unat sz) files) w'"
proof -
  let ?keep = "(sz + of_nat PAGE_SIZE - 1) div of_nat PAGE_SIZE :: u64" and ?s = "unat sz"
  obtain w1 where d: "drop_matching (fst key) (snd key) ?keep w = Done w1" "page_inv held w1" "pg_mem w1 = pg_mem w"
      "set (g_lru w1) = {e \<in> set (g_lru w). \<not> matches (fst key) (snd key) ?keep e}"
    using drop_matching_inv [OF inv] by blast
  have co: "cache_ok w1" using d(2) by (simp add: page_inv_def)
  have c1: "coherent files w1" by (rule coherent_drop [OF ch d(3)]) (auto simp: d(4))
  have kept: "unat (pe_index e) * PAGE_SIZE < ?s" if "e \<in> set (g_lru w1)" "(pe_fs e, pe_id e) = key" for e
  proof (rule kept_pages)
    have "pe_index e < ?keep" using that by (auto simp: d(4) matches_def not_le)
    then show "unat (pe_index e) < (?s + (PAGE_SIZE - 1)) div PAGE_SIZE"
      unfolding word_less_nat_alt round_up_pages [OF szb] .
  qed
  have dm: "?s = ?s div PAGE_SIZE * PAGE_SIZE + ?s mod PAGE_SIZE" by simp
  have ud: "unat (sz div of_nat PAGE_SIZE) = ?s div PAGE_SIZE" "unat (sz mod of_nat PAGE_SIZE) = ?s mod PAGE_SIZE"
    by (simp_all add: unat_div unat_mod PS)
  text \<open>A kept page of the file lies before the end, or it is the page the end lies in.\<close>
  have split: "unat (pe_index e) * PAGE_SIZE + PAGE_SIZE \<le> ?s \<or> pe_index e = sz div of_nat PAGE_SIZE \<and> ?s mod PAGE_SIZE \<noteq> 0"
    if "e \<in> set (g_lru w1)" "(pe_fs e, pe_id e) = key" for e
  proof -
    have k: "unat (pe_index e) * PAGE_SIZE < ?s" by (rule kept [OF that])
    then have "unat (pe_index e) \<le> ?s div PAGE_SIZE" by (simp add: less_eq_div_iff_mult_less_eq)
    then consider "unat (pe_index e) + 1 \<le> ?s div PAGE_SIZE" | "unat (pe_index e) = ?s div PAGE_SIZE" by linarith
    then show ?thesis
    proof cases
      case 1
      then have "(unat (pe_index e) + 1) * PAGE_SIZE \<le> ?s" by (simp add: less_eq_div_iff_mult_less_eq)
      then show ?thesis by (simp add: distrib_right)
    next
      case 2
      then have "?s mod PAGE_SIZE \<noteq> 0" using k dm by (metis add.right_neutral less_irrefl)
      moreover have "pe_index e = sz div of_nat PAGE_SIZE" using 2 ud(1) by (simp add: word_unat_eq_iff)
      ultimately show ?thesis by blast
    qed
  qed
  have whole: "file_truncate key ?s files (pe_fs e, pe_id e) (unat (pe_index e) * PAGE_SIZE + i) =
      files (pe_fs e, pe_id e) (unat (pe_index e) * PAGE_SIZE + i)"
    if "i < PAGE_SIZE" "(pe_fs e, pe_id e) = key \<Longrightarrow> unat (pe_index e) * PAGE_SIZE + PAGE_SIZE \<le> ?s" for e i
    using that by (auto simp: file_truncate_def)
  show ?thesis
  proof (cases "sz mod of_nat PAGE_SIZE = 0")
    case True
    then have "?s mod PAGE_SIZE = 0" using ud(2) by simp
    then have "coherent (file_truncate key ?s files) w1"
      unfolding coherent_def using c1 [unfolded coherent_def] split whole by metis
    then show ?thesis using True d(1,2) by (simp add: pagecache_truncated_def)
  next
    case nz: False
    show ?thesis
    proof (cases "find_locked (fst key) (snd key) (sz div of_nat PAGE_SIZE) w1")
      case None
      then have "\<not> ((pe_fs e, pe_id e) = key \<and> pe_index e = sz div of_nat PAGE_SIZE)" if "e \<in> set (g_lru w1)" for e
        using that unfolding find_locked_None [OF co] by (auto simp: entry_key_def)
      then have "coherent (file_truncate key ?s files) w1"
        unfolding coherent_def using c1 [unfolded coherent_def] split whole by metis
      then show ?thesis using nz None d(1,2) by (simp add: pagecache_truncated_def)
    next
      case (Some e)
      have e: "e \<in> set (g_lru w1)" "entry_key e = (fst key, snd key, sz div of_nat PAGE_SIZE)"
        using Some find_locked_iff [OF co] by blast+
      let ?f = "pe_phys e div PAGE_SIZE" and ?in = "unat (sz mod of_nat PAGE_SIZE)"
      let ?pg = "put_bytes ?in (replicate (PAGE_SIZE - ?in) 0) (pg_mem w1 ?f)"
      let ?w = "w1\<lparr>pg_mem := (pg_mem w1)(?f := ?pg)\<rparr>"
      obtain b w' where u: "page_unref (pe_phys e) ((page_ref (pe_phys e) w1)\<lparr>pg_mem := (pg_mem w1)(?f := ?pg)\<rparr>) = Done (b, w')"
          "page_inv held w'" "same_cache w' ?w"
        using with_page [OF d(2) r e(1)] by blast
      have mem: "pg_mem (page_ref (pe_phys e) w1) = pg_mem w1" by (simp add: page_ref_def split: option.split)
      have w': "pagecache_truncated key sz w = Done w'"
        using d(1) nz Some entry_nonzero [OF d(2) e(1)] u(1) by (simp add: pagecache_truncated_def Let_def mem)
      have k: "(pe_fs e, pe_id e) = key" "pe_index e = sz div of_nat PAGE_SIZE" using e(2) by (cases key; simp add: entry_key_def)+
      have "coherent (file_truncate key ?s files) ?w"
        unfolding coherent_def
      proof (intro ballI allI impI)
        fix x i assume x': "x \<in> set (g_lru ?w)" and i: "i < PAGE_SIZE"
        then have x: "x \<in> set (g_lru w1)" by simp
        have old: "pg_mem w1 (pe_phys x div PAGE_SIZE) i = files (pe_fs x, pe_id x) (unat (pe_index x) * PAGE_SIZE + i)"
          using c1 x i by (simp add: coherent_def)
        show "pg_mem ?w (pe_phys x div PAGE_SIZE) i = file_truncate key ?s files (pe_fs x, pe_id x) (unat (pe_index x) * PAGE_SIZE + i)"
        proof (cases "x = e")
          case True
          have "?s \<le> ?s div PAGE_SIZE * PAGE_SIZE + i \<longleftrightarrow> ?in \<le> i" unfolding ud(2) using dm by linarith
          then show ?thesis using True old k i ud by (simp add: put_bytes_def file_truncate_def)
        next
          case False
          have "pe_phys x div PAGE_SIZE \<noteq> ?f"
            using phys_inj [OF co x e(1)] frame_of(1) [OF co e(1)] frame_of(1) [OF co x] False by auto
          moreover have "\<not> ((pe_fs x, pe_id x) = key \<and> pe_index x = sz div of_nat PAGE_SIZE)"
            using key_inj [OF co x e(1)] False e(2) k by (auto simp: entry_key_def)
          ultimately show ?thesis using old whole [OF i, of x] split [OF x] by auto
        qed
      qed
      then have "coherent (file_truncate key ?s files) w'" using coherent_same [OF u(3)] by simp
      with w' u(2) show ?thesis by blast
    qed
  qed
qed

section \<open>Runs\<close>

definition pc_start :: "page_world \<Rightarrow> bool" where
  "pc_start w \<longleftrightarrow> pmm_wf (pg_pmm w) \<and> mem_end (pg_pmm w) \<le> g_frames w * PAGE_SIZE \<and> (\<forall>f. g_refs w f = 0) \<and>
     (\<forall>b. g_hash w b = []) \<and> g_lru w = [] \<and> g_count w = 0"

text \<open>
  The files, the references their users hold, and the kernel.  Users get, duplicate and drop
  references; the file systems write and truncate files and report it to the cache.
\<close>

inductive pc_run :: "files \<times> (nat \<Rightarrow> nat) \<times> page_world \<Rightarrow> bool" where
  start: "pc_start w \<Longrightarrow> pc_run (files, \<lambda>_. 0, w)"
| got: "pc_run (files, held, w) \<Longrightarrow> room held \<Longrightarrow> reads files key rd \<Longrightarrow> index < 2 ^ 52 \<Longrightarrow>
    pagecache_get readable key rd index w = Done (Inr p, w') \<Longrightarrow> f = p div PAGE_SIZE \<Longrightarrow>
    pc_run (files, held(f := held f + 1), w')"
| failed: "pc_run (files, held, w) \<Longrightarrow> room held \<Longrightarrow> reads files key rd \<Longrightarrow> index < 2 ^ 52 \<Longrightarrow>
    pagecache_get readable key rd index w = Done (Inl e, w') \<Longrightarrow> pc_run (files, held, w')"
| peeked: "pc_run (files, held, w) \<Longrightarrow> room held \<Longrightarrow> pagecache_peek key index w = (Inr p, w') \<Longrightarrow> f = p div PAGE_SIZE \<Longrightarrow>
    pc_run (files, held(f := held f + 1), w')"
| reffed: "pc_run (files, held, w) \<Longrightarrow> room held \<Longrightarrow> 0 < held f \<Longrightarrow>
    pc_run (files, held(f := held f + 1), page_ref (f * PAGE_SIZE) w)"
| dropped: "pc_run (files, held, w) \<Longrightarrow> 0 < held f \<Longrightarrow> page_unref (f * PAGE_SIZE) w = Done (b, w') \<Longrightarrow>
    pc_run (files, held(f := held f - 1), w')"
| allocated: "pc_run (files, held, w) \<Longrightarrow> page_alloc_user w = Done (p, w') \<Longrightarrow>
    pc_run (files, if p = 0 then held else held(p div PAGE_SIZE := 1), w')"
| stored: "pc_run (files, held, w) \<Longrightarrow> 0 < held f \<Longrightarrow> cached f w = 0 \<Longrightarrow>
    pc_run (files, held, w\<lparr>pg_mem := (pg_mem w)(f := page)\<rparr>)"
| wrote: "pc_run (files, held, w) \<Longrightarrow> room held \<Longrightarrow> unat offset + length src < 2 ^ 63 \<Longrightarrow>
    pagecache_wrote key offset src w = Done w' \<Longrightarrow> pc_run (file_write key (unat offset) src files, held, w')"
| truncated: "pc_run (files, held, w) \<Longrightarrow> room held \<Longrightarrow> unat new_size < 2 ^ 63 \<Longrightarrow>
    pagecache_truncated key new_size w = Done w' \<Longrightarrow> pc_run (file_truncate key (unat new_size) files, held, w')"
| forgotten: "pc_run (files, held, w) \<Longrightarrow> pagecache_invalidate key w = Done w' \<Longrightarrow> pc_run (files, held, w')"
| released: "pc_run (files, held, w) \<Longrightarrow> pagecache_vnode_released own key w = Done w' \<Longrightarrow> pc_run (files, held, w')"
| invalidated: "pc_run (files, held, w) \<Longrightarrow> pagecache_invalidate_key fs ino w = Done w' \<Longrightarrow> pc_run (files, held, w')"
| shrank: "pc_run (files, held, w) \<Longrightarrow> pagecache_shrink n w = Done (d, w') \<Longrightarrow> pc_run (files, held, w')"

lemma start_inv: "pc_start w \<Longrightarrow> page_inv (\<lambda>_. 0) w \<and> coherent files w"
  by (simp add: pc_start_def page_inv_def cache_ok_def counts_ok_def cached_def coherent_def)

lemma drop_keeps:
  assumes "page_inv held w" "coherent files w" "drop_matching fs ino from w = Done w'"
  shows "page_inv held w' \<and> coherent files w'"
proof -
  obtain w1 where "drop_matching fs ino from w = Done w1" "page_inv held w1" "pg_mem w1 = pg_mem w"
      "set (g_lru w1) = {e \<in> set (g_lru w). \<not> matches fs ino from e}"
    using drop_matching_inv [OF assms(1)] by blast
  then show ?thesis using assms(3) coherent_drop [OF assms(2), of w1] by auto
qed

lemma got_page_run:
  assumes "got_page held files key index p w'" "f = p div PAGE_SIZE"
  shows "page_inv (held(f := held f + 1)) w' \<and> coherent files w'"
  using assms by (auto simp: got_page_def)

lemma store_coherent:
  assumes "page_inv held w" "coherent files w" "cached f w = 0"
  shows "coherent files (w\<lparr>pg_mem := (pg_mem w)(f := page)\<rparr>)"
proof -
  have "pe_phys e div PAGE_SIZE \<noteq> f" if "e \<in> set (g_lru w)" for e
    using frame_of(2) [of w e] assms(1,3) that by (auto simp: page_inv_def)
  with assms(2) show ?thesis by (simp add: coherent_def)
qed

lemma new_page_run:
  assumes "new_page held w p w'" "coherent files w"
  shows "page_inv (if p = 0 then held else held(p div PAGE_SIZE := 1)) w' \<and> coherent files w'"
  using assms(1) unfolding new_page_def
proof (elim disjE exE conjE)
  fix f assume f: "p = f * PAGE_SIZE" "0 < f" "cached f w' = 0" "page_inv (held(f := 1)) w'"
    "shrunk (w'\<lparr>pg_mem := pg_mem w\<rparr>) w" "pg_mem w' = (pg_mem w)(f := (\<lambda>_. 0))"
  have "coherent files (w'\<lparr>pg_mem := pg_mem w\<rparr>)" by (rule coherent_shrunk [OF assms(2) f(5)])
  moreover have "page_inv (held(f := 1)) (w'\<lparr>pg_mem := pg_mem w\<rparr>)" "cached f (w'\<lparr>pg_mem := pg_mem w\<rparr>) = 0"
    using f(3,4) by (simp_all add: cached_def)
  ultimately have "coherent files ((w'\<lparr>pg_mem := pg_mem w\<rparr>)\<lparr>pg_mem := (pg_mem (w'\<lparr>pg_mem := pg_mem w\<rparr>))(f := (\<lambda>_. 0))\<rparr>)"
    by (intro store_coherent)
  moreover have "(w'\<lparr>pg_mem := pg_mem w\<rparr>)\<lparr>pg_mem := (pg_mem (w'\<lparr>pg_mem := pg_mem w\<rparr>))(f := (\<lambda>_. 0))\<rparr> = w'"
    by (simp add: f(6) [symmetric])
  ultimately show ?thesis using f(1,2,4) by simp
qed (use coherent_shrunk [OF assms(2)] in simp)

lemma pc_run_inv:
  assumes "pc_run (files, held, w)"
  shows "page_inv held w \<and> coherent files w"
  using assms
proof (induction "(files, held, w)" arbitrary: files held w rule: pc_run.induct)
  case start
  then show ?case by (rule start_inv)
next
  case (got files held w key rd index readable p w' f)
  then have "got_page held files key index p w'"
    using pagecache_get_inv [of held w files key rd index readable] by auto
  then show ?case using got.hyps(7) by (rule got_page_run)
next
  case (failed files held w key rd index readable e w')
  then show ?case using pagecache_get_inv [of held w files key rd index readable] by auto
next
  case (peeked files held w key index p w' f)
  then have "got_page held files key index p w'" using pagecache_peek_inv [of held w files key index "Inr p" w'] by simp
  then show ?case using peeked.hyps(5) by (rule got_page_run)
next
  case (reffed files held w f)
  then have "page_inv (held(f := held f + 1)) (page_ref (f * PAGE_SIZE) w)" "same_cache (page_ref (f * PAGE_SIZE) w) w"
    using page_ref_inv [of held w f] by simp_all
  then show ?case using reffed coherent_same by blast
next
  case (dropped files held w f b w')
  then show ?case using page_unref_inv [of held w f] coherent_same by auto
next
  case (allocated files held w p w')
  then have "new_page held w p w'" using page_alloc_user_inv [of held w] by auto
  then show ?case using allocated.hyps(2) new_page_run [of held w p w' files] by blast
next
  case (stored files held w f page)
  then show ?case using store_coherent [of held w files f page] by simp
next
  case (wrote files held w offset src key w')
  then show ?case using pagecache_wrote_inv [of held w files offset src key] by auto
next
  case (truncated files held w new_size key w')
  then show ?case using pagecache_truncated_inv [of held w files new_size key] by auto
next
  case (forgotten files held w key w')
  then show ?case unfolding pagecache_invalidate_def using drop_keeps by blast
next
  case (released files held w own key w')
  then have i: "page_inv held w" "coherent files w" by blast+
  have "w' = w \<or> drop_matching (fst key) (snd key) 0 w = Done w'"
    using released.hyps(3) by (simp add: pagecache_vnode_released_def split: if_splits)
  then show ?case using i drop_keeps [OF i] by (elim disjE) simp_all
next
  case (invalidated files held w fs ino w')
  then have i: "page_inv held w" "coherent files w" by blast+
  have "w' = w \<or> drop_matching fs ino 0 w = Done w'"
    using invalidated.hyps(3) by (simp add: pagecache_invalidate_key_def split: if_splits)
  then show ?case using i drop_keeps [OF i] by (elim disjE) simp_all
next
  case (shrank files held w n d w')
  then obtain d' w1 where "shrink_loop n 0 w = Done (d', w1)" "page_inv held w1" "shrunk w1 w"
    using shrink_loop_inv [of held w n 0] by blast
  then show ?case using shrank coherent_shrunk [of files w w1] by (simp add: pagecache_shrink_def)
qed

section \<open>Properties\<close>

text \<open>
  C9. In every state that the calls on pages can reach, the count of a frame is the number of references to it, of
  the cache and of its users; a referenced frame is not free memory; and dropping a reference and
  getting a page of a file return: the allocator never sees a frame freed twice.
\<close>

theorem pagecache_run_safe:
  assumes "pc_run (files, held, w)" "room held"
  shows "(\<forall>f<g_frames w. unat (g_refs w f) = held f + cached f w) \<and>
    (\<forall>f. 0 < held f + cached f w \<longrightarrow> f \<notin> free_frames (pg_pmm w)) \<and>
    (\<forall>f. 0 < held f \<longrightarrow> (\<exists>b w'. page_unref (f * PAGE_SIZE) w = Done (b, w'))) \<and>
    (\<forall>key rd index readable. reads files key rd \<and> index < 2 ^ 52 \<longrightarrow> (\<exists>r w'. pagecache_get readable key rd index w = Done (r, w')))"
proof -
  have i: "page_inv held w" "coherent files w" using pc_run_inv [OF assms(1)] by simp_all
  then have c: "counts_ok held w" by (simp add: page_inv_def)
  show ?thesis
  proof (intro conjI allI impI)
    show "unat (g_refs w f) = held f + cached f w" if "f < g_frames w" for f by (rule counts_okD(3) [OF c that])
    show "f \<notin> free_frames (pg_pmm w)" if "0 < held f + cached f w" for f using counts_okD(4) [OF c that] by blast
    show "\<exists>b w'. page_unref (f * PAGE_SIZE) w = Done (b, w')" if "0 < held f" for f
      using page_unref_inv [OF i(1) that] by blast
    show "\<exists>r w'. pagecache_get readable key rd index w = Done (r, w')" if "reads files key rd \<and> index < 2 ^ 52" for key rd index readable
      using pagecache_get_inv [OF i(1) assms(2) i(2)] that by blast
  qed
qed

definition boot_world :: page_world where
  "boot_world = \<lparr>pg_pmm = boot_state, g_refs = (\<lambda>_. 0), g_frames = mem_end boot_state, g_shrink = True, pg_mem = (\<lambda>_ _. 0),
     g_hash = (\<lambda>_. []), g_lru = [], g_count = 0, pg_kmem = [True, True]\<rparr>"

definition no_bytes :: files where "no_bytes key p = 0"

lemma boot_world_run: "pc_run (no_bytes, \<lambda>_. 0, boot_world)"
  by (rule pc_run.start) (simp add: pc_start_def boot_world_def boot_wf PS)

lemma room_zero: "room (\<lambda>_. 0)" by (simp add: room_def)

lemma reads_empty: "reads no_bytes key (\<lambda>n off. Inr [])" by (simp add: reads_def no_bytes_def)

theorem pagecache_run_safe_witness:
  "unat (g_refs boot_world 0) = cached 0 boot_world \<and>
   (\<exists>r w'. pagecache_get True (1, 2) (\<lambda>n off. Inr []) 0 boot_world = Done (r, w'))"
proof -
  have "0 < g_frames boot_world"
    using pmm_init_correct [OF boot_map_disjoint] boot_max by (simp add: boot_world_def boot_state_def)
  moreover have "(0::u64) < 2 ^ 52" by simp
  ultimately show ?thesis
    using pagecache_run_safe [OF boot_world_run room_zero] reads_empty [of "(1, 2)"] by (metis add_0)
qed

text \<open>
  C10. In every state that the calls on pages can reach one after the other, a cached page holds the bytes of its file,
  after any writes, truncations and evictions.
\<close>

theorem pagecache_coherent:
  assumes "pc_run (files, held, w)" "find_locked fs ino index w = Some e" "i < PAGE_SIZE"
  shows "pg_mem w (pe_phys e div PAGE_SIZE) i = files (fs, ino) (unat index * PAGE_SIZE + i)"
proof -
  have inv: "page_inv held w" "coherent files w" using pc_run_inv [OF assms(1)] by simp_all
  then have co: "cache_ok w" by (simp add: page_inv_def)
  have "e \<in> set (g_lru w)" "entry_key e = (fs, ino, index)" using assms(2) find_locked_iff [OF co] by blast+
  then show ?thesis using inv(2) assms(3) by (auto simp: coherent_def entry_key_def)
qed

lemma boot_alloc: "\<exists>f w'. page_alloc_user boot_world = Done (f * PAGE_SIZE, w') \<and> f \<noteq> 0 \<and> pg_kmem w' = [True, True] \<and> g_lru w' = [] \<and> g_hash w' = (\<lambda>_. [])"
proof -
  have a: "alloc_addr 1 boot_state = 0xffff800000101000" by code_simp
  have o: "hhdm_offset (alloc_state 1 boot_state) = 0xffff800000000000" by code_simp
  have al: "pmm_alloc 1 boot_state = Done (0xffff800000101000, alloc_state 1 boot_state)"
    using alloc_done [of 1 boot_state] a by simp
  have "virt_to_phys (alloc_state 1 boot_state) 0xffff800000101000 = 0x101 * PAGE_SIZE"
    by (simp add: virt_to_phys_def o PS)
  then show ?thesis
    by (intro exI [of _ "0x101"])
       (simp add: page_alloc_user_def al fresh_page_def Let_def boot_world_def split: option.split)
qed

lemma boot_fill:
  "\<exists>f w2. pc_fill (\<lambda>n off. Inr []) 0 boot_world = Done (Inr (f * PAGE_SIZE), w2) \<and> pg_kmem w2 = [True, True] \<and> g_lru w2 = [] \<and> g_hash w2 = (\<lambda>_. [])"
proof -
  obtain f w1 where a: "page_alloc_user boot_world = Done (f * PAGE_SIZE, w1)" "f \<noteq> 0" "pg_kmem w1 = [True, True]" "g_lru w1 = []" "g_hash w1 = (\<lambda>_. [])"
    using boot_alloc by blast
  have "fill_loop (\<lambda>n off. Inr []) 0 0 page = (None, page)" for page by (subst fill_loop.simps) simp
  then show ?thesis using a by (auto simp: pc_fill_def Let_def)
qed

lemma boot_get:
  "\<exists>p w'. pagecache_get True (1, 2) (\<lambda>n off. Inr []) 0 boot_world = Done (Inr p, w') \<and>
     find_locked 1 2 0 w' = Some \<lparr>pe_fs = 1, pe_id = 2, pe_index = 0, pe_phys = p\<rparr>"
proof -
  obtain f w2 where f: "pc_fill (\<lambda>n off. Inr []) 0 boot_world = Done (Inr (f * PAGE_SIZE), w2)" "pg_kmem w2 = [True, True]"
      "g_lru w2 = []" "g_hash w2 = (\<lambda>_. [])" using boot_fill by blast
  have "pc_lookup (1, 2) 0 boot_world = (None, boot_world)" by (simp add: pc_lookup_def find_locked_def boot_world_def)
  then show ?thesis using f
    by (simp add: pagecache_get_def pc_insert_def find_locked_def pc_add_def Let_def lru_push_front_def page_ref_def split: option.split)
qed

theorem pagecache_coherent_witness:
  "\<exists>p w'. pagecache_get True (1, 2) (\<lambda>n off. Inr []) 0 boot_world = Done (Inr p, w') \<and> pg_mem w' (p div PAGE_SIZE) 7 = 0"
proof -
  obtain p w' where g: "pagecache_get True (1, 2) (\<lambda>n off. Inr []) 0 boot_world = Done (Inr p, w')"
      "find_locked 1 2 0 w' = Some \<lparr>pe_fs = 1, pe_id = 2, pe_index = 0, pe_phys = p\<rparr>" using boot_get by blast
  have "pc_run (no_bytes, (\<lambda>_. 0)(p div PAGE_SIZE := (\<lambda>_. 0) (p div PAGE_SIZE) + 1), w')"
    by (rule pc_run.got [OF boot_world_run room_zero reads_empty _ g(1) refl]) simp
  from pagecache_coherent [OF this g(2), of 7] g(1) show ?thesis by (auto simp: no_bytes_def PS)
qed

text \<open>
  C33. The page is read from the file without the lock of the cache.  A write that falls between the reading and the
  insertion finds no cached page to change, and then the stale page enters the cache.
\<close>

theorem pagecache_get_stale:
  assumes "pc_run (files, held, w)" "room held" "reads files key rd" "index < 2 ^ 50"
    and "pc_lookup key index w = (None, w)" "pc_fill rd index w = Done (Inr phys, w2)"
    and "find_locked (fst key) (snd key) index w2 = None" "pg_kmem w2 = True # ks" "b \<noteq> files key (unat index * PAGE_SIZE)"
  shows "\<exists>w3. pagecache_wrote key (index * of_nat PAGE_SIZE) [b] w2 = Done w2 \<and> pc_insert key index phys w2 = Done (phys, w3) \<and>
    \<not> coherent (file_write key (unat index * PAGE_SIZE) [b] files) w3"
proof -
  have i: "page_inv held w" "coherent files w" using pc_run_inv [OF assms(1)] by simp_all
  have ix: "index < 2 ^ 52" using assms(4) by (rule order_less_le_trans) simp
  obtain f where f: "phys = f * PAGE_SIZE" "held f = 0" "cached f w2 = 0" "page_inv (held(f := 1)) w2"
      "\<forall>i<PAGE_SIZE. pg_mem w2 f i = files key (unat index * PAGE_SIZE + i)"
    using pc_fill_inv [OF i assms(3) ix] assms(6) by auto
  let ?ne = "\<lparr>pe_fs = fst key, pe_id = snd key, pe_index = index, pe_phys = phys\<rparr>"
  let ?w = "w2\<lparr>pg_kmem := ks\<rparr>"
  have a: "g_lru (pc_add ?ne ?w) = ?ne # g_lru ?w" "pg_mem (pc_add ?ne ?w) = pg_mem w2"
    using pc_add_inv(2,3) [of "held(f := 1)" ?w f ?ne] f assms(7) by simp_all
  have "pc_insert key index phys w2 = Done (phys, pc_add ?ne ?w)" using assms(7,8) by (simp add: pc_insert_def)
  moreover have "\<not> coherent (file_write key (unat index * PAGE_SIZE) [b] files) (pc_add ?ne ?w)"
  proof
    assume c: "coherent (file_write key (unat index * PAGE_SIZE) [b] files) (pc_add ?ne ?w)"
    have "pg_mem (pc_add ?ne ?w) (pe_phys ?ne div PAGE_SIZE) 0 =
        file_write key (unat index * PAGE_SIZE) [b] files (pe_fs ?ne, pe_id ?ne) (unat (pe_index ?ne) * PAGE_SIZE + 0)"
      using c [unfolded coherent_def] a(1) PAGE_SIZE_pos by (metis list.set_intros(1))
    moreover have "pg_mem w2 f 0 = files key (unat index * PAGE_SIZE + 0)" using f(5) PAGE_SIZE_pos by blast
    ultimately show False using a(2) f(1) assms(9) by (simp add: file_write_def patch_def)
  qed
  moreover have "pagecache_wrote key (index * of_nat PAGE_SIZE) [b] w2 = Done w2"
  proof -
    have u: "unat index < 2 ^ 50" using assms(4) by (simp add: word_less_nat_alt)
    have d: "(index * of_nat PAGE_SIZE) div of_nat PAGE_SIZE = index"
      using u by (simp add: word_unat_eq_iff unat_div unat_word_ariths PS)
    have s: "\<not> (index + 1) * of_nat PAGE_SIZE < index * of_nat PAGE_SIZE + 1"
      using u by (simp add: word_less_nat_alt unat_word_ariths PS)
    have l: "index * of_nat PAGE_SIZE < index * of_nat PAGE_SIZE + (1 :: u64)"
      using u by (simp add: word_less_nat_alt unat_word_ariths PS)
    show ?thesis using assms(7) d s l by (simp add: pagecache_wrote_def numeral_3_eq_3 wrote_page_def Let_def PS)
  qed
  ultimately show ?thesis by blast
qed

theorem pagecache_get_stale_witness:
  "\<exists>phys w2 w3. pc_fill (\<lambda>n off. Inr []) 0 boot_world = Done (Inr phys, w2) \<and>
    pagecache_wrote (1, 2) 0 [5] w2 = Done w2 \<and> pc_insert (1, 2) 0 phys w2 = Done (phys, w3) \<and>
    \<not> coherent (file_write (1, 2) 0 [5] no_bytes) w3"
proof -
  obtain f w2 where f: "pc_fill (\<lambda>n off. Inr []) 0 boot_world = Done (Inr (f * PAGE_SIZE), w2)" "pg_kmem w2 = [True, True]"
      "g_hash w2 = (\<lambda>_. [])" using boot_fill by blast
  have l: "pc_lookup (1, 2) 0 boot_world = (None, boot_world)" by (simp add: pc_lookup_def find_locked_def boot_world_def)
  have n: "find_locked (fst (1, 2)) (snd (1, 2)) 0 w2 = None" by (simp add: find_locked_def f(3))
  have b: "(5 :: u8) \<noteq> no_bytes (1, 2) (unat (0 :: u64) * PAGE_SIZE)" by (simp add: no_bytes_def)
  have z: "(0 :: u64) < 2 ^ 50" by simp
  show ?thesis using f(1) pagecache_get_stale [OF boot_world_run room_zero reads_empty z l f(1) n f(2) b] by auto
qed

end
