(* ===== verification/Vmm.thy ===== *)
theory Vmm
  imports Buddy
begin

unbundle bit_operations_syntax

text \<open>
  The four-level page tables of x86-64, \<^verbatim>\<open>kernel/src/memory/vmm.c\<close>, and the walk over their leaves,
  \<^verbatim>\<open>walk_ptes\<close> of \<^verbatim>\<open>kernel/src/memory/mm.c\<close>.

  Physical memory is \<open>phys_mem\<close>: the 512 words of each frame.  A table is a frame, an entry is a word
  of it, and a page map is the physical address of its root (with the address of the structure that
  holds it).  The allocator below is the one of \<open>Buddy\<close>; what it writes into frames that are free is
  not recorded in \<open>phys_mem\<close>.  Flushes of the translation buffer and messages to other processors
  have no effect on this state.  Page maps are passed by pointer and are never null here.
\<close>

section \<open>Entries\<close>

definition VMM_PRESENT :: u64 where "VMM_PRESENT = 0x1"
definition VMM_WRITE :: u64 where "VMM_WRITE = 0x2"
definition VMM_USER :: u64 where "VMM_USER = 0x4"
definition VMM_PWT :: u64 where "VMM_PWT = 0x8"
definition VMM_PCD :: u64 where "VMM_PCD = 0x10"
definition VMM_DIRTY :: u64 where "VMM_DIRTY = 0x40"
definition VMM_PSE :: u64 where "VMM_PSE = 0x80"
definition VMM_SHARED :: u64 where "VMM_SHARED = 0x200"
definition VMM_NOEXEC :: u64 where "VMM_NOEXEC = 0x8000000000000000"

definition PTE_PHYS_MASK :: u64 where "PTE_PHYS_MASK = 0x000FFFFFFFFFF000"

definition has :: "u64 \<Rightarrow> u64 \<Rightarrow> bool" where "has e b \<longleftrightarrow> e AND b \<noteq> 0"

definition pte_phys :: "u64 \<Rightarrow> nat" where "pte_phys e = unat (e AND PTE_PHYS_MASK)"

text \<open>The index of an address in the table whose entries each cover \<open>2 ^ shift\<close> bytes.\<close>

definition ix :: "nat \<Rightarrow> u64 \<Rightarrow> nat" where "ix shift virt = unat (drop_bit shift virt AND 0x1FF)"

section \<open>State\<close>

record vmm =
  vm_pmm :: pmm_state
  phys_mem :: "nat \<Rightarrow> nat \<Rightarrow> u64"
  kernel_pml4 :: nat
  g_pte_mask :: u64

record vmm_pagemap =
  pm_self :: u64
  pm_pml4 :: nat

text \<open>The structure of the kernel's page map is a static variable; only its root matters.\<close>

definition vmm_get_kernel_pagemap :: "vmm \<Rightarrow> vmm_pagemap" where
  "vmm_get_kernel_pagemap w = \<lparr>pm_self = 0, pm_pml4 = kernel_pml4 w\<rparr>"

text \<open>The entry \<open>i\<close> of the table at a physical address.\<close>

definition entry :: "vmm \<Rightarrow> nat \<Rightarrow> nat \<Rightarrow> u64" where
  "entry w t i = phys_mem w (t div PAGE_SIZE) i"

definition set_entry :: "nat \<Rightarrow> nat \<Rightarrow> u64 \<Rightarrow> vmm \<Rightarrow> vmm" where
  "set_entry t i e w = w\<lparr>phys_mem := (phys_mem w)(t div PAGE_SIZE := (phys_mem w (t div PAGE_SIZE))(i := e))\<rparr>"

definition free_page :: "nat \<Rightarrow> u64 \<Rightarrow> vmm \<Rightarrow> vmm outcome" where
  "free_page phys pages w =
     and_then (pmm_free (phys_to_virt (vm_pmm w) phys) pages (vm_pmm w)) (\<lambda>s. Done (w\<lparr>vm_pmm := s\<rparr>))"

definition copy_frames :: "nat \<Rightarrow> nat \<Rightarrow> nat \<Rightarrow> vmm \<Rightarrow> vmm" where
  "copy_frames dst src n w =
     w\<lparr>phys_mem := (\<lambda>f. if dst \<le> f \<and> f < dst + n then phys_mem w (src + (f - dst)) else phys_mem w f)\<rparr>"

text \<open>A loop over the indices of a table.\<close>

fun each :: "(nat \<Rightarrow> 'w \<Rightarrow> 'w outcome) \<Rightarrow> nat list \<Rightarrow> 'w \<Rightarrow> 'w outcome" where
  "each f [] w = Done w"
| "each f (i # is) w = and_then (f i w) (each f is)"

section \<open>Tables\<close>

definition pmm_alloc_zero :: "u64 \<Rightarrow> vmm \<Rightarrow> (u64 \<times> vmm) outcome" where
  "pmm_alloc_zero pages w =
     (if pages = 0 then Done (0, w)
      else case pages_to_order pages of
        None \<Rightarrow> Hang
      | Some ord \<Rightarrow>
          if ord < 0 then Done (0, w)
          else and_then (pmm_alloc pages (vm_pmm w)) (\<lambda>(p, s).
            let w1 = w\<lparr>vm_pmm := s\<rparr>; f0 = virt_to_phys s p div PAGE_SIZE in
            if p = 0 then Done (0, w1)
            else Done (p, w1\<lparr>phys_mem := (\<lambda>f. if f0 \<le> f \<and> f < f0 + unat pages then (\<lambda>_. 0) else phys_mem w1 f)\<rparr>)))"

text \<open>The physical address of a new table; without memory the machine is halted.\<close>

definition alloc_table :: "vmm \<Rightarrow> (nat \<times> vmm) outcome" where
  "alloc_table w =
     and_then (pmm_alloc_zero 1 w) (\<lambda>(p, w1). if p = 0 then Hang else Done (virt_to_phys (vm_pmm w1) p, w1))"

definition get_table :: "nat \<Rightarrow> nat \<Rightarrow> u64 \<Rightarrow> vmm \<Rightarrow> (nat option \<times> vmm) outcome" where
  "get_table parent index flags w =
     (let e = entry w parent index in
      if \<not> has e VMM_PRESENT then
        and_then (alloc_table w) (\<lambda>(t, w1).
          let w2 = set_entry parent index (of_nat t OR VMM_PRESENT OR VMM_WRITE OR (flags AND VMM_USER)) w1
          in Done (Some (pte_phys (entry w2 parent index)), w2))
      else if has e VMM_PSE then Done (None, w)
      else if has flags VMM_USER then
        let w2 = set_entry parent index (e OR VMM_USER) w
        in Done (Some (pte_phys (entry w2 parent index)), w2)
      else Done (Some (pte_phys e), w))"

text \<open>A pointer to an entry: the table and the index in it.\<close>

definition vmm_pte_lookup :: "vmm_pagemap \<Rightarrow> u64 \<Rightarrow> vmm \<Rightarrow> (nat \<times> nat) option" where
  "vmm_pte_lookup pm virt w =
     (let e4 = entry w (pm_pml4 pm) (ix 39 virt) in
      if \<not> has e4 VMM_PRESENT then None
      else
        let e3 = entry w (pte_phys e4) (ix 30 virt) in
        if \<not> has e3 VMM_PRESENT \<or> has e3 VMM_PSE then None
        else
          let e2 = entry w (pte_phys e3) (ix 21 virt) in
          if \<not> has e2 VMM_PRESENT \<or> has e2 VMM_PSE then None
          else Some (pte_phys e2, ix 12 virt))"

text \<open>The three calls of \<open>get_table\<close> that both \<open>vmm_pte_ensure\<close> and \<open>vmm_map_page\<close> make.\<close>

definition get_pt :: "vmm_pagemap \<Rightarrow> u64 \<Rightarrow> u64 \<Rightarrow> vmm \<Rightarrow> (nat option \<times> vmm) outcome" where
  "get_pt pm virt flags w =
     and_then (get_table (pm_pml4 pm) (ix 39 virt) flags w) (\<lambda>(pdpt, w1).
       case pdpt of
         None \<Rightarrow> Done (None, w1)
       | Some t3 \<Rightarrow>
           and_then (get_table t3 (ix 30 virt) flags w1) (\<lambda>(pd, w2).
             case pd of
               None \<Rightarrow> Done (None, w2)
             | Some t2 \<Rightarrow> get_table t2 (ix 21 virt) flags w2))"

definition vmm_pte_ensure :: "vmm_pagemap \<Rightarrow> u64 \<Rightarrow> vmm \<Rightarrow> ((nat \<times> nat) option \<times> vmm) outcome" where
  "vmm_pte_ensure pm virt w =
     and_then (get_pt pm virt VMM_USER w) (\<lambda>(pt, w1). Done (map_option (\<lambda>t. (t, ix 12 virt)) pt, w1))"

definition vmm_map_page :: "vmm_pagemap \<Rightarrow> u64 \<Rightarrow> u64 \<Rightarrow> u64 \<Rightarrow> vmm \<Rightarrow> (bool \<times> vmm) outcome" where
  "vmm_map_page pm virt phys flags w =
     and_then (get_pt pm virt flags w) (\<lambda>(pt, w1).
       case pt of
         None \<Rightarrow> Done (False, w1)
       | Some t \<Rightarrow>
           Done (True, set_entry t (ix 12 virt) (((phys AND PTE_PHYS_MASK) OR flags OR VMM_PRESENT) AND g_pte_mask w1) w1))"

text \<open>The descent of the unmapping functions, which does not look at \<open>VMM_PSE\<close>.\<close>

definition unmap_slot :: "vmm_pagemap \<Rightarrow> u64 \<Rightarrow> vmm \<Rightarrow> nat option" where
  "unmap_slot pm virt w =
     (let e4 = entry w (pm_pml4 pm) (ix 39 virt) in
      if \<not> has e4 VMM_PRESENT then None
      else
        let e3 = entry w (pte_phys e4) (ix 30 virt) in
        if \<not> has e3 VMM_PRESENT then None
        else
          let e2 = entry w (pte_phys e3) (ix 21 virt) in
          if \<not> has e2 VMM_PRESENT then None else Some (pte_phys e2))"

definition vmm_unmap_page_noflush :: "vmm_pagemap \<Rightarrow> u64 \<Rightarrow> vmm \<Rightarrow> vmm" where
  "vmm_unmap_page_noflush pm virt w =
     (case unmap_slot pm virt w of None \<Rightarrow> w | Some pt \<Rightarrow> set_entry pt (ix 12 virt) 0 w)"

definition vmm_unmap_page :: "vmm_pagemap \<Rightarrow> u64 \<Rightarrow> vmm \<Rightarrow> vmm outcome" where
  "vmm_unmap_page pm virt w =
     (case unmap_slot pm virt w of
        None \<Rightarrow> Done w
      | Some pt \<Rightarrow>
          let e = entry w pt (ix 12 virt) in
          if \<not> has e VMM_PRESENT then Done w
          else
            let w1 = set_entry pt (ix 12 virt) 0 w in
            if \<not> has e VMM_SHARED \<and> pte_phys e \<ge> PMM_FREE_MIN_PHYS then free_page (pte_phys e) 1 w1
            else Done w1)"

section \<open>Reading the tables\<close>

definition vmm_virt_flags :: "vmm_pagemap \<Rightarrow> u64 \<Rightarrow> vmm \<Rightarrow> u64 option" where
  "vmm_virt_flags pm virt w =
     (let e4 = entry w (pm_pml4 pm) (ix 39 virt); a4 = (VMM_WRITE OR VMM_USER) AND e4 in
      if \<not> has e4 VMM_PRESENT then None
      else
        let e3 = entry w (pte_phys e4) (ix 30 virt); a3 = a4 AND e3 in
        if \<not> has e3 VMM_PRESENT then None
        else if has e3 VMM_PSE then Some a3
        else
          let e2 = entry w (pte_phys e3) (ix 21 virt); a2 = a3 AND e2 in
          if \<not> has e2 VMM_PRESENT then None
          else if has e2 VMM_PSE then Some a2
          else
            let e1 = entry w (pte_phys e2) (ix 12 virt) in
            if \<not> has e1 VMM_PRESENT then None else Some (a2 AND e1))"

definition vmm_virt_to_phys :: "vmm_pagemap \<Rightarrow> u64 \<Rightarrow> vmm \<Rightarrow> u64 option" where
  "vmm_virt_to_phys pm virt w =
     (let e4 = entry w (pm_pml4 pm) (ix 39 virt) in
      if \<not> has e4 VMM_PRESENT then None
      else
        let e3 = entry w (pte_phys e4) (ix 30 virt) in
        if \<not> has e3 VMM_PRESENT then None
        else if has e3 VMM_PSE then Some ((e3 AND PTE_PHYS_MASK AND NOT 0x3FFFFFFF) OR (virt AND 0x3FFFFFFF))
        else
          let e2 = entry w (pte_phys e3) (ix 21 virt) in
          if \<not> has e2 VMM_PRESENT then None
          else if has e2 VMM_PSE then Some ((e2 AND PTE_PHYS_MASK AND NOT 0x1FFFFF) OR (virt AND 0x1FFFFF))
          else
            let e1 = entry w (pte_phys e2) (ix 12 virt) in
            if \<not> has e1 VMM_PRESENT then None
            else Some ((e1 AND PTE_PHYS_MASK) OR (virt AND 0xFFF)))"

definition FLAG_BITS :: u64 where "FLAG_BITS = 0xFFF OR VMM_NOEXEC"

definition vmm_get_page_flags :: "vmm_pagemap \<Rightarrow> u64 \<Rightarrow> vmm \<Rightarrow> u64 option" where
  "vmm_get_page_flags pm virt w =
     (let e4 = entry w (pm_pml4 pm) (ix 39 virt) in
      if \<not> has e4 VMM_PRESENT then None
      else
        let e3 = entry w (pte_phys e4) (ix 30 virt) in
        if \<not> has e3 VMM_PRESENT then None
        else if has e3 VMM_PSE then Some (e3 AND FLAG_BITS)
        else
          let e2 = entry w (pte_phys e3) (ix 21 virt) in
          if \<not> has e2 VMM_PRESENT then None
          else if has e2 VMM_PSE then Some (e2 AND FLAG_BITS)
          else
            let e1 = entry w (pte_phys e2) (ix 12 virt) in
            if \<not> has e1 VMM_PRESENT then None else Some (e1 AND FLAG_BITS))"

text \<open>The pages a user can reach; a large entry counts as all of its pages.\<close>

definition user_entry :: "u64 \<Rightarrow> bool" where
  "user_entry e \<longleftrightarrow> has e VMM_PRESENT \<and> has e VMM_USER"

definition count_pt :: "vmm \<Rightarrow> nat \<Rightarrow> u64" where
  "count_pt w pt = sum_list (map (\<lambda>l. if user_entry (entry w pt l) then 1 else 0) [0..<512])"

definition count_pd :: "vmm \<Rightarrow> nat \<Rightarrow> u64" where
  "count_pd w pd = sum_list (map (\<lambda>k. let e2 = entry w pd k in
     if \<not> user_entry e2 then 0 else if has e2 VMM_PSE then 512 else count_pt w (pte_phys e2)) [0..<512])"

definition count_pdpt :: "vmm \<Rightarrow> nat \<Rightarrow> u64" where
  "count_pdpt w pdpt = sum_list (map (\<lambda>j. let e3 = entry w pdpt j in
     if \<not> user_entry e3 then 0 else if has e3 VMM_PSE then 512 * 512 else count_pd w (pte_phys e3)) [0..<512])"

definition vmm_count_user_pages :: "vmm_pagemap \<Rightarrow> vmm \<Rightarrow> u64" where
  "vmm_count_user_pages pm w = sum_list (map (\<lambda>i. let e4 = entry w (pm_pml4 pm) i in
     if \<not> user_entry e4 then 0 else count_pdpt w (pte_phys e4)) [0..<256])"

section \<open>Page maps\<close>

text \<open>The upper half of every page map is that of the kernel.\<close>

definition copy_kernel_half :: "nat \<Rightarrow> vmm \<Rightarrow> vmm" where
  "copy_kernel_half t w = fold (\<lambda>i. set_entry t i (entry w (kernel_pml4 w) i)) [256..<512] w"

definition vmm_sync_kernel_mappings :: "vmm_pagemap \<Rightarrow> vmm \<Rightarrow> vmm" where
  "vmm_sync_kernel_mappings pm w = copy_kernel_half (pm_pml4 pm) w"

text \<open>The structure holds the pointer to the root table in its first word.\<close>

definition vmm_create_pagemap :: "vmm \<Rightarrow> (vmm_pagemap option \<times> vmm) outcome" where
  "vmm_create_pagemap w =
     and_then (pmm_alloc_zero 1 w) (\<lambda>(m, w1).
       if m = 0 then Done (None, w1)
       else and_then (alloc_table w1) (\<lambda>(t, w2).
         Done (Some \<lparr>pm_self = m, pm_pml4 = t\<rparr>,
               copy_kernel_half t (set_entry (virt_to_phys (vm_pmm w2) m) 0 (phys_to_virt (vm_pmm w2) t) w2))))"

definition clone_pt :: "nat \<Rightarrow> nat \<Rightarrow> nat \<Rightarrow> vmm \<Rightarrow> vmm outcome" where
  "clone_pt src_pt dst_pt i w =
     (let e = entry w src_pt i in
      if \<not> has e VMM_PRESENT then Done w
      else if has e VMM_SHARED then Done (set_entry dst_pt i e w)
      else if pte_phys e < PMM_FREE_MIN_PHYS then Done w
      else and_then (pmm_alloc_zero 1 w) (\<lambda>(p, w1).
        if p = 0 then Done w1
        else
          let np = virt_to_phys (vm_pmm w1) p in
          Done (set_entry dst_pt i (of_nat np OR (entry w1 src_pt i AND FLAG_BITS))
                 (copy_frames (np div PAGE_SIZE) (pte_phys e div PAGE_SIZE) 1 w1))))"

definition HUGE_MASK :: u64 where "HUGE_MASK = PTE_PHYS_MASK AND NOT 0x1FFFFF"

definition clone_pd :: "nat \<Rightarrow> nat \<Rightarrow> nat \<Rightarrow> vmm \<Rightarrow> vmm outcome" where
  "clone_pd src_pd dst_pd i w =
     (let e = entry w src_pd i in
      if \<not> has e VMM_PRESENT then Done w
      else if has e VMM_PSE then
        and_then (pmm_alloc 512 (vm_pmm w)) (\<lambda>(p, s).
          let w1 = w\<lparr>vm_pmm := s\<rparr>; np = virt_to_phys s p in
          if p = 0 then Done w1
          else Done (set_entry dst_pd i ((of_nat np AND HUGE_MASK) OR (e AND NOT HUGE_MASK))
                      (copy_frames (np div PAGE_SIZE) (unat (e AND HUGE_MASK) div PAGE_SIZE) 512 w1)))
      else and_then (alloc_table w) (\<lambda>(t, w1).
        each (clone_pt (pte_phys e) t) [0..<512] (set_entry dst_pd i (of_nat t OR (e AND 0xFFF)) w1)))"

definition clone_pdpt :: "nat \<Rightarrow> nat \<Rightarrow> nat \<Rightarrow> vmm \<Rightarrow> vmm outcome" where
  "clone_pdpt src_pdpt dst_pdpt i w =
     (let e = entry w src_pdpt i in
      if \<not> has e VMM_PRESENT then Done w
      else and_then (alloc_table w) (\<lambda>(t, w1).
        each (clone_pd (pte_phys e) t) [0..<512] (set_entry dst_pdpt i (of_nat t OR (e AND 0xFFF)) w1)))"

definition clone_pml4 :: "nat \<Rightarrow> nat \<Rightarrow> nat \<Rightarrow> vmm \<Rightarrow> vmm outcome" where
  "clone_pml4 src_pml4 dst_pml4 i w =
     (let e = entry w src_pml4 i in
      if \<not> has e VMM_PRESENT then Done w
      else and_then (alloc_table w) (\<lambda>(t, w1).
        each (clone_pdpt (pte_phys e) t) [0..<512] (set_entry dst_pml4 i (of_nat t OR (e AND 0xFFF)) w1)))"

definition vmm_clone_pagemap :: "vmm_pagemap \<Rightarrow> vmm \<Rightarrow> (vmm_pagemap option \<times> vmm) outcome" where
  "vmm_clone_pagemap src w =
     and_then (pmm_alloc_zero 1 w) (\<lambda>(m, w1).
       if m = 0 then Done (None, w1)
       else and_then (alloc_table w1) (\<lambda>(t, w2).
         and_then
           (each (clone_pml4 (pm_pml4 src) t) [0..<256]
             (copy_kernel_half t (set_entry (virt_to_phys (vm_pmm w2) m) 0 (phys_to_virt (vm_pmm w2) t) w2)))
           (\<lambda>w3. Done (Some \<lparr>pm_self = m, pm_pml4 = t\<rparr>, w3))))"

text \<open>A page or table below the first megabyte is never given back.\<close>

definition free_high :: "nat \<Rightarrow> u64 \<Rightarrow> vmm \<Rightarrow> vmm outcome" where
  "free_high phys pages w = (if phys \<ge> PMM_FREE_MIN_PHYS then free_page phys pages w else Done w)"

definition free_pte :: "nat \<Rightarrow> nat \<Rightarrow> vmm \<Rightarrow> vmm outcome" where
  "free_pte pt i w =
     (let e = entry w pt i in
      if \<not> has e VMM_PRESENT then Done w
      else if has e VMM_SHARED then Done w
      else free_high (pte_phys e) 1 w)"

definition free_pde :: "nat \<Rightarrow> nat \<Rightarrow> vmm \<Rightarrow> vmm outcome" where
  "free_pde pd i w =
     (let e = entry w pd i in
      if \<not> has e VMM_PRESENT then Done w
      else if has e VMM_PSE then free_high (unat (e AND HUGE_MASK)) 512 w
      else and_then (each (free_pte (pte_phys e)) [0..<512] w) (free_high (pte_phys e) 1))"

definition free_pdpte :: "nat \<Rightarrow> nat \<Rightarrow> vmm \<Rightarrow> vmm outcome" where
  "free_pdpte pdpt i w =
     (let e = entry w pdpt i in
      if \<not> has e VMM_PRESENT then Done w
      else and_then (each (free_pde (pte_phys e)) [0..<512] w) (free_high (pte_phys e) 1))"

definition free_pml4e :: "nat \<Rightarrow> nat \<Rightarrow> vmm \<Rightarrow> vmm outcome" where
  "free_pml4e pml4 i w =
     (let e = entry w pml4 i in
      if \<not> has e VMM_PRESENT then Done w
      else and_then (each (free_pdpte (pte_phys e)) [0..<512] w) (free_high (pte_phys e) 1))"

definition vmm_free_pagemap :: "vmm_pagemap \<Rightarrow> vmm \<Rightarrow> vmm outcome" where
  "vmm_free_pagemap pm w =
     and_then (each (free_pml4e (pm_pml4 pm)) [0..<256] w) (\<lambda>w1.
     and_then (free_page (pm_pml4 pm) 1 w1) (\<lambda>w2.
     and_then (pmm_free (pm_self pm) 1 (vm_pmm w2)) (\<lambda>s. Done (w2\<lparr>vm_pmm := s\<rparr>))))"

section \<open>The direct map\<close>

datatype mem_class = MEM_NONE | MEM_RAM | MEM_MIXED

definition PTE_UC :: u64 where "PTE_UC = VMM_PCD OR VMM_PWT"
definition GIB :: u64 where "GIB = 0x40000000"
definition MIB2 :: u64 where "MIB2 = 0x200000"
definition HHDM_PML4_INDEX :: nat where "HHDM_PML4_INDEX = 256"

text \<open>\<open>ram\<close>: base and length of the ranges of RAM that the boot loader reports.\<close>

definition classify :: "(u64 \<times> u64) list \<Rightarrow> u64 \<Rightarrow> u64 \<Rightarrow> mem_class" where
  "classify ram base len =
     (let till = base + len;
          covered = foldl (\<lambda>c (rb, rl).
            let re = rb + rl; lo = (if rb > base then rb else base); hi = (if re < till then re else till)
            in if hi > lo then c + (hi - lo) else c) 0 ram
      in if covered \<ge> len then MEM_RAM else if covered \<noteq> 0 then MEM_MIXED else MEM_NONE)"

definition large_bits :: "mem_class \<Rightarrow> u64" where
  "large_bits c = VMM_PRESENT OR VMM_WRITE OR VMM_PSE OR (if c = MEM_RAM then 0 else PTE_UC)"

definition hhdm_pte :: "(u64 \<times> u64) list \<Rightarrow> u64 \<Rightarrow> nat \<Rightarrow> nat \<Rightarrow> vmm \<Rightarrow> vmm outcome" where
  "hhdm_pte ram b2 pt k w =
     (let b4 = b2 + of_nat k * 0x1000; c4 = classify ram b4 0x1000
      in Done (set_entry pt k ((b4 OR VMM_PRESENT OR VMM_WRITE OR (if c4 = MEM_NONE then PTE_UC else 0)) AND g_pte_mask w) w))"

definition hhdm_pde :: "(u64 \<times> u64) list \<Rightarrow> u64 \<Rightarrow> nat \<Rightarrow> nat \<Rightarrow> vmm \<Rightarrow> vmm outcome" where
  "hhdm_pde ram base pd m w =
     (let b2 = base + of_nat m * MIB2; c2 = classify ram b2 MIB2 in
      if c2 \<noteq> MEM_MIXED then Done (set_entry pd m ((b2 OR large_bits c2) AND g_pte_mask w) w)
      else and_then (alloc_table w) (\<lambda>(pt, w1).
        each (hhdm_pte ram b2 pt) [0..<512]
          (set_entry pd m ((of_nat pt OR VMM_PRESENT OR VMM_WRITE) AND g_pte_mask w1) w1)))"

definition hhdm_pdpte :: "(u64 \<times> u64) list \<Rightarrow> bool \<Rightarrow> nat \<Rightarrow> nat \<Rightarrow> vmm \<Rightarrow> vmm outcome" where
  "hhdm_pdpte ram gb pdpt g w =
     (let base = of_nat g * GIB; cls = classify ram base GIB in
      if gb \<and> cls \<noteq> MEM_MIXED then Done (set_entry pdpt g ((base OR large_bits cls) AND g_pte_mask w) w)
      else and_then (alloc_table w) (\<lambda>(pd, w1).
        each (hhdm_pde ram base pd) [0..<512]
          (set_entry pdpt g ((of_nat pd OR VMM_PRESENT OR VMM_WRITE) AND g_pte_mask w1) w1)))"

definition hhdm_limit :: "(u64 \<times> u64) list \<Rightarrow> bool \<Rightarrow> u64" where
  "hhdm_limit ram gb =
     (if gb then 512 * GIB
      else
        let ram_end = foldl (\<lambda>m (b, l). if b + l > m then b + l else m) 0 ram;
            l0 = (if ram_end > 4 * GIB then ram_end else 4 * GIB);
            l1 = (l0 + GIB - 1) AND NOT (GIB - 1)
        in if l1 > 512 * GIB then 512 * GIB else l1)"

text \<open>\<open>gb\<close>: the processor has pages of one gigabyte.\<close>

definition vmm_rebuild_hhdm :: "(u64 \<times> u64) list \<Rightarrow> bool \<Rightarrow> vmm \<Rightarrow> vmm outcome" where
  "vmm_rebuild_hhdm ram gb w =
     (if ram = [] then Done w
      else and_then (alloc_table w) (\<lambda>(pdpt, w1).
        and_then (each (hhdm_pdpte ram gb pdpt) [0..<unat (hhdm_limit ram gb div GIB)] w1) (\<lambda>w2.
          Done (set_entry (kernel_pml4 w2) HHDM_PML4_INDEX
                 ((of_nat pdpt OR VMM_PRESENT OR VMM_WRITE) AND g_pte_mask w2) w2))))"

text \<open>\<open>nx\<close>: the processor can forbid execution of a page; \<open>cr3\<close> is the root left by the boot loader.\<close>

definition nx_setup :: "bool \<Rightarrow> vmm \<Rightarrow> vmm" where
  "nx_setup nx w = (if nx then w else w\<lparr>g_pte_mask := NOT VMM_NOEXEC\<rparr>)"

definition vmm_init :: "bool \<Rightarrow> nat \<Rightarrow> (u64 \<times> u64) list \<Rightarrow> bool \<Rightarrow> vmm \<Rightarrow> vmm outcome" where
  "vmm_init nx cr3 ram gb w = vmm_rebuild_hhdm ram gb ((nx_setup nx w)\<lparr>kernel_pml4 := cr3\<rparr>)"

section \<open>Splitting large pages and write combining\<close>

definition split_large_pdpte :: "nat \<Rightarrow> nat \<Rightarrow> vmm \<Rightarrow> (bool \<times> vmm) outcome" where
  "split_large_pdpte t i w =
     and_then (pmm_alloc_zero 1 w) (\<lambda>(p, w1).
       if p = 0 then Done (False, w1)
       else
         let e = entry w t i; pd = virt_to_phys (vm_pmm w1) p; base = e AND 0x000FFFFFC0000000;
             flags = e AND (0xFFF OR 0x1000 OR VMM_NOEXEC)
         in Done (True, set_entry t i ((of_nat pd OR VMM_PRESENT OR VMM_WRITE OR (e AND VMM_USER)) AND g_pte_mask w1)
                   (fold (\<lambda>j. set_entry pd j ((base + of_nat j * MIB2) OR flags)) [0..<512] w1)))"

definition split_large_pde :: "nat \<Rightarrow> nat \<Rightarrow> vmm \<Rightarrow> (bool \<times> vmm) outcome" where
  "split_large_pde t i w =
     and_then (pmm_alloc_zero 1 w) (\<lambda>(p, w1).
       if p = 0 then Done (False, w1)
       else
         let e = entry w t i; pt = virt_to_phys (vm_pmm w1) p; base = e AND 0x000FFFFFFFE00000;
             flags = (e AND (0xFFF AND NOT VMM_PSE)) OR push_bit 7 (drop_bit 12 e AND 1) OR (e AND VMM_NOEXEC)
         in Done (True, set_entry t i ((of_nat pt OR VMM_PRESENT OR VMM_WRITE OR (e AND VMM_USER)) AND g_pte_mask w1)
                   (fold (\<lambda>j. set_entry pt j ((base + of_nat j * 0x1000) OR flags)) [0..<512] w1)))"

text \<open>The attribute bits that select write combining in a large and in a small entry.\<close>

definition wc_large :: "u64 \<Rightarrow> u64" where
  "wc_large e = (e AND NOT (0x8 OR 0x10 OR 0x1000)) OR (0x8 OR 0x1000)"

definition wc_small :: "u64 \<Rightarrow> u64" where
  "wc_small e = (e AND NOT (0x8 OR 0x10 OR 0x80)) OR (0x8 OR 0x80)"

text \<open>One turn of the loop: \<open>None\<close> when it gives up, else the next address.\<close>

definition wc_pde :: "nat \<Rightarrow> u64 \<Rightarrow> u64 \<Rightarrow> vmm \<Rightarrow> (u64 option \<times> vmm) outcome" where
  "wc_pde pd till v w =
     (let e2 = entry w pd (ix 21 v) in
      if \<not> has e2 VMM_PRESENT then Done (None, w)
      else and_then
        (if has e2 VMM_PSE \<and> (v AND (MIB2 - 1) \<noteq> 0 \<or> till - v < MIB2) then split_large_pde pd (ix 21 v) w else Done (True, w))
        (\<lambda>(okay, w1).
          if \<not> okay then Done (None, w1)
          else
            let e = entry w1 pd (ix 21 v) in
            if has e VMM_PSE then
              Done (Some ((v + 0x200000) AND NOT 0x1FFFFF), set_entry pd (ix 21 v) (wc_large e) w1)
            else
              let pt = pte_phys e; e1 = entry w1 pt (ix 12 v) in
              if \<not> has e1 VMM_PRESENT then Done (None, w1)
              else Done (Some (v + 4096), set_entry pt (ix 12 v) (wc_small e1) w1)))"

definition wc_step :: "vmm_pagemap \<Rightarrow> u64 \<Rightarrow> u64 \<Rightarrow> vmm \<Rightarrow> (u64 option \<times> vmm) outcome" where
  "wc_step pm till v w =
     (let e4 = entry w (pm_pml4 pm) (ix 39 v) in
      if \<not> has e4 VMM_PRESENT then Done (None, w)
      else
        let pdpt = pte_phys e4; e3 = entry w pdpt (ix 30 v) in
        if \<not> has e3 VMM_PRESENT then Done (None, w)
        else and_then
          (if has e3 VMM_PSE \<and> (v AND (GIB - 1) \<noteq> 0 \<or> till - v < GIB) then split_large_pdpte pdpt (ix 30 v) w else Done (True, w))
          (\<lambda>(okay, w1).
            if \<not> okay then Done (None, w1)
            else
              let e = entry w1 pdpt (ix 30 v) in
              if has e VMM_PSE then
                Done (Some ((v + 0x40000000) AND NOT 0x3FFFFFFF), set_entry pdpt (ix 30 v) (wc_large e) w1)
              else wc_pde (pte_phys e) till v w1))"

partial_function (option) wc_loop :: "vmm_pagemap \<Rightarrow> u64 \<Rightarrow> u64 \<Rightarrow> vmm \<Rightarrow> (bool \<times> vmm) option" where
  "wc_loop pm till v w =
     (if v < till then
        (case wc_step pm till v w of
           Done (None, w1) \<Rightarrow> Some (False, w1)
         | Done (Some v1, w1) \<Rightarrow> wc_loop pm till v1 w1
         | Panic m \<Rightarrow> None
         | Hang \<Rightarrow> None)
      else Some (True, w))"

definition vmm_remap_range_wc :: "vmm_pagemap \<Rightarrow> u64 \<Rightarrow> u64 \<Rightarrow> vmm \<Rightarrow> (bool \<times> vmm) option" where
  "vmm_remap_range_wc pm virt_base pages w = wc_loop pm (virt_base + pages * 4096) virt_base w"

text \<open>The second level of the kernel's tables, so that page maps created later share what is mapped there.\<close>

partial_function (option) prepare_loop :: "u64 \<Rightarrow> u64 \<Rightarrow> vmm \<Rightarrow> (bool \<times> vmm) outcome option" where
  "prepare_loop till v w =
     (if v < till then
        (case and_then (get_table (kernel_pml4 w) (ix 39 v) 0 w) (\<lambda>(pdpt, w1).
                case pdpt of None \<Rightarrow> Done (None, w1) | Some t \<Rightarrow> get_table t (ix 30 v) 0 w1) of
           Done (None, w2) \<Rightarrow> Some (Done (False, w2))
         | Done (Some _, w2) \<Rightarrow> prepare_loop till (v + 0x40000000) w2
         | Panic m \<Rightarrow> Some (Panic m)
         | Hang \<Rightarrow> Some Hang)
      else Some (Done (True, w)))"

definition vmm_prepare_kernel_range :: "u64 \<Rightarrow> u64 \<Rightarrow> vmm \<Rightarrow> (bool \<times> vmm) outcome option" where
  "vmm_prepare_kernel_range virt bytes w = prepare_loop (virt + bytes) virt w"

section \<open>The walk over the leaves\<close>

text \<open>
  The addresses for which \<open>walk_ptes\<close> calls back, in order, after those in \<open>acc\<close>; a callback changes
  only the leaf it is called for, so the walk can be read off the tables at its start.  \<open>leaf_run\<close> is
  the inner loop, over one table of leaves.
\<close>

partial_function (option) leaf_run :: "vmm \<Rightarrow> nat \<Rightarrow> u64 \<Rightarrow> u64 list \<Rightarrow> u64 \<Rightarrow> (u64 list \<times> u64) option" where
  "leaf_run w pt stop acc va =
     (if va < stop then
        leaf_run w pt stop (if has (entry w pt (ix 12 va)) VMM_PRESENT then acc @ [va] else acc) (va + 4096)
      else Some (acc, va))"

definition walk_skip :: "nat \<Rightarrow> u64 \<Rightarrow> u64" where
  "walk_skip shift va = (va OR (push_bit shift 1 - 1)) + 1"

definition walk_stop :: "u64 \<Rightarrow> u64 \<Rightarrow> u64" where
  "walk_stop till va = (let stop = walk_skip 21 va in if stop > till \<or> stop = 0 then till else stop)"

partial_function (option) walk_ptes :: "vmm \<Rightarrow> vmm_pagemap \<Rightarrow> u64 \<Rightarrow> u64 list \<Rightarrow> u64 \<Rightarrow> u64 list option" where
  "walk_ptes w pm till acc va =
     (if va < till then
        let e4 = entry w (pm_pml4 pm) (ix 39 va) in
        if \<not> has e4 VMM_PRESENT then walk_ptes w pm till acc (walk_skip 39 va)
        else
          let e3 = entry w (pte_phys e4) (ix 30 va) in
          if \<not> has e3 VMM_PRESENT \<or> has e3 VMM_PSE then walk_ptes w pm till acc (walk_skip 30 va)
          else
            let e2 = entry w (pte_phys e3) (ix 21 va) in
            if \<not> has e2 VMM_PRESENT \<or> has e2 VMM_PSE then walk_ptes w pm till acc (walk_skip 21 va)
            else
              (case leaf_run w (pte_phys e2) (walk_stop till va) acc va of
                 None \<Rightarrow> None
               | Some (acc1, va1) \<Rightarrow> walk_ptes w pm till acc1 va1)
      else Some acc)"

end
