(* ===== verification/Vmm_Correct.thy ===== *)
theory Vmm_Correct
  imports Vmm Single_Page
begin

unbundle bit_operations_syntax

text \<open>
  The page tables as a tree.  A typing gives each frame its level in the tree (0: not a table); it is
  kept by every operation.  What an address translates to is read off by \<open>walk\<close>, and the operations
  change it for the pages they are called for and for no other.
\<close>

section \<open>Bits of an entry\<close>

lemma PTE_PHYS_MASK_eq: "PTE_PHYS_MASK = mask 52 AND NOT (mask 12)"
  by (simp add: PTE_PHYS_MASK_def mask_eq_exp_minus_1)

lemma bit_PTE_PHYS_MASK: "bit PTE_PHYS_MASK n \<longleftrightarrow> 12 \<le> n \<and> n < 52"
  by (auto simp: PTE_PHYS_MASK_eq bit_simps)

text \<open>The frame an entry points to.\<close>

definition fr :: "u64 \<Rightarrow> nat" where "fr e = pte_phys e div PAGE_SIZE"

lemma mask_push: "e AND PTE_PHYS_MASK = push_bit 12 (drop_bit 12 e AND mask 40)"
  by (simp add: bit_eq_iff bit_simps bit_PTE_PHYS_MASK) auto

lemma unat_mask_40: "unat (drop_bit 12 (e :: u64) AND mask 40) < 2 ^ 40"
proof -
  have "unat (take_bit 40 (drop_bit 12 e)) = take_bit 40 (unat (drop_bit 12 e))" by (rule unsigned_take_bit_eq)
  then show ?thesis using take_bit_nat_less_exp [of 40 "unat (drop_bit 12 e)"] by (simp add: take_bit_eq_mask)
qed

lemma unat_push_12: "unat (x :: u64) < 2 ^ 40 \<Longrightarrow> unat (push_bit 12 x) = unat x * PAGE_SIZE"
  by (simp add: push_bit_eq_mult unat_word_ariths PS)

lemma pte_phys_fr: "pte_phys e = fr e * PAGE_SIZE"
  using unat_push_12 [OF unat_mask_40 [of e]] by (simp add: fr_def pte_phys_def mask_push)

lemma entry_pte_phys [simp]: "entry w (pte_phys e) i = phys_mem w (fr e) i"
  by (simp add: entry_def fr_def)

lemma of_nat_frame: "f < 2 ^ 40 \<Longrightarrow> (of_nat (f * PAGE_SIZE) :: u64) = push_bit 12 (of_nat f)"
  by (simp add: push_bit_eq_mult PS)

lemma frame_bits: "f < 2 ^ 40 \<Longrightarrow> bit (f :: nat) n \<Longrightarrow> n < 40"
  by (metis bit_take_bit_iff take_bit_nat_eq_self)

text \<open>An entry built from a frame and flags outside the address bits.\<close>

lemma fr_entry:
  assumes f: "f < 2 ^ 40" and x: "x AND PTE_PHYS_MASK = 0"
  shows "fr (of_nat (f * PAGE_SIZE) OR x) = f"
proof -
  have "drop_bit 12 (of_nat (f * PAGE_SIZE) :: u64) = of_nat f"
    unfolding of_nat_frame [OF f] by (auto simp: bit_eq_iff bit_simps dest: frame_bits [OF f])
  moreover have "of_nat f AND mask 40 = (of_nat f :: u64)"
    by (auto simp: bit_eq_iff bit_simps dest: frame_bits [OF f])
  moreover have "(of_nat (f * PAGE_SIZE) OR x) AND PTE_PHYS_MASK = of_nat (f * PAGE_SIZE) AND PTE_PHYS_MASK"
    using x by (simp add: bit.conj_disj_distrib2)
  ultimately have "(of_nat (f * PAGE_SIZE) OR x) AND PTE_PHYS_MASK = push_bit 12 (of_nat f)"
    by (simp add: mask_push)
  moreover have "unat (of_nat f :: u64) = f" using f by (simp add: unat_of_nat)
  ultimately show ?thesis using f by (simp add: fr_def pte_phys_def unat_push_12)
qed

lemma has_or: "has (a OR b) m \<longleftrightarrow> has a m \<or> has b m"
  by (auto simp: has_def bit.conj_disj_distrib2 or_eq_0_iff)

lemma has_frame:
  assumes "f < 2 ^ 40" "m AND PTE_PHYS_MASK = 0"
  shows "\<not> has (of_nat (f * PAGE_SIZE)) m"
proof -
  have "of_nat (f * PAGE_SIZE) AND PTE_PHYS_MASK = (of_nat (f * PAGE_SIZE) :: u64)"
    unfolding of_nat_frame [OF assms(1)]
    by (auto simp: bit_eq_iff bit_simps bit_PTE_PHYS_MASK dest: frame_bits [OF assms(1)])
  then have "of_nat (f * PAGE_SIZE) AND m = of_nat (f * PAGE_SIZE) AND (PTE_PHYS_MASK AND m)"
    by (metis and.assoc)
  then show ?thesis using assms(2) by (simp add: has_def and.commute)
qed

lemmas vmm_bits = VMM_PRESENT_def VMM_WRITE_def VMM_USER_def VMM_PSE_def VMM_SHARED_def VMM_NOEXEC_def

text \<open>The entry that \<open>get_table\<close> stores for a new table, and the one it adds \<open>VMM_USER\<close> to.\<close>

definition link_entry :: "nat \<Rightarrow> u64 \<Rightarrow> u64" where
  "link_entry f flags = of_nat (f * PAGE_SIZE) OR VMM_PRESENT OR VMM_WRITE OR (flags AND VMM_USER)"

lemma has_and_user: "\<not> has (flags AND VMM_USER) VMM_PSE" "(flags AND VMM_USER) AND PTE_PHYS_MASK = 0"
  by (simp_all add: has_def vmm_bits PTE_PHYS_MASK_def and.assoc)

lemma link_entry_parts:
  assumes "f < 2 ^ 40"
  shows "has (link_entry f flags) VMM_PRESENT" "\<not> has (link_entry f flags) VMM_PSE" "fr (link_entry f flags) = f"
proof -
  have c: "has VMM_PRESENT VMM_PRESENT" "\<not> has VMM_PRESENT VMM_PSE" "\<not> has VMM_WRITE VMM_PSE"
    "VMM_PSE AND PTE_PHYS_MASK = 0" "(VMM_PRESENT OR VMM_WRITE) AND PTE_PHYS_MASK = 0"
    by (simp_all add: has_def vmm_bits PTE_PHYS_MASK_def)
  show "has (link_entry f flags) VMM_PRESENT" using c by (simp add: link_entry_def has_or)
  show "\<not> has (link_entry f flags) VMM_PSE"
    using c has_frame [OF assms] has_and_user by (simp add: link_entry_def has_or)
  have "(VMM_PRESENT OR VMM_WRITE OR (flags AND VMM_USER)) AND PTE_PHYS_MASK = 0"
    using c(5) has_and_user(2) [of flags] by (simp add: bit.conj_disj_distrib2)
  from fr_entry [OF assms this] show "fr (link_entry f flags) = f" by (simp add: link_entry_def or.assoc)
qed

lemma or_user:
  "has (e OR VMM_USER) VMM_PRESENT = has e VMM_PRESENT" "has (e OR VMM_USER) VMM_PSE = has e VMM_PSE"
  "fr (e OR VMM_USER) = fr e"
proof -
  have c: "\<not> has VMM_USER VMM_PRESENT" "\<not> has VMM_USER VMM_PSE" "VMM_USER AND PTE_PHYS_MASK = 0"
    by (simp_all add: has_def vmm_bits PTE_PHYS_MASK_def)
  then show "has (e OR VMM_USER) VMM_PRESENT = has e VMM_PRESENT" "has (e OR VMM_USER) VMM_PSE = has e VMM_PSE"
    by (simp_all add: has_or)
  show "fr (e OR VMM_USER) = fr e" using c by (simp add: fr_def pte_phys_def bit.conj_disj_distrib2)
qed

lemma ix_less: "ix shift v < 512"
proof -
  have "drop_bit shift v AND 0x1FF \<le> (0x1FF :: u64)" by (rule word_and_le1)
  then show ?thesis by (simp add: ix_def word_le_nat_alt)
qed

section \<open>The tree\<close>

text \<open>An entry of a table of level \<open>l\<close> that points to a table of the level below.\<close>

definition link :: "nat \<Rightarrow> u64 \<Rightarrow> bool" where
  "link l e \<longleftrightarrow> 2 \<le> l \<and> has e VMM_PRESENT \<and> \<not> has e VMM_PSE"

text \<open>\<open>ty\<close> gives the level of a frame in the tree with root \<open>r\<close>: 4 for the root, 0 for a frame that is no table.\<close>

definition links_ok :: "(nat \<Rightarrow> nat) \<Rightarrow> (nat \<Rightarrow> nat \<Rightarrow> u64) \<Rightarrow> bool" where
  "links_ok ty m \<longleftrightarrow>
     (\<forall>f i. i < 512 \<and> link (ty f) (m f i) \<longrightarrow> ty (fr (m f i)) = ty f - 1) \<and>
     (\<forall>f g i j. i < 512 \<and> j < 512 \<and> link (ty f) (m f i) \<and> link (ty g) (m g j) \<and> fr (m f i) = fr (m g j) \<longrightarrow>
        f = g \<and> i = j)"

definition pt_ok :: "(nat \<Rightarrow> nat) \<Rightarrow> nat \<Rightarrow> vmm \<Rightarrow> bool" where
  "pt_ok ty r w \<longleftrightarrow> pmm_wf (vm_pmm w) \<and> mem_end (vm_pmm w) \<le> 2 ^ 52 \<and>
     (\<forall>f. ty f = 4 \<longleftrightarrow> f = r) \<and> (\<forall>f. ty f \<le> 4) \<and>
     (\<forall>f. ty f \<noteq> 0 \<longrightarrow> page_at (vm_pmm w) f \<and> f \<notin> free_frames (vm_pmm w)) \<and>
     links_ok ty (phys_mem w) \<and> (\<forall>i<512. has (phys_mem w r i) VMM_PRESENT \<longrightarrow> \<not> has (phys_mem w r i) VMM_PSE)"

text \<open>What the processor finds for an address: the level and the entry at which its walk ends.\<close>

fun walk :: "(nat \<Rightarrow> nat \<Rightarrow> u64) \<Rightarrow> nat \<Rightarrow> nat \<Rightarrow> u64 \<Rightarrow> (nat \<times> u64) option" where
  "walk m 0 f v = None"
| "walk m (Suc l) f v =
     (let e = m f (ix (12 + 9 * l) v) in
      if \<not> has e VMM_PRESENT then None
      else if l = 0 \<or> has e VMM_PSE then Some (Suc l, e)
      else walk m l (fr e) v)"

text \<open>The table of level \<open>k\<close> on the way to an address; the table of leaves is the one of level 1.\<close>

fun table_at :: "(nat \<Rightarrow> nat \<Rightarrow> u64) \<Rightarrow> nat \<Rightarrow> nat \<Rightarrow> nat \<Rightarrow> u64 \<Rightarrow> nat option" where
  "table_at m k 0 f v = None"
| "table_at m k (Suc l) f v =
     (if Suc l = k then Some f
      else let e = m f (ix (12 + 9 * l) v) in if link (Suc l) e then table_at m k l (fr e) v else None)"

abbreviation leaf_table :: "(nat \<Rightarrow> nat \<Rightarrow> u64) \<Rightarrow> nat \<Rightarrow> nat \<Rightarrow> u64 \<Rightarrow> nat option" where
  "leaf_table m \<equiv> table_at m 1"

lemma pt_okD:
  assumes "pt_ok ty r w"
  shows "pmm_wf (vm_pmm w)" "mem_end (vm_pmm w) \<le> 2 ^ 52" "ty f = 4 \<longleftrightarrow> f = r" "ty f \<le> 4"
    "ty f \<noteq> 0 \<Longrightarrow> page_at (vm_pmm w) f" "ty f \<noteq> 0 \<Longrightarrow> f \<notin> free_frames (vm_pmm w)"
    "links_ok ty (phys_mem w)" "i < 512 \<Longrightarrow> has (phys_mem w r i) VMM_PRESENT \<Longrightarrow> \<not> has (phys_mem w r i) VMM_PSE"
  using assms unfolding pt_ok_def by blast+

lemma links_okD:
  assumes "links_ok ty m" "i < 512" "link (ty f) (m f i)"
  shows "ty (fr (m f i)) = ty f - 1"
    "j < 512 \<Longrightarrow> link (ty g) (m g j) \<Longrightarrow> fr (m f i) = fr (m g j) \<Longrightarrow> f = g \<and> i = j"
  using assms unfolding links_ok_def by blast+

lemma page_at_40: "pt_ok ty r w \<Longrightarrow> page_at (vm_pmm w) f \<Longrightarrow> f < 2 ^ 40"
  using pt_okD(2) [of ty r w] by (auto simp: page_at_iff PS)

section \<open>Changing a leaf\<close>

definition poke :: "(nat \<Rightarrow> nat \<Rightarrow> u64) \<Rightarrow> nat \<Rightarrow> nat \<Rightarrow> u64 \<Rightarrow> nat \<Rightarrow> nat \<Rightarrow> u64" where
  "poke m g i e = m(g := (m g)(i := e))"

lemma set_entry_mem [simp]:
  "phys_mem (set_entry (g * PAGE_SIZE) i e w) = poke (phys_mem w) g i e"
  "vm_pmm (set_entry t i e w) = vm_pmm w" "g_pte_mask (set_entry t i e w) = g_pte_mask w"
  "kernel_pml4 (set_entry t i e w) = kernel_pml4 w"
  by (simp_all add: set_entry_def poke_def)

lemma set_entry_poke: "set_entry (g * PAGE_SIZE) i e w = w\<lparr>phys_mem := poke (phys_mem w) g i e\<rparr>"
  by (simp add: set_entry_def poke_def)

lemma poke_at: "poke m g i e f j = (if f = g \<and> j = i then e else m f j)"
  by (simp add: poke_def)

lemma table_at_le: "table_at m k l f v = Some g \<Longrightarrow> k \<le> l"
  by (induction l arbitrary: f) (force simp: Let_def split: if_splits)+

lemma table_at_ty:
  "links_ok ty m \<Longrightarrow> ty f = l \<Longrightarrow> table_at m k l f v = Some g \<Longrightarrow> ty g = k"
proof (induction l arbitrary: f)
  case (Suc l)
  show ?case
  proof (cases "Suc l = k")
    case False
    let ?e = "m f (ix (12 + 9 * l) v)"
    have k: "link (Suc l) ?e" "table_at m k l (fr ?e) v = Some g"
      using Suc.prems False by (auto simp: Let_def split: if_splits)
    have "ty (fr ?e) = l" using links_okD(1) [OF Suc.prems(1) ix_less, of f "12 + 9 * l" v] k(1) Suc.prems(2) by simp
    with Suc.IH [OF Suc.prems(1) _ k(2)] show ?thesis by simp
  qed (use Suc.prems in auto)
qed simp

text \<open>Two addresses that share a table agree in the indices above it.\<close>

lemma table_at_inj:
  "links_ok ty m \<Longrightarrow> ty f = l \<Longrightarrow> ty f' = l \<Longrightarrow> table_at m n l f v = Some g \<Longrightarrow> table_at m n l f' v' = Some g \<Longrightarrow>
   f = f' \<and> (\<forall>k. n \<le> k \<and> k < l \<longrightarrow> ix (12 + 9 * k) v = ix (12 + 9 * k) v')"
proof (induction l arbitrary: f f')
  case (Suc l)
  show ?case
  proof (cases "Suc l = n")
    case False
    let ?i = "ix (12 + 9 * l) v" and ?j = "ix (12 + 9 * l) v'"
    have k: "link (Suc l) (m f ?i)" "table_at m n l (fr (m f ?i)) v = Some g"
      "link (Suc l) (m f' ?j)" "table_at m n l (fr (m f' ?j)) v' = Some g"
      using Suc.prems False by (auto simp: Let_def split: if_splits)
    have t: "ty (fr (m f ?i)) = l" "ty (fr (m f' ?j)) = l"
      using links_okD(1) [OF Suc.prems(1) ix_less, of f "12 + 9 * l" v] links_okD(1) [OF Suc.prems(1) ix_less, of f' "12 + 9 * l" v']
        k Suc.prems(2,3) by simp_all
    from Suc.IH [OF Suc.prems(1) t k(2,4)]
    have ih: "fr (m f ?i) = fr (m f' ?j)" "\<forall>k. n \<le> k \<and> k < l \<longrightarrow> ix (12 + 9 * k) v = ix (12 + 9 * k) v'" by auto
    have "f = f' \<and> ?i = ?j"
      using links_okD(2) [OF Suc.prems(1) ix_less [of "12 + 9 * l" v], of f ?j f'] k ih(1) Suc.prems(2,3) by (simp add: ix_less)
    with ih(2) show ?thesis by (auto simp: less_Suc_eq)
  qed (use Suc.prems in auto)
qed simp

lemma walk_leaf:
  "0 < l \<Longrightarrow> leaf_table m l f v = Some g \<Longrightarrow>
   walk m l f v = (let e = m g (ix 12 v) in if has e VMM_PRESENT then Some (1, e) else None)"
proof (induction l arbitrary: f)
  case (Suc l)
  then show ?case by (cases "l = 0") (auto simp: Let_def link_def split: if_splits)
qed simp

text \<open>A change of one entry of a table, and of frames that were no tables, is seen through that entry only.\<close>

lemma walk_change:
  assumes lk: "links_ok ty m" and p: "ty p = k" "0 < k"
    and same: "\<And>h j. ty h \<noteq> 0 \<Longrightarrow> (h, j) \<noteq> (p, i) \<Longrightarrow> m' h j = m h j"
  shows "ty f = l \<Longrightarrow> walk m' l f v =
    (if table_at m k l f v = Some p \<and> ix (12 + 9 * (k - 1)) v = i then walk m' k p v else walk m l f v)"
proof (induction l arbitrary: f)
  case (Suc l)
  let ?j = "ix (12 + 9 * l) v"
  show ?case
  proof (cases "f = p \<and> ?j = i")
    case True
    then show ?thesis using p Suc.prems by auto
  next
    case False
    then have e: "m' f ?j = m f ?j" using Suc.prems by (intro same) auto
    show ?thesis
    proof (cases "link (Suc l) (m f ?j)")
      case True
      have c: "ty (fr (m f ?j)) = l" using links_okD(1) [OF lk ix_less, of f "12 + 9 * l" v] True Suc.prems by simp
      have w: "walk m' (Suc l) f v = walk m' l (fr (m f ?j)) v" "walk m (Suc l) f v = walk m l (fr (m f ?j)) v"
        using True e by (auto simp: Let_def link_def)
      show ?thesis
      proof (cases "Suc l = k")
        case True
        then have "table_at m k l (fr (m f ?j)) v \<noteq> Some p" using table_at_le [of m k l "fr (m f ?j)" v p] by auto
        with Suc.IH [OF c] w False True show ?thesis by auto
      next
        case nk: False
        with True have "table_at m k (Suc l) f v = table_at m k l (fr (m f ?j)) v" by (simp add: Let_def)
        with Suc.IH [OF c] w show ?thesis by simp
      qed
    next
      case nl: False
      then have "walk m' (Suc l) f v = walk m (Suc l) f v" using e by (auto simp: Let_def link_def)
      moreover have "\<not> (table_at m k (Suc l) f v = Some p \<and> ix (12 + 9 * (k - 1)) v = i)"
        using nl False by (cases k) (auto simp: Let_def)
      ultimately show ?thesis by (simp only: if_False)
    qed
  qed
qed simp

lemma walk_poke_leaf:
  assumes "links_ok ty m" "ty f = l" "0 < l" "ty g = 1"
  shows "walk (poke m g i e) l f v =
     (if leaf_table m l f v = Some g \<and> ix 12 v = i then if has e VMM_PRESENT then Some (1, e) else None
      else walk m l f v)"
proof -
  have "poke m g i e h j = m h j" if "(h, j) \<noteq> (g, i)" for h j using that by (auto simp: poke_at)
  then have "walk (poke m g i e) l f v =
    (if leaf_table m l f v = Some g \<and> ix (12 + 9 * (1 - 1)) v = i then walk (poke m g i e) 1 g v else walk m l f v)"
    by (intro walk_change [OF assms(1,4) _ _ assms(2)]) simp_all
  then show ?thesis by (simp add: poke_at)
qed

lemma links_okI:
  assumes "\<And>f i. i < 512 \<Longrightarrow> link (ty f) (m f i) \<Longrightarrow> ty (fr (m f i)) = ty f - 1"
    and "\<And>f g i j. i < 512 \<Longrightarrow> j < 512 \<Longrightarrow> link (ty f) (m f i) \<Longrightarrow> link (ty g) (m g j) \<Longrightarrow> fr (m f i) = fr (m g j) \<Longrightarrow>
      f = g \<and> i = j"
  shows "links_ok ty m"
  unfolding links_ok_def using assms by (intro conjI allI impI; elim conjE) simp_all

lemma links_ok_cong:
  assumes ok: "links_ok ty m" and eq: "\<And>f i. 2 \<le> ty f \<Longrightarrow> m' f i = m f i"
  shows "links_ok ty m'"
proof -
  have k: "m' f i = m f i \<and> link (ty f) (m f i)" if "link (ty f) (m' f i)" for f i
  proof -
    have "m' f i = m f i" by (rule eq) (use that in \<open>simp add: link_def\<close>)
    with that show ?thesis by simp
  qed
  show ?thesis
  proof (rule links_okI)
    fix f i assume i: "i < 512" and l: "link (ty f) (m' f i)"
    show "ty (fr (m' f i)) = ty f - 1" using links_okD(1) [OF ok i, of f] k [OF l] by simp
  next
    fix f g i j assume i: "i < 512" "j < 512" and l: "link (ty f) (m' f i)" "link (ty g) (m' g j)"
      and e: "fr (m' f i) = fr (m' g j)"
    show "f = g \<and> i = j"
      by (rule links_okD(2) [OF ok i(1) _ i(2)]) (use k [OF l(1)] k [OF l(2)] e in simp_all)
  qed
qed

lemma pt_ok_poke_leaf:
  assumes ok: "pt_ok ty r w" and g: "ty g < 2"
  shows "pt_ok ty r (w\<lparr>phys_mem := poke (phys_mem w) g i e\<rparr>)"
proof -
  have "g \<noteq> r" using g pt_okD(3) [OF ok, of r] by auto
  moreover have "links_ok ty (poke (phys_mem w) g i e)"
    by (rule links_ok_cong [OF pt_okD(7) [OF ok]]) (use g in \<open>auto simp: poke_at\<close>)
  ultimately show ?thesis using ok by (auto simp: pt_ok_def poke_at)
qed

section \<open>Adding tables\<close>

text \<open>An entry is as before, or links to the same table with other flags, or links to a new empty table.\<close>

definition refines :: "nat \<Rightarrow> (nat \<Rightarrow> nat \<Rightarrow> u64) \<Rightarrow> u64 \<Rightarrow> u64 \<Rightarrow> bool" where
  "refines l m' e e' \<longleftrightarrow> e' = e \<or> link l e \<and> link l e' \<and> fr e' = fr e \<or>
     \<not> has e VMM_PRESENT \<and> link l e' \<and> (\<forall>k. m' (fr e') k = 0)"

lemma not_has_0 [simp]: "\<not> has 0 b" by (simp add: has_def)

lemma walk_empty: "(\<And>k. m f k = 0) \<Longrightarrow> walk m l f v = None"
  by (cases l) simp_all

lemma walk_refines:
  "links_ok ty m \<Longrightarrow> (\<And>h j. ty h \<noteq> 0 \<Longrightarrow> j < 512 \<Longrightarrow> refines (ty h) m' (m h j) (m' h j)) \<Longrightarrow> ty f = l \<Longrightarrow>
   walk m' l f v = walk m l f v"
proof (induction l arbitrary: f)
  case (Suc l)
  let ?i = "ix (12 + 9 * l) v"
  have ih: "walk m' l (fr (m f ?i)) v = walk m l (fr (m f ?i)) v" if "link (Suc l) (m f ?i)"
  proof (rule Suc.IH [OF Suc.prems(1,2)])
    show "ty (fr (m f ?i)) = l" using links_okD(1) [OF Suc.prems(1) ix_less, of f "12 + 9 * l" v] that Suc.prems(3) by simp
  qed
  have "refines (Suc l) m' (m f ?i) (m' f ?i)" using Suc.prems(2) [of f ?i] Suc.prems(3) by (simp add: ix_less)
  then consider "m' f ?i = m f ?i" | "link (Suc l) (m f ?i)" "link (Suc l) (m' f ?i)" "fr (m' f ?i) = fr (m f ?i)"
    | "\<not> has (m f ?i) VMM_PRESENT" "link (Suc l) (m' f ?i)" "\<forall>k. m' (fr (m' f ?i)) k = 0"
    by (auto simp: refines_def)
  then show ?case
  proof cases
    case 1
    then show ?thesis
    proof (cases "link (Suc l) (m f ?i)")
      case True
      with ih 1 show ?thesis by (simp add: Let_def)
    qed (auto simp: Let_def link_def)
  next
    case 2
    with ih show ?thesis by (auto simp: Let_def link_def)
  next
    case 3
    then show ?thesis by (simp add: Let_def link_def walk_empty)
  qed
qed simp

text \<open>
  The effect of looking for a table: at most \<open>n\<close> free frames became tables, and no translation
  changed.
\<close>

definition grown :: "nat \<Rightarrow> (nat \<Rightarrow> nat) \<Rightarrow> vmm \<Rightarrow> (nat \<Rightarrow> nat) \<Rightarrow> vmm \<Rightarrow> bool" where
  "grown n ty w ty' w' \<longleftrightarrow>
     (\<forall>f. ty' f \<noteq> ty f \<longrightarrow> ty f = 0 \<and> f \<in> free_frames (vm_pmm w)) \<and>
     free_frames (vm_pmm w') = free_frames (vm_pmm w) - {f. ty' f \<noteq> ty f} \<and>
     card (free_frames (vm_pmm w)) \<le> card (free_frames (vm_pmm w')) + n \<and>
     mem_end (vm_pmm w') = mem_end (vm_pmm w) \<and> hhdm_offset (vm_pmm w') = hhdm_offset (vm_pmm w) \<and>
     g_pte_mask w' = g_pte_mask w \<and> kernel_pml4 w' = kernel_pml4 w \<and>
     (\<forall>h v. walk (phys_mem w') (ty h) h v = walk (phys_mem w) (ty h) h v) \<and>
     (\<forall>h. ty' h = 0 \<longrightarrow> phys_mem w' h = phys_mem w h) \<and>
     (\<forall>h j. link (ty h) (phys_mem w h j) \<longrightarrow> link (ty h) (phys_mem w' h j) \<and> fr (phys_mem w' h j) = fr (phys_mem w h j))"

lemma grownI:
  assumes "\<And>f. ty' f \<noteq> ty f \<Longrightarrow> ty f = 0 \<and> f \<in> free_frames (vm_pmm w)"
    "free_frames (vm_pmm w') = free_frames (vm_pmm w) - {f. ty' f \<noteq> ty f}"
    "card (free_frames (vm_pmm w)) \<le> card (free_frames (vm_pmm w')) + n"
    "mem_end (vm_pmm w') = mem_end (vm_pmm w)" "hhdm_offset (vm_pmm w') = hhdm_offset (vm_pmm w)"
    "g_pte_mask w' = g_pte_mask w" "kernel_pml4 w' = kernel_pml4 w"
    "\<And>h v. walk (phys_mem w') (ty h) h v = walk (phys_mem w) (ty h) h v"
    "\<And>h. ty' h = 0 \<Longrightarrow> phys_mem w' h = phys_mem w h"
    "\<And>h j. link (ty h) (phys_mem w h j) \<Longrightarrow> link (ty h) (phys_mem w' h j) \<and> fr (phys_mem w' h j) = fr (phys_mem w h j)"
  shows "grown n ty w ty' w'"
  unfolding grown_def using assms by blast

lemma grownD:
  assumes "grown n ty w ty' w'"
  shows "ty' f \<noteq> ty f \<Longrightarrow> ty f = 0" "ty' f \<noteq> ty f \<Longrightarrow> f \<in> free_frames (vm_pmm w)"
    "free_frames (vm_pmm w') = free_frames (vm_pmm w) - {f. ty' f \<noteq> ty f}"
    "card (free_frames (vm_pmm w)) \<le> card (free_frames (vm_pmm w')) + n"
    "mem_end (vm_pmm w') = mem_end (vm_pmm w)" "hhdm_offset (vm_pmm w') = hhdm_offset (vm_pmm w)"
    "g_pte_mask w' = g_pte_mask w" "kernel_pml4 w' = kernel_pml4 w"
    "walk (phys_mem w') (ty h) h v = walk (phys_mem w) (ty h) h v"
    "ty' h = 0 \<Longrightarrow> phys_mem w' h = phys_mem w h"
    "link (ty h) (phys_mem w h j) \<Longrightarrow> link (ty h) (phys_mem w' h j) \<and> fr (phys_mem w' h j) = fr (phys_mem w h j)"
  using assms unfolding grown_def by blast+

lemma grown_refl: "grown 0 ty w ty w"
  by (simp add: grown_def)

lemma grown_mono: "grown n ty w ty' w' \<Longrightarrow> n \<le> m \<Longrightarrow> grown m ty w ty' w'"
  by (auto simp: grown_def)

lemma grown_keeps: "grown n ty w ty' w' \<Longrightarrow> ty f \<noteq> 0 \<Longrightarrow> ty' f = ty f"
  using grownD(1) [of n ty w ty' w' f] by fastforce

lemma grown_trans:
  assumes 1: "grown n ty w ty' w'" and 2: "grown k ty' w' ty'' w''"
  shows "grown (n + k) ty w ty'' w''"
proof (rule grownI)
  have ch: "ty'' f \<noteq> ty f \<longleftrightarrow> ty' f \<noteq> ty f \<or> ty'' f \<noteq> ty' f" for f
    using grownD(1) [OF 1, of f] grownD(1) [OF 2, of f] by auto
  show "ty f = 0 \<and> f \<in> free_frames (vm_pmm w)" if "ty'' f \<noteq> ty f" for f
  proof (cases "ty' f = ty f")
    case True
    with that have "ty'' f \<noteq> ty' f" by simp
    from grownD(1,2) [OF 2 this] True show ?thesis by (simp add: grownD(3) [OF 1])
  qed (use grownD(1,2) [OF 1] in blast)
  show "free_frames (vm_pmm w'') = free_frames (vm_pmm w) - {f. ty'' f \<noteq> ty f}"
    unfolding grownD(3) [OF 2] grownD(3) [OF 1] by (simp only: ch) blast
  show "walk (phys_mem w'') (ty h) h v = walk (phys_mem w) (ty h) h v" for h v
  proof (cases "ty h = 0")
    case False
    then have "ty' h = ty h" by (rule grown_keeps [OF 1])
    with grownD(9) [OF 1, of h v] grownD(9) [OF 2, of h v] show ?thesis by simp
  qed simp
  show "phys_mem w'' h = phys_mem w h" if "ty'' h = 0" for h
  proof -
    have "ty' h = 0" using that grown_keeps [OF 2, of h] by (cases "ty' h = 0") simp_all
    then show ?thesis using that by (simp add: grownD(10) [OF 1] grownD(10) [OF 2])
  qed
  show "link (ty h) (phys_mem w'' h j) \<and> fr (phys_mem w'' h j) = fr (phys_mem w h j)" if k: "link (ty h) (phys_mem w h j)" for h j
  proof -
    have "ty' h = ty h" by (rule grown_keeps [OF 1]) (use k in \<open>simp add: link_def\<close>)
    then show ?thesis using grownD(11) [OF 1 k] grownD(11) [OF 2, of h j] by simp
  qed
qed (use grownD(4) [OF 1] grownD(4) [OF 2] in \<open>simp_all add: grownD(5-8) [OF 1] grownD(5-8) [OF 2]\<close>)

text \<open>The state after the allocation of the frame \<open>f\<close>, cleared.\<close>

definition took :: "nat \<Rightarrow> vmm \<Rightarrow> vmm \<Rightarrow> bool" where
  "took f w w1 \<longleftrightarrow>
     (\<exists>s'. w1 = w\<lparr>vm_pmm := s', phys_mem := (phys_mem w)(f := (\<lambda>_. 0))\<rparr> \<and>
        pmm_wf s' \<and> mem_end s' = mem_end (vm_pmm w) \<and> hhdm_offset s' = hhdm_offset (vm_pmm w) \<and>
        page_at (vm_pmm w) f \<and> f \<in> free_frames (vm_pmm w) \<and> free_frames s' = free_frames (vm_pmm w) - {f})"

lemma tookD:
  assumes "took f w w1"
  shows "virt_to_phys (vm_pmm w1) = virt_to_phys (vm_pmm w)" "kernel_pml4 w1 = kernel_pml4 w" "g_pte_mask w1 = g_pte_mask w"
    "phys_mem w1 = (phys_mem w)(f := (\<lambda>_. 0))" "f \<in> free_frames (vm_pmm w)" "free_frames (vm_pmm w1) = free_frames (vm_pmm w) - {f}"
    "mem_end (vm_pmm w1) = mem_end (vm_pmm w)"
proof -
  from assms obtain s' where "w1 = w\<lparr>vm_pmm := s', phys_mem := (phys_mem w)(f := (\<lambda>_. 0))\<rparr>"
    "hhdm_offset s' = hhdm_offset (vm_pmm w)" "f \<in> free_frames (vm_pmm w)" "free_frames s' = free_frames (vm_pmm w) - {f}"
    "mem_end s' = mem_end (vm_pmm w)"
    by (auto simp: took_def)
  then show "virt_to_phys (vm_pmm w1) = virt_to_phys (vm_pmm w)" "kernel_pml4 w1 = kernel_pml4 w" "g_pte_mask w1 = g_pte_mask w"
    "phys_mem w1 = (phys_mem w)(f := (\<lambda>_. 0))" "f \<in> free_frames (vm_pmm w)" "free_frames (vm_pmm w1) = free_frames (vm_pmm w) - {f}"
    "mem_end (vm_pmm w1) = mem_end (vm_pmm w)"
    by (simp_all add: virt_to_phys_def fun_eq_iff)
qed

lemma alloc_zero_ok:
  assumes wf: "pmm_wf (vm_pmm w)"
  shows "(\<exists>s'. pmm_alloc_zero 1 w = Done (0, w\<lparr>vm_pmm := s'\<rparr>) \<and> free_frames (vm_pmm w) = {} \<and> free_frames s' = {} \<and> pmm_wf s' \<and>
       mem_end s' = mem_end (vm_pmm w)) \<or>
    (\<exists>p f w1. pmm_alloc_zero 1 w = Done (p, w1) \<and> p \<noteq> 0 \<and> virt_to_phys (vm_pmm w1) p = f * PAGE_SIZE \<and> took f w w1)"
proof -
  from alloc_one [OF wf] obtain p s' where al: "pmm_alloc 1 (vm_pmm w) = Done (p, s')"
    and s': "pmm_wf s'" "mem_end s' = mem_end (vm_pmm w)" "hhdm_offset s' = hhdm_offset (vm_pmm w)"
    and d: "p = 0 \<and> free_frames s' = free_frames (vm_pmm w) \<or>
     (\<exists>f. p \<noteq> 0 \<and> virt_to_phys s' p = f * PAGE_SIZE \<and> page_at (vm_pmm w) f \<and> f \<in> free_frames (vm_pmm w) \<and>
       free_frames s' = free_frames (vm_pmm w) - {f})" by auto
  show ?thesis
  proof (cases "p = 0")
    case True
    then show ?thesis using al alloc_one_none [OF wf] d s'(1,2) by (auto simp: pmm_alloc_zero_def order_one)
  next
    case False
    with d obtain f where f: "virt_to_phys s' p = f * PAGE_SIZE" "page_at (vm_pmm w) f" "f \<in> free_frames (vm_pmm w)"
      "free_frames s' = free_frames (vm_pmm w) - {f}" by auto
    let ?w1 = "w\<lparr>vm_pmm := s', phys_mem := (phys_mem w)(f := (\<lambda>_. 0))\<rparr>"
    have "(\<lambda>g. if f \<le> g \<and> g < f + 1 then \<lambda>_. 0 else phys_mem (w\<lparr>vm_pmm := s'\<rparr>) g) = (phys_mem w)(f := (\<lambda>_. 0))" by auto
    then have "pmm_alloc_zero 1 w = Done (p, ?w1)"
      using False f(1) al by (simp add: pmm_alloc_zero_def order_one Let_def)
    moreover have "took f w ?w1" using s' f unfolding took_def by blast
    ultimately show ?thesis using False f(1) by auto
  qed
qed

lemma alloc_table_ok:
  assumes "pmm_wf (vm_pmm w)"
  shows "alloc_table w = Hang \<and> free_frames (vm_pmm w) = {} \<or> (\<exists>f w1. alloc_table w = Done (f * PAGE_SIZE, w1) \<and> took f w w1)"
  using alloc_zero_ok [OF assms] by (auto simp: alloc_table_def)

text \<open>A frame \<open>f\<close> with content \<open>c\<close>, in which no entry is a link, becomes a table below the entry \<open>i\<close> of \<open>p\<close>.\<close>

lemma install_table:
  assumes ok: "pt_ok ty r w" and p: "ty p = Suc (Suc l)" "i < 512" "\<not> link (ty p) (phys_mem w p i)"
    and f: "page_at (vm_pmm w) f" "f \<in> free_frames (vm_pmm w)"
    and s': "pmm_wf s'" "mem_end s' = mem_end (vm_pmm w)" "free_frames s' = free_frames (vm_pmm w) - {f}"
    and e: "has e VMM_PRESENT" "\<not> has e VMM_PSE" "fr e = f" and c: "\<And>j. \<not> link (Suc l) (c j)"
    and w': "w' = w\<lparr>vm_pmm := s', phys_mem := poke ((phys_mem w)(f := c)) p i e\<rparr>"
  shows "pt_ok (ty(f := Suc l)) r w'"
proof -
  let ?ty = "ty(f := Suc l)" and ?m = "phys_mem w" and ?m' = "phys_mem w'"
  note lk = pt_okD(7) [OF ok]
  have f0: "ty f = 0" using pt_okD(6) [OF ok, of f] f(2) by (cases "ty f = 0") simp_all
  then have pf: "p \<noteq> f" "f \<noteq> r" using p(1) pt_okD(3) [OF ok, of r] by auto
  have m': "?m' g j = (if g = f then c j else if g = p \<and> j = i then e else ?m g j)" for g j
    using pf by (simp add: w' poke_at)
  have l4: "Suc l < 4" using pt_okD(4) [OF ok, of p] p(1) by simp
  have old: "g \<noteq> f \<and> (g = p \<and> j = i \<or> link (ty g) (?m g j) \<and> ?m' g j = ?m g j)" if "link (?ty g) (?m' g j)" for g j
    using that c by (auto simp: m' split: if_splits)
  have nf: "fr (?m g j) \<noteq> f" if "link (ty g) (?m g j)" "j < 512" for g j
    using links_okD(1) [OF lk that(2,1)] that(1) f0 by (auto simp: link_def)
  have "links_ok ?ty ?m'"
  proof (rule links_okI)
    fix g j assume j: "j < 512" and k: "link (?ty g) (?m' g j)"
    show "?ty (fr (?m' g j)) = ?ty g - 1"
      using old [OF k] links_okD(1) [OF lk j, of g] nf [of g j] j p(1) pf e(3) by (auto simp: m')
  next
    fix g h j k assume b: "j < 512" "k < 512" and kk: "link (?ty g) (?m' g j)" "link (?ty h) (?m' h k)"
      and eq: "fr (?m' g j) = fr (?m' h k)"
    have pe: "fr (?m' p i) = f" using pf e(3) by (simp add: m')
    show "g = h \<and> j = k"
    proof (cases "(g = p \<and> j = i) \<or> (h = p \<and> k = i)")
      case True
      then show ?thesis using old [OF kk(1)] old [OF kk(2)] nf [of g j] nf [of h k] b eq pe by auto
    next
      case False
      then have "link (ty g) (?m g j)" "?m' g j = ?m g j" "link (ty h) (?m h k)" "?m' h k = ?m h k"
        using old [OF kk(1)] old [OF kk(2)] by auto
      with links_okD(2) [OF lk b(1) _ b(2), of g h] eq show ?thesis by simp
    qed
  qed
  moreover have "\<forall>j<512. has (?m' r j) VMM_PRESENT \<longrightarrow> \<not> has (?m' r j) VMM_PSE"
    using pt_okD(8) [OF ok] e pf by (auto simp: m')
  moreover have "page_at s' g \<longleftrightarrow> page_at (vm_pmm w) g" for g by (rule page_at_cong [OF s'(2)])
  moreover have "?ty g = 4 \<longleftrightarrow> g = r" for g using pt_okD(3) [OF ok, of g] l4 pf by auto
  moreover have "?ty g \<le> 4" for g using pt_okD(4) [OF ok, of g] l4 by simp
  ultimately show "pt_ok ?ty r w'"
    unfolding pt_ok_def using s' f pt_okD(2,5,6) [OF ok] by (auto simp: w')
qed

lemma new_table:
  assumes ok: "pt_ok ty r w" and p: "ty p = Suc (Suc l)" "i < 512" "\<not> has (phys_mem w p i) VMM_PRESENT"
    and f: "page_at (vm_pmm w) f" "f \<in> free_frames (vm_pmm w)"
    and s': "pmm_wf s'" "mem_end s' = mem_end (vm_pmm w)" "hhdm_offset s' = hhdm_offset (vm_pmm w)"
      "free_frames s' = free_frames (vm_pmm w) - {f}"
    and e: "has e VMM_PRESENT" "\<not> has e VMM_PSE" "fr e = f"
    and w': "w' = w\<lparr>vm_pmm := s', phys_mem := poke ((phys_mem w)(f := (\<lambda>_. 0))) p i e\<rparr>"
  shows "pt_ok (ty(f := Suc l)) r w' \<and> grown 1 ty w (ty(f := Suc l)) w'"
proof
  let ?ty = "ty(f := Suc l)" and ?m = "phys_mem w" and ?m' = "phys_mem w'"
  note lk = pt_okD(7) [OF ok]
  have f0: "ty f = 0" using pt_okD(6) [OF ok, of f] f(2) by (cases "ty f = 0") simp_all
  then have pf: "p \<noteq> f" using p(1) by auto
  have m': "?m' g j = (if g = f then 0 else if g = p \<and> j = i then e else ?m g j)" for g j
    using pf by (simp add: w' poke_at)
  show "pt_ok ?ty r w'"
    by (rule install_table [OF ok p(1,2) _ f s'(1,2,4) e _ w']) (simp_all add: link_def p(3))
  show "grown 1 ty w ?ty w'"
  proof (rule grownI)
    have "refines (ty h) ?m' (?m h j) (?m' h j)" if "ty h \<noteq> 0" for h j
    proof (cases "h = p \<and> j = i")
      case True
      then show ?thesis using p e pf by (simp add: refines_def link_def m')
    next
      case False
      moreover have "h \<noteq> f" using that f0 by auto
      ultimately show ?thesis by (auto simp: refines_def m')
    qed
    then show "walk ?m' (ty h) h v = walk ?m (ty h) h v" for h v by (intro walk_refines [OF lk]) simp_all
    show "link (ty h) (?m' h j) \<and> fr (?m' h j) = fr (?m h j)" if "link (ty h) (?m h j)" for h j
      using that p(3) f0 by (auto simp: m' link_def)
    show "free_frames (vm_pmm w') = free_frames (vm_pmm w) - {g. ?ty g \<noteq> ty g}" using s'(4) f0 by (auto simp: w')
    show "card (free_frames (vm_pmm w)) \<le> card (free_frames (vm_pmm w')) + 1"
      using s'(4) f(2) by (simp add: w' card_Diff_singleton)
    show "?m' h = ?m h" if "?ty h = 0" for h using that p(1) by (auto simp: m' fun_eq_iff split: if_splits)
  qed (use s' f f0 in \<open>auto simp: w' split: if_splits\<close>)
qed

lemma relink:
  assumes ok: "pt_ok ty r w" and p: "i < 512" "link (ty p) (phys_mem w p i)"
    and e: "has e VMM_PRESENT" "\<not> has e VMM_PSE" "fr e = fr (phys_mem w p i)"
    and w': "w' = w\<lparr>phys_mem := poke (phys_mem w) p i e\<rparr>"
  shows "pt_ok ty r w' \<and> grown 0 ty w ty w'"
proof
  let ?m = "phys_mem w" and ?m' = "phys_mem w'"
  note lk = pt_okD(7) [OF ok]
  have m': "?m' g j = (if g = p \<and> j = i then e else ?m g j)" for g j by (simp add: w' poke_at)
  have same: "link (ty g) (?m' g j) = link (ty g) (?m g j)" "fr (?m' g j) = fr (?m g j)" for g j
    using p(2) e by (auto simp: m' link_def)
  have "links_ok ty ?m'" using lk unfolding links_ok_def same .
  moreover have "\<forall>j<512. has (?m' r j) VMM_PRESENT \<longrightarrow> \<not> has (?m' r j) VMM_PSE"
    using pt_okD(8) [OF ok] e by (auto simp: m')
  ultimately show "pt_ok ty r w'" using ok by (auto simp: pt_ok_def w')
  have "refines (ty h) ?m' (?m h j) (?m' h j)" for h j
    using p(2) same [of h j] by (cases "h = p \<and> j = i") (auto simp: refines_def m')
  then have "walk ?m' (ty h) h v = walk ?m (ty h) h v" for h v by (intro walk_refines [OF lk]) simp_all
  moreover have "?m' h = ?m h" if "ty h = 0" for h using that p(2) by (auto simp: m' link_def fun_eq_iff)
  ultimately show "grown 0 ty w ty w'" using same by (simp add: grown_def w')
qed

lemma entry_frame [simp]: "entry w (p * PAGE_SIZE) i = phys_mem w p i"
  by (simp add: entry_def)

text \<open>What a search for a table of the next level can end with.\<close>

definition found :: "nat \<Rightarrow> (nat \<Rightarrow> nat) \<Rightarrow> nat \<Rightarrow> vmm \<Rightarrow> nat \<Rightarrow> nat \<Rightarrow> (nat option \<times> vmm) outcome \<Rightarrow> bool" where
  "found n ty r w p i res \<longleftrightarrow>
     (\<exists>w' ty'. res = Done (Some (pte_phys (phys_mem w' p i)), w') \<and> pt_ok ty' r w' \<and> grown n ty w ty' w' \<and>
        link (ty p) (phys_mem w' p i))"

lemma get_table_ok:
  assumes ok: "pt_ok ty r w" and p: "ty p = Suc (Suc l)" and i: "i < 512"
  shows "get_table (p * PAGE_SIZE) i flags w = Hang \<and> free_frames (vm_pmm w) = {} \<or>
    get_table (p * PAGE_SIZE) i flags w = Done (None, w) \<and> has (phys_mem w p i) VMM_PRESENT \<and> has (phys_mem w p i) VMM_PSE \<or>
    found 1 ty r w p i (get_table (p * PAGE_SIZE) i flags w)"
proof (cases "has (phys_mem w p i) VMM_PRESENT")
  case False
  from alloc_table_ok [OF pt_okD(1) [OF ok], unfolded took_def] show ?thesis
  proof (elim disjE exE conjE)
    fix f w1 s' assume al: "alloc_table w = Done (f * PAGE_SIZE, w1)" "w1 = w\<lparr>vm_pmm := s', phys_mem := (phys_mem w)(f := (\<lambda>_. 0))\<rparr>"
      and s': "pmm_wf s'" "mem_end s' = mem_end (vm_pmm w)" "hhdm_offset s' = hhdm_offset (vm_pmm w)"
      and f: "page_at (vm_pmm w) f" "f \<in> free_frames (vm_pmm w)" and fs: "free_frames s' = free_frames (vm_pmm w) - {f}"
    note le = link_entry_parts [OF page_at_40 [OF ok f(1)], of flags]
    define w' where "w' = w\<lparr>vm_pmm := s', phys_mem := poke ((phys_mem w)(f := (\<lambda>_. 0))) p i (link_entry f flags)\<rparr>"
    have g: "get_table (p * PAGE_SIZE) i flags w = Done (Some (pte_phys (phys_mem w' p i)), w')"
      using False by (simp add: get_table_def al Let_def w'_def link_entry_def set_entry_def poke_def)
    have "phys_mem w' p i = link_entry f flags" by (simp add: w'_def poke_at)
    then have "link (ty p) (phys_mem w' p i)" using le p by (simp add: link_def)
    with new_table [OF ok p i False f s' fs le w'_def] g show ?thesis by (auto simp: found_def)
  qed (use False in \<open>simp add: get_table_def\<close>)
next
  case pr: True
  show ?thesis
  proof (cases "has (phys_mem w p i) VMM_PSE")
    case True
    with pr show ?thesis by (simp add: get_table_def)
  next
    case False
    have lk: "link (ty p) (phys_mem w p i)" using pr False p by (simp add: link_def)
    show ?thesis
    proof (cases "has flags VMM_USER")
      case True
      define w' where "w' = w\<lparr>phys_mem := poke (phys_mem w) p i (phys_mem w p i OR VMM_USER)\<rparr>"
      have at: "phys_mem w' p i = phys_mem w p i OR VMM_USER" by (simp add: w'_def poke_at)
      have g: "get_table (p * PAGE_SIZE) i flags w = Done (Some (pte_phys (phys_mem w' p i)), w')"
        using pr False True by (simp add: get_table_def Let_def at) (simp add: w'_def set_entry_def poke_def)
      have "pt_ok ty r w' \<and> grown 0 ty w ty w'"
        by (rule relink [OF ok i lk _ _ _ w'_def]) (use pr False in \<open>simp_all add: or_user\<close>)
      moreover have "link (ty p) (phys_mem w' p i)" using lk by (simp add: at link_def or_user)
      ultimately show ?thesis using g grown_mono [of 0 ty w ty w' 1] by (auto simp: found_def)
    next
      case False
      with pr lk have "get_table (p * PAGE_SIZE) i flags w = Done (Some (pte_phys (phys_mem w p i)), w)"
        by (simp add: get_table_def link_def Let_def)
      then show ?thesis using ok lk grown_mono [OF grown_refl, of 1 ty w] by (auto simp: found_def)
    qed
  qed
qed

text \<open>
  The tables on the way to an address: with three free frames the search returns, either with the
  table of leaves or because a large page is in the way.
\<close>

definition large_at :: "nat \<Rightarrow> u64 \<Rightarrow> vmm \<Rightarrow> bool" where
  "large_at r v w \<longleftrightarrow> (\<exists>l e. 2 \<le> l \<and> walk (phys_mem w) 4 r v = Some (l, e) \<and> has e VMM_PSE)"

lemma grown_link:
  assumes ok: "pt_ok ty r w" and "grown n ty w ty' w'" "pt_ok ty' r w'" "ty p = Suc (Suc l)" "i < 512" "link (ty p) (phys_mem w' p i)"
  shows "ty' p = Suc (Suc l)" "ty' (fr (phys_mem w' p i)) = Suc l"
proof -
  show t: "ty' p = Suc (Suc l)" using grown_keeps [OF assms(2), of p] assms(4) by simp
  show "ty' (fr (phys_mem w' p i)) = Suc l" using links_okD(1) [OF pt_okD(7) [OF assms(3)] assms(5), of p] assms(4,6) t by simp
qed

lemma table_at_step:
  "k \<noteq> Suc l \<Longrightarrow> link (Suc l) (m f (ix (12 + 9 * l) v)) \<Longrightarrow> table_at m k (Suc l) f v = table_at m k l (fr (m f (ix (12 + 9 * l) v))) v"
  by (simp add: Let_def)

lemma walk_step:
  "link (Suc l) (m f (ix (12 + 9 * l) v)) \<Longrightarrow> walk m (Suc l) f v = walk m l (fr (m f (ix (12 + 9 * l) v))) v"
  by (auto simp: Let_def link_def)

lemma walk_large:
  "0 < l \<Longrightarrow> has (m f (ix (12 + 9 * l) v)) VMM_PRESENT \<Longrightarrow> has (m f (ix (12 + 9 * l) v)) VMM_PSE \<Longrightarrow>
   walk m (Suc l) f v = Some (Suc l, m f (ix (12 + 9 * l) v))"
  by simp

text \<open>The result of the search from level \<open>l\<close> on; it can halt the machine only with fewer than \<open>n\<close> free frames.\<close>

definition search :: "nat \<Rightarrow> nat \<Rightarrow> (nat \<Rightarrow> nat) \<Rightarrow> nat \<Rightarrow> vmm \<Rightarrow> nat \<Rightarrow> u64 \<Rightarrow> (nat option \<times> vmm) outcome \<Rightarrow> bool" where
  "search n l ty r w p v res \<longleftrightarrow>
     res = Hang \<and> card (free_frames (vm_pmm w)) < n \<or>
     (\<exists>w' ty'. pt_ok ty' r w' \<and> grown n ty w ty' w' \<and>
        (res = Done (None, w') \<and> (\<exists>k e. 2 \<le> k \<and> walk (phys_mem w) l p v = Some (k, e) \<and> has e VMM_PSE) \<or>
         (\<exists>g. res = Done (Some (g * PAGE_SIZE), w') \<and> leaf_table (phys_mem w') l p v = Some g)))"

lemma searchI:
  assumes "pt_ok ty' r w'" "grown n ty w ty' w'"
    "res = Done (None, w') \<and> (\<exists>k e. 2 \<le> k \<and> walk (phys_mem w) l p v = Some (k, e) \<and> has e VMM_PSE) \<or>
     (\<exists>g. res = Done (Some (g * PAGE_SIZE), w') \<and> leaf_table (phys_mem w') l p v = Some g)"
  shows "search n l ty r w p v res"
  unfolding search_def by (rule disjI2, rule exI [of _ w'], rule exI [of _ ty']) (intro conjI assms)

lemma search_step:
  assumes ok: "pt_ok ty r w" and p: "ty p = Suc l" "0 < l"
    and cont: "\<And>w1 ty1 t. pt_ok ty1 r w1 \<Longrightarrow> ty1 t = l \<Longrightarrow> search n l ty1 r w1 t v (next_table (t * PAGE_SIZE) w1)"
  shows "search (Suc n) (Suc l) ty r w p v
    (and_then (get_table (p * PAGE_SIZE) (ix (12 + 9 * l) v) flags w)
      (\<lambda>(t, w1). case t of None \<Rightarrow> Done (None, w1) | Some t' \<Rightarrow> next_table t' w1))"
proof -
  let ?i = "ix (12 + 9 * l) v"
  have p': "ty p = Suc (Suc (l - 1))" using p by simp
  from get_table_ok [OF ok p' ix_less, of "12 + 9 * l" v flags]
  consider "get_table (p * PAGE_SIZE) ?i flags w = Hang" "free_frames (vm_pmm w) = {}"
    | "get_table (p * PAGE_SIZE) ?i flags w = Done (None, w)" "has (phys_mem w p ?i) VMM_PRESENT" "has (phys_mem w p ?i) VMM_PSE"
    | "found 1 ty r w p ?i (get_table (p * PAGE_SIZE) ?i flags w)" by auto
  then show ?thesis
  proof cases
    case 1
    then show ?thesis by (simp add: search_def)
  next
    case 2
    then have "walk (phys_mem w) (Suc l) p v = Some (Suc l, phys_mem w p ?i)" using p(2) by (intro walk_large) simp_all
    with 2 p(2) show ?thesis by (intro searchI [OF ok grown_mono [OF grown_refl]]) auto
  next
    case 3
    then obtain w1 ty1 where w1: "get_table (p * PAGE_SIZE) ?i flags w = Done (Some (pte_phys (phys_mem w1 p ?i)), w1)"
      "pt_ok ty1 r w1" "grown 1 ty w ty1 w1" "link (ty p) (phys_mem w1 p ?i)" by (auto simp: found_def)
    let ?t = "fr (phys_mem w1 p ?i)"
    have t: "ty1 p = Suc l" "ty1 ?t = l" using grown_link [OF ok w1(3,2) p' ix_less w1(4)] p by simp_all
    have res: "and_then (get_table (p * PAGE_SIZE) ?i flags w)
      (\<lambda>(t, w1). case t of None \<Rightarrow> Done (None, w1) | Some t' \<Rightarrow> next_table t' w1) = next_table (?t * PAGE_SIZE) w1"
      by (simp add: w1(1) pte_phys_fr)
    from cont [OF w1(2) t(2), unfolded search_def]
    consider "next_table (?t * PAGE_SIZE) w1 = Hang" "card (free_frames (vm_pmm w1)) < n"
      | (ret) w' ty' where "pt_ok ty' r w'" "grown n ty1 w1 ty' w'"
         "next_table (?t * PAGE_SIZE) w1 = Done (None, w') \<and> (\<exists>k e. 2 \<le> k \<and> walk (phys_mem w1) l ?t v = Some (k, e) \<and> has e VMM_PSE) \<or>
         (\<exists>g. next_table (?t * PAGE_SIZE) w1 = Done (Some (g * PAGE_SIZE), w') \<and> leaf_table (phys_mem w') l ?t v = Some g)"
      by blast
    then have "search (Suc n) (Suc l) ty r w p v (next_table (?t * PAGE_SIZE) w1)"
    proof cases
      case 1
      then show ?thesis unfolding search_def using grownD(4) [OF w1(3)] by (intro disjI1) simp
    next
      case ret
      note w' = ret(1,2)
      have g: "grown (Suc n) ty w ty' w'" using grown_trans [OF w1(3) w'(2)] by simp
      have wk: "walk (phys_mem w) (Suc l) p v = walk (phys_mem w1) l ?t v"
        using walk_step [of l "phys_mem w1" p v] grownD(9) [OF w1(3), of p v] w1(4) p(1) by simp
      have "link (ty1 p) (phys_mem w1 p ?i)" using w1(4) p(1) t(1) by simp
      from grownD(11) [OF w'(2) this] have lt: "leaf_table (phys_mem w') (Suc l) p v = leaf_table (phys_mem w') l ?t v"
        using table_at_step [of 1 l "phys_mem w'" p v] p(2) t(1) by simp
      show ?thesis by (rule searchI [OF w'(1) g]) (unfold wk lt, rule ret(3))
    qed
    then show ?thesis by (simp only: res)
  qed
qed

text \<open>At the level of the leaves there is nothing more to look for.\<close>

lemma search_done:
  assumes "pt_ok ty r w" "ty p = 1"
  shows "search 0 1 ty r w p v (Done (Some (p * PAGE_SIZE), w))"
  by (rule searchI [OF assms(1) grown_refl]) simp

lemma and_then_Done: "and_then x (\<lambda>(t, w). case t of None \<Rightarrow> Done (None, w) | Some t' \<Rightarrow> Done (Some t', w)) = x"
  by (cases x) (auto split: option.splits)

lemma get_pt_ok:
  assumes ok: "pt_ok ty r w" and pm: "pm_pml4 pm = r * PAGE_SIZE"
  shows "search 3 4 ty r w r v (get_pt pm v flags w)"
proof -
  have pt: "search 1 2 ty1 r w1 t v (get_table (t * PAGE_SIZE) (ix 21 v) flags w1)" if "pt_ok ty1 r w1" "ty1 t = 2" for ty1 w1 t
    using search_step [OF that(1), of t 1 0 v "\<lambda>t w. Done (Some t, w)" flags] search_done that(2)
    by (simp add: and_then_Done numeral_2_eq_2)
  have pd: "search 2 3 ty1 r w1 t v (and_then (get_table (t * PAGE_SIZE) (ix 30 v) flags w1)
      (\<lambda>(pd, w2). case pd of None \<Rightarrow> Done (None, w2) | Some t2 \<Rightarrow> get_table t2 (ix 21 v) flags w2))"
    if "pt_ok ty1 r w1" "ty1 t = 3" for ty1 w1 t
    using search_step [OF that(1), of t 2 1 v "\<lambda>t2 w2. get_table t2 (ix 21 v) flags w2" flags] pt that(2)
    by (simp add: eval_nat_numeral)
  have "ty r = Suc 3" using pt_okD(3) [OF ok, of r] by simp
  from search_step [OF ok this _ pd, of flags] show ?thesis by (simp add: get_pt_def pm numeral_eq_Suc)
qed

section \<open>The functions that read the tables\<close>

definition leaf_phys :: "u64 \<Rightarrow> nat \<times> u64 \<Rightarrow> u64" where
  "leaf_phys v = (\<lambda>(l, e).
     if l = 1 then (e AND PTE_PHYS_MASK) OR (v AND 0xFFF)
     else if l = 2 then (e AND PTE_PHYS_MASK AND NOT 0x1FFFFF) OR (v AND 0x1FFFFF)
     else (e AND PTE_PHYS_MASK AND NOT 0x3FFFFFFF) OR (v AND 0x3FFFFFFF))"

lemma walk_4:
  "walk m 4 f v =
     (let e4 = m f (ix 39 v) in
      if \<not> has e4 VMM_PRESENT then None else if has e4 VMM_PSE then Some (4, e4) else walk m 3 (fr e4) v)"
  by (simp add: numeral_eq_Suc Let_def)

lemma walk_root:
  assumes "pt_ok ty r w"
  shows "walk (phys_mem w) 4 r v =
    (let e4 = phys_mem w r (ix 39 v) in if \<not> has e4 VMM_PRESENT then None else walk (phys_mem w) 3 (fr e4) v)"
  using pt_okD(8) [OF assms ix_less, of 39 v] by (simp add: walk_4 Let_def)

lemma walk_3:
  "walk m 3 f v =
     (let e3 = m f (ix 30 v) in
      if \<not> has e3 VMM_PRESENT then None else if has e3 VMM_PSE then Some (3, e3)
      else
        let e2 = m (fr e3) (ix 21 v) in
        if \<not> has e2 VMM_PRESENT then None else if has e2 VMM_PSE then Some (2, e2)
        else
          let e1 = m (fr e2) (ix 12 v) in if \<not> has e1 VMM_PRESENT then None else Some (1, e1))"
  by (simp add: numeral_eq_Suc Let_def)

lemma vmm_virt_to_phys_walk:
  assumes "pt_ok ty r w" "pm_pml4 pm = r * PAGE_SIZE"
  shows "vmm_virt_to_phys pm v w = map_option (leaf_phys v) (walk (phys_mem w) 4 r v)"
  unfolding walk_root [OF assms(1)] walk_3 vmm_virt_to_phys_def Let_def assms(2) entry_frame entry_pte_phys
  by (simp add: leaf_phys_def)

lemma vmm_get_page_flags_walk:
  assumes "pt_ok ty r w" "pm_pml4 pm = r * PAGE_SIZE"
  shows "vmm_get_page_flags pm v w = map_option (\<lambda>(l, e). e AND FLAG_BITS) (walk (phys_mem w) 4 r v)"
  unfolding walk_root [OF assms(1)] walk_3 vmm_get_page_flags_def Let_def assms(2) entry_frame entry_pte_phys
  by simp

section \<open>Mapping and unmapping a page\<close>

text \<open>Addresses of one page: the hardware ignores the bits above the four indices.\<close>

definition same_page :: "u64 \<Rightarrow> u64 \<Rightarrow> bool" where
  "same_page v v' \<longleftrightarrow> (\<forall>k<4. ix (12 + 9 * k) v = ix (12 + 9 * k) v')"

lemma table_at_cong:
  "(\<And>k. n \<le> k \<Longrightarrow> k < l \<Longrightarrow> ix (12 + 9 * k) v = ix (12 + 9 * k) v') \<Longrightarrow> table_at m n l f v = table_at m n l f v'"
proof (induction l arbitrary: f)
  case (Suc l)
  show ?case
  proof (cases "n \<le> l")
    case True
    then have "ix (12 + 9 * l) v = ix (12 + 9 * l) v'" using Suc.prems by simp
    moreover have "table_at m n l h v = table_at m n l h v'" for h by (rule Suc.IH) (simp add: Suc.prems)
    ultimately show ?thesis by (simp add: Let_def)
  next
    case False
    then show ?thesis using table_at_le [of m n "Suc l" f v] table_at_le [of m n "Suc l" f v']
      by (cases "n = Suc l"; cases "table_at m n (Suc l) f v"; cases "table_at m n (Suc l) f v'") auto
  qed
qed simp

lemma same_page_leaf:
  assumes ok: "pt_ok ty r w" and g: "leaf_table (phys_mem w) 4 r v = Some g"
  shows "leaf_table (phys_mem w) 4 r v' = Some g \<and> ix 12 v' = ix 12 v \<longleftrightarrow> same_page v v'"
proof
  have r: "ty r = 4" using pt_okD(3) [OF ok, of r] by simp
  assume a: "leaf_table (phys_mem w) 4 r v' = Some g \<and> ix 12 v' = ix 12 v"
  then have "\<forall>k. 1 \<le> k \<and> k < 4 \<longrightarrow> ix (12 + 9 * k) v = ix (12 + 9 * k) v'"
    using table_at_inj [OF pt_okD(7) [OF ok] r r g] by blast
  with a show "same_page v v'" unfolding same_page_def by (metis One_nat_def add.right_neutral less_one mult_0_right not_less)
next
  assume "same_page v v'"
  then have k: "\<And>k. k < 4 \<Longrightarrow> ix (12 + 9 * k) v = ix (12 + 9 * k) v'" by (simp add: same_page_def)
  then have "leaf_table (phys_mem w) 4 r v' = leaf_table (phys_mem w) 4 r v" by (intro table_at_cong) simp
  with g k [of 0] show "leaf_table (phys_mem w) 4 r v' = Some g \<and> ix 12 v' = ix 12 v" by simp
qed

text \<open>Storing an entry in the slot of an address changes what the addresses of its page are mapped to.\<close>

lemma set_leaf_ok:
  assumes ok: "pt_ok ty r w" and g: "leaf_table (phys_mem w) 4 r v = Some g"
  shows "pt_ok ty r (set_entry (g * PAGE_SIZE) (ix 12 v) e w)"
    "walk (phys_mem (set_entry (g * PAGE_SIZE) (ix 12 v) e w)) 4 r v' =
       (if same_page v v' then if has e VMM_PRESENT then Some (1, e) else None else walk (phys_mem w) 4 r v')"
proof -
  have r: "ty r = 4" using pt_okD(3) [OF ok, of r] by simp
  have g1: "ty g = 1" by (rule table_at_ty [OF pt_okD(7) [OF ok] r g])
  show "pt_ok ty r (set_entry (g * PAGE_SIZE) (ix 12 v) e w)"
    unfolding set_entry_poke by (rule pt_ok_poke_leaf [OF ok]) (simp add: g1)
  show "walk (phys_mem (set_entry (g * PAGE_SIZE) (ix 12 v) e w)) 4 r v' =
       (if same_page v v' then if has e VMM_PRESENT then Some (1, e) else None else walk (phys_mem w) 4 r v')"
    using walk_poke_leaf [OF pt_okD(7) [OF ok] r _ g1, of "ix 12 v" e v'] same_page_leaf [OF ok g, of v'] by simp
qed

text \<open>The entry that \<open>vmm_map_page\<close> stores.\<close>

definition map_entry :: "u64 \<Rightarrow> u64 \<Rightarrow> vmm \<Rightarrow> u64" where
  "map_entry phys flags w = ((phys AND PTE_PHYS_MASK) OR flags OR VMM_PRESENT) AND g_pte_mask w"

text \<open>Frames that are neither free nor tables keep their content.\<close>

definition others_kept :: "(nat \<Rightarrow> nat) \<Rightarrow> vmm \<Rightarrow> vmm \<Rightarrow> bool" where
  "others_kept ty w w' \<longleftrightarrow> (\<forall>h. ty h = 0 \<and> h \<notin> free_frames (vm_pmm w) \<longrightarrow> phys_mem w' h = phys_mem w h)"

lemma vmm_map_page_ok:
  assumes ok: "pt_ok ty r w" and pm: "pm_pml4 pm = r * PAGE_SIZE"
  shows "vmm_map_page pm v phys flags w = Hang \<and> card (free_frames (vm_pmm w)) < 3 \<or>
    (\<exists>okay w' ty' w1. vmm_map_page pm v phys flags w = Done (okay, w') \<and> pt_ok ty' r w' \<and> grown 3 ty w ty' w1 \<and>
       vm_pmm w' = vm_pmm w1 \<and> g_pte_mask w' = g_pte_mask w \<and> others_kept ty w w' \<and>
       (okay \<longleftrightarrow> \<not> large_at r v w) \<and>
       (\<forall>v'. walk (phys_mem w') 4 r v' =
         (if okay \<and> same_page v v'
          then if has (map_entry phys flags w) VMM_PRESENT then Some (1, map_entry phys flags w) else None
          else walk (phys_mem w) 4 r v')))"
proof -
  have r: "ty r = 4" using pt_okD(3) [OF ok, of r] by simp
  from get_pt_ok [OF ok pm, of v flags, unfolded search_def]
  consider "get_pt pm v flags w = Hang" "card (free_frames (vm_pmm w)) < 3"
    | (large) w1 ty1 where "pt_ok ty1 r w1" "grown 3 ty w ty1 w1" "get_pt pm v flags w = Done (None, w1)" "large_at r v w"
    | (found) w1 ty1 g where "pt_ok ty1 r w1" "grown 3 ty w ty1 w1" "get_pt pm v flags w = Done (Some (g * PAGE_SIZE), w1)"
        "leaf_table (phys_mem w1) 4 r v = Some g"
    unfolding large_at_def by blast
  then show ?thesis
  proof cases
    case 1
    then show ?thesis by (simp add: vmm_map_page_def)
  next
    case large
    have k: "others_kept ty w w1"
      unfolding others_kept_def using grownD(1,2,10) [OF large(2)] by metis
    have wk: "walk (phys_mem w1) 4 r v' = walk (phys_mem w) 4 r v'" for v'
      using grownD(9) [OF large(2), of r v'] by (simp only: r)
    have "vmm_map_page pm v phys flags w = Done (False, w1)" by (simp add: vmm_map_page_def large(3))
    with large k wk grownD(7) [OF large(2)] show ?thesis
      by (intro disjI2 exI [of _ False] exI [of _ w1] exI [of _ ty1]) simp
  next
    case found
    let ?e = "map_entry phys flags w" and ?w' = "set_entry (g * PAGE_SIZE) (ix 12 v) (map_entry phys flags w) w1"
    have r1: "ty1 r = 4" using pt_okD(3) [OF found(1), of r] by simp
    have g1: "ty1 g = 1" by (rule table_at_ty [OF pt_okD(7) [OF found(1)] r1 found(4)])
    have k: "others_kept ty w ?w'"
      unfolding others_kept_def
    proof (intro allI impI)
      fix h assume h: "ty h = 0 \<and> h \<notin> free_frames (vm_pmm w)"
      then have "ty1 h = 0" using grownD(1,2) [OF found(2), of h] by auto
      then show "phys_mem ?w' h = phys_mem w h" using grownD(10) [OF found(2)] g1 by (auto simp: poke_def)
    qed
    have wk: "walk (phys_mem w1) 4 r v' = walk (phys_mem w) 4 r v'" for v'
      using grownD(9) [OF found(2), of r v'] by (simp only: r)
    have "\<not> large_at r v w"
      using walk_leaf [OF _ found(4)] wk [of v] by (auto simp: large_at_def Let_def split: if_splits)
    moreover have "vmm_map_page pm v phys flags w = Done (True, ?w')"
      by (simp add: vmm_map_page_def found(3) map_entry_def grownD(7) [OF found(2)])
    moreover note set_leaf_ok [OF found(1,4), of ?e]
    ultimately show ?thesis using k wk found(2) grownD(7) [OF found(2)]
      by (intro disjI2 exI [of _ True] exI [of _ ?w'] exI [of _ ty1] exI [of _ w1]) simp
  qed
qed

lemma walk_leafE:
  assumes "walk m l f v = Some (1, e)" "0 < l" "\<And>l' e'. walk m l f v = Some (l', e') \<Longrightarrow> l' = 1"
  obtains g where "leaf_table m l f v = Some g" "m g (ix 12 v) = e" "has e VMM_PRESENT"
  using assms
proof (induction l arbitrary: f thesis)
  case (Suc l)
  show ?case
  proof (cases "l = 0")
    case True
    with Suc.prems show ?thesis by (auto simp: Let_def split: if_splits)
  next
    case False
    let ?e = "m f (ix (12 + 9 * l) v)"
    have k: "link (Suc l) ?e" using Suc.prems(2) False by (auto simp: link_def Let_def split: if_splits)
    then have w: "walk m (Suc l) f v = walk m l (fr ?e) v" by (rule walk_step)
    show ?thesis
    proof (rule Suc.IH [of "fr ?e"])
      fix g assume "leaf_table m l (fr ?e) v = Some g" "m g (ix 12 v) = e" "has e VMM_PRESENT"
      with Suc.prems(1) [of g] table_at_step [of 1 l m f v] k False show ?thesis by simp
    next
      show "walk m l (fr ?e) v = Some (1, e)" using Suc.prems(2) unfolding w .
      show "0 < l" using False by simp
      show "l' = 1" if "walk m l (fr ?e) v = Some (l', e')" for l' e' using that Suc.prems(4) unfolding w by blast
    qed
  qed
qed simp

lemma unmap_slot_leaf:
  assumes ok: "pt_ok ty r w" and pm: "pm_pml4 pm = r * PAGE_SIZE" and g: "leaf_table (phys_mem w) 4 r v = Some g"
  shows "unmap_slot pm v w = Some (g * PAGE_SIZE)"
  using g unfolding unmap_slot_def pm entry_frame Let_def
  by (simp add: numeral_eq_Suc Let_def link_def pte_phys_fr split: if_splits)

text \<open>Unmapping a page gives its frame back, unless it is shared, and leaves the other pages alone.\<close>

lemma vmm_unmap_page_ok:
  assumes ok: "pt_ok ty r w" and pm: "pm_pml4 pm = r * PAGE_SIZE" and e: "walk (phys_mem w) 4 r v = Some (1, e)"
    and fr: "has e VMM_SHARED \<or> ty (fr e) = 0 \<and> page_at (vm_pmm w) (fr e) \<and> fr e \<notin> free_frames (vm_pmm w)"
  shows "\<exists>w'. vmm_unmap_page pm v w = Done w' \<and> pt_ok ty r w' \<and>
    free_frames (vm_pmm w') = (if has e VMM_SHARED then {} else {fr e}) \<union> free_frames (vm_pmm w) \<and>
    mem_end (vm_pmm w') = mem_end (vm_pmm w) \<and> hhdm_offset (vm_pmm w') = hhdm_offset (vm_pmm w) \<and>
    g_pte_mask w' = g_pte_mask w \<and> (\<forall>h. ty h = 0 \<longrightarrow> phys_mem w' h = phys_mem w h) \<and>
    (\<forall>v'. walk (phys_mem w') 4 r v' = (if same_page v v' then None else walk (phys_mem w) 4 r v'))"
proof -
  obtain g where g: "leaf_table (phys_mem w) 4 r v = Some g" "phys_mem w g (ix 12 v) = e" "has e VMM_PRESENT"
    by (rule walk_leafE [OF e]) (use e in auto)
  let ?w1 = "set_entry (g * PAGE_SIZE) (ix 12 v) 0 w"
  note sl = set_leaf_ok [OF ok g(1), of 0]
  have r: "ty r = 4" using pt_okD(3) [OF ok, of r] by simp
  have g1: "ty g = 1" by (rule table_at_ty [OF pt_okD(7) [OF ok] r g(1)])
  have keep: "\<forall>h. ty h = 0 \<longrightarrow> phys_mem ?w1 h = phys_mem w h" using g1 by (auto simp: poke_def)
  have um: "vmm_unmap_page pm v w = (if \<not> has e VMM_SHARED \<and> pte_phys e \<ge> PMM_FREE_MIN_PHYS then free_page (pte_phys e) 1 ?w1 else Done ?w1)"
    using g by (simp add: vmm_unmap_page_def unmap_slot_leaf [OF ok pm g(1)] Let_def)
  show ?thesis
  proof (cases "has e VMM_SHARED")
    case True
    then show ?thesis using um sl keep by simp
  next
    case False
    with fr have f: "ty (fr e) = 0" "page_at (vm_pmm w) (fr e)" "fr e \<notin> free_frames (vm_pmm w)" by auto
    from free_one [OF pt_okD(1) [OF ok] f(2,3)] obtain s' where s': "pmm_free (phys_to_virt (vm_pmm w) (fr e * PAGE_SIZE)) 1 (vm_pmm w) = Done s'"
      "pmm_wf s'" "mem_end s' = mem_end (vm_pmm w)" "hhdm_offset s' = hhdm_offset (vm_pmm w)"
      "free_frames s' = insert (fr e) (free_frames (vm_pmm w))" by auto
    have "PMM_FREE_MIN_PHYS \<le> pte_phys e" using f(2) by (simp add: page_at_iff pte_phys_fr)
    then have "vmm_unmap_page pm v w = Done (?w1\<lparr>vm_pmm := s'\<rparr>)" using um False s'(1) by (simp add: free_page_def pte_phys_fr)
    moreover have "pt_ok ty r (?w1\<lparr>vm_pmm := s'\<rparr>)"
      unfolding pt_ok_def using s' f(1) sl(1) page_at_cong [OF s'(3)] by (auto simp: pt_ok_def)
    ultimately show ?thesis using s' sl keep False by simp
  qed
qed

section \<open>New page maps\<close>

text \<open>Taking a frame for some other use keeps the tree.\<close>

lemma took_ok:
  assumes ok: "pt_ok ty r w" and t: "took f w w1"
  shows "pt_ok ty r w1" "ty f = 0" "f \<notin> free_frames (vm_pmm w1)" "page_at (vm_pmm w1) f"
    "ty h \<noteq> 0 \<Longrightarrow> phys_mem w1 h = phys_mem w h"
    "walk (phys_mem w1) 4 r v = walk (phys_mem w) 4 r v"
proof -
  from t obtain s' where s': "w1 = w\<lparr>vm_pmm := s', phys_mem := (phys_mem w)(f := (\<lambda>_. 0))\<rparr>" "pmm_wf s'"
    "mem_end s' = mem_end (vm_pmm w)" "page_at (vm_pmm w) f" "f \<in> free_frames (vm_pmm w)"
    "free_frames s' = free_frames (vm_pmm w) - {f}" by (auto simp: took_def)
  show f0: "ty f = 0" using pt_okD(6) [OF ok, of f] s'(5) by (cases "ty f = 0") simp_all
  show same: "phys_mem w1 h = phys_mem w h" if "ty h \<noteq> 0" for h using that f0 by (auto simp: s'(1))
  show "f \<notin> free_frames (vm_pmm w1)" "page_at (vm_pmm w1) f" using s' page_at_cong [OF s'(3)] by (simp_all add: s'(1))
  have r: "ty r = 4" using pt_okD(3) [OF ok, of r] by simp
  have "links_ok ty (phys_mem w1)" by (rule links_ok_cong [OF pt_okD(7) [OF ok]]) (simp add: same)
  moreover have "phys_mem w1 r = phys_mem w r" by (rule same) (simp add: r)
  moreover have "vm_pmm w1 = s'" by (simp add: s'(1))
  ultimately show "pt_ok ty r w1"
    unfolding pt_ok_def using s'(2,3,6) pt_okD(2-6,8) [OF ok] by (simp add: page_at_cong [OF s'(3)])
  show "walk (phys_mem w1) 4 r v = walk (phys_mem w) 4 r v"
    by (rule walk_refines [OF pt_okD(7) [OF ok] _ r]) (simp add: same refines_def)
qed

lemma fold_set_entry:
  "distinct is \<Longrightarrow> fold (\<lambda>i. set_entry (t * PAGE_SIZE) i (h i)) is w =
   w\<lparr>phys_mem := (phys_mem w)(t := (\<lambda>i. if i \<in> set is then h i else phys_mem w t i))\<rparr>"
proof (induction "is" arbitrary: w)
  case (Cons i "is")
  let ?m = "poke (phys_mem w) t i (h i)"
  have "?m(t := (\<lambda>j. if j \<in> set is then h j else ?m t j)) =
    (phys_mem w)(t := (\<lambda>j. if j \<in> set (i # is) then h j else phys_mem w t j))"
    by (auto simp: fun_eq_iff poke_def)
  moreover have "distinct is" using Cons.prems by simp
  moreover have "set_entry (t * PAGE_SIZE) i (h i) w\<lparr>phys_mem := m\<rparr> = w\<lparr>phys_mem := m\<rparr>" for m by (simp add: set_entry_poke)
  ultimately show ?case by (simp only: fold_Cons o_apply Cons.IH set_entry_mem(1))
qed simp

lemma copy_kernel_half_eq:
  "copy_kernel_half (t * PAGE_SIZE) w =
   w\<lparr>phys_mem := (phys_mem w)(t := (\<lambda>i. if 256 \<le> i \<and> i < 512 then entry w (kernel_pml4 w) i else phys_mem w t i))\<rparr>"
  unfolding copy_kernel_half_def fold_set_entry [OF distinct_upt] set_upt atLeastLessThan_iff by (rule refl)

text \<open>The new root takes the place of the kernel's in the typing; its upper half links to the same tables.\<close>

lemma new_root:
  assumes ok: "pt_ok ty rk w" and t: "ty t = 0" "page_at (vm_pmm w) t" "t \<notin> free_frames (vm_pmm w)"
    and m: "\<And>h. ty h \<noteq> 0 \<Longrightarrow> m h = phys_mem w h" "\<And>i. m t i = (if 256 \<le> i \<and> i < 512 then phys_mem w rk i else 0)"
  shows "pt_ok (ty(rk := 0, t := 4)) t (w\<lparr>phys_mem := m\<rparr>)" "walk m 4 t v = (if ix 39 v < 256 then None else walk (phys_mem w) 4 rk v)"
    "pt_ok ty rk (w\<lparr>phys_mem := m\<rparr>)" "walk m 4 rk v = walk (phys_mem w) 4 rk v"
proof -
  let ?m = "phys_mem w" and ?ty = "ty(rk := 0, t := 4)"
  have rk: "ty rk = 4" using pt_okD(3) [OF ok, of rk] by simp
  then have tr: "t \<noteq> rk" using t(1) by auto
  note lk = pt_okD(7) [OF ok]
  have src: "\<exists>g'. ty g' = ?ty g \<and> m g j = ?m g' j \<and> (g' = (if g = t then rk else g)) \<and> g \<noteq> rk" if "link (?ty g) (m g j)" for g j
    using that rk tr t(1) m by (cases "g = t") (auto simp: link_def split: if_splits)
  have "links_ok ?ty m"
  proof (rule links_okI)
    fix g j assume j: "j < 512" and k: "link (?ty g) (m g j)"
    from src [OF k] obtain g' where g': "ty g' = ?ty g" "m g j = ?m g' j" by auto
    have c: "ty (fr (?m g' j)) = ty g' - 1" using links_okD(1) [OF lk j, of g'] k g' by simp
    moreover have "ty g' \<le> 4" "2 \<le> ty g'" using pt_okD(4) [OF ok] k g' by (auto simp: link_def)
    ultimately have "fr (?m g' j) \<noteq> rk" "fr (?m g' j) \<noteq> t" using rk t(1) by auto
    with c g' show "?ty (fr (m g j)) = ?ty g - 1" by simp
  next
    fix g h j k assume b: "j < 512" "k < 512" and kk: "link (?ty g) (m g j)" "link (?ty h) (m h k)" and eq: "fr (m g j) = fr (m h k)"
    from src [OF kk(1)] obtain g' where g': "ty g' = ?ty g" "m g j = ?m g' j" "g' = (if g = t then rk else g)" "g \<noteq> rk" by auto
    from src [OF kk(2)] obtain h' where h': "ty h' = ?ty h" "m h k = ?m h' k" "h' = (if h = t then rk else h)" "h \<noteq> rk" by auto
    have "g' = h' \<and> j = k" using links_okD(2) [OF lk b(1) _ b(2), of g' h'] kk eq g'(1,2) h'(1,2) by simp
    with g'(3,4) h'(3,4) show "g = h \<and> j = k" by (auto split: if_splits)
  qed
  then show "pt_ok ?ty t (w\<lparr>phys_mem := m\<rparr>)"
    unfolding pt_ok_def using pt_okD(1-6,8) [OF ok] t m(2) by auto
  have "links_ok ty m" by (rule links_ok_cong [OF lk]) (simp add: m(1))
  then show "pt_ok ty rk (w\<lparr>phys_mem := m\<rparr>)"
    unfolding pt_ok_def using pt_okD(1-6,8) [OF ok] m(1) [of rk] rk by simp
  have wk: "walk m (ty h) h v = walk ?m (ty h) h v" for h by (rule walk_refines [OF lk]) (simp_all add: m(1) refines_def)
  from this [of rk] show "walk m 4 rk v = walk ?m 4 rk v" by (simp only: rk)
  show "walk m 4 t v = (if ix 39 v < 256 then None else walk ?m 4 rk v)"
  proof (cases "ix 39 v < 256")
    case True
    then show ?thesis by (simp add: walk_4 m(2))
  next
    case False
    let ?e = "?m rk (ix 39 v)"
    have same: "m t (ix 39 v) = ?e" using False ix_less [of 39 v] by (simp add: m(2))
    show ?thesis
    proof (cases "has ?e VMM_PRESENT")
      case True
      then have k: "\<not> has ?e VMM_PSE" by (rule pt_okD(8) [OF ok ix_less])
      with True have "link (ty rk) ?e" using rk by (simp add: link_def)
      then have "ty (fr ?e) = 3" using links_okD(1) [OF lk ix_less, of rk 39 v] rk by simp
      with wk [of "fr ?e"] k same False True show ?thesis by (simp add: walk_4)
    next
      case np: False
      then show ?thesis by (simp add: walk_4 same)
    qed
  qed
qed

lemma vmm_create_pagemap_ok:
  assumes ok: "pt_ok ty rk w" and k: "kernel_pml4 w = rk * PAGE_SIZE"
  shows "vmm_create_pagemap w = Hang \<and> card (free_frames (vm_pmm w)) < 2 \<or>
    (\<exists>w'. vmm_create_pagemap w = Done (None, w') \<and> free_frames (vm_pmm w) = {}) \<or>
    (\<exists>pm w' t. vmm_create_pagemap w = Done (Some pm, w') \<and> pm_pml4 pm = t * PAGE_SIZE \<and> kernel_pml4 w' = kernel_pml4 w \<and>
       pt_ok (ty(rk := 0, t := 4)) t w' \<and> pt_ok ty rk w' \<and> g_pte_mask w' = g_pte_mask w \<and>
       (\<forall>v. walk (phys_mem w') 4 t v = (if ix 39 v < 256 then None else walk (phys_mem w) 4 rk v)) \<and>
       (\<forall>v. walk (phys_mem w') 4 rk v = walk (phys_mem w) 4 rk v))"
proof -
  from alloc_zero_ok [OF pt_okD(1) [OF ok]]
  consider (none) w' where "pmm_alloc_zero 1 w = Done (0, w')" "free_frames (vm_pmm w) = {}"
    | (map) p f w1 where "pmm_alloc_zero 1 w = Done (p, w1)" "p \<noteq> 0" "virt_to_phys (vm_pmm w1) p = f * PAGE_SIZE" "took f w w1"
    by blast
  then show ?thesis
  proof cases
    case none
    then show ?thesis by (simp add: vmm_create_pagemap_def)
  next
    case map
    note t1 = took_ok [OF ok map(4)]
    from alloc_table_ok [OF pt_okD(1) [OF t1(1)]] show ?thesis
    proof (elim disjE exE conjE)
      assume h: "alloc_table w1 = Hang" "free_frames (vm_pmm w1) = {}"
      have "free_frames (vm_pmm w) \<subseteq> {f}" using h(2) tookD(6) [OF map(4)] by auto
      then have "card (free_frames (vm_pmm w)) \<le> card {f}" by (intro card_mono) simp_all
      then show ?thesis using h(1) map by (simp add: vmm_create_pagemap_def)
    next
      fix t w2 assume al: "alloc_table w1 = Done (t * PAGE_SIZE, w2)" and tk: "took t w1 w2"
      note t2 = took_ok [OF t1(1) tk]
      have ft: "f \<noteq> t" using t1(3) tookD(5) [OF tk] by auto
      have v2: "virt_to_phys (vm_pmm w2) p = f * PAGE_SIZE" using map(3) by (simp add: tookD(1) [OF tk])
      have kp: "kernel_pml4 w2 = rk * PAGE_SIZE" using k by (simp add: tookD(2) [OF tk] tookD(2) [OF map(4)])
      have rk: "ty rk = 4" using pt_okD(3) [OF ok, of rk] by simp
      then have rf: "rk \<noteq> f" "rk \<noteq> t" using t1(2) t2(2) by auto
      let ?w2 = "set_entry (f * PAGE_SIZE) 0 (phys_to_virt (vm_pmm w2) (t * PAGE_SIZE)) w2"
      define w3 where "w3 = copy_kernel_half (t * PAGE_SIZE) ?w2"
      have m3: "phys_mem w3 = (phys_mem ?w2)(t := (\<lambda>i. if 256 \<le> i \<and> i < 512 then phys_mem w2 rk i else phys_mem w2 t i))"
        using ft rf kp by (simp add: w3_def copy_kernel_half_eq poke_def cong: if_cong)
      have w3: "w3 = w2\<lparr>phys_mem := phys_mem w3\<rparr>" by (simp add: w3_def copy_kernel_half_eq set_entry_poke)
      have old: "phys_mem w3 h = phys_mem w2 h" if "ty h \<noteq> 0" for h using that t1(2) t2(2) by (auto simp: m3 poke_def)
      have new: "phys_mem w3 t i = (if 256 \<le> i \<and> i < 512 then phys_mem w2 rk i else 0)" for i
        by (simp add: m3 tookD(4) [OF tk])
      note nr = new_root [OF t2(1) t2(2,4,3) old new, folded w3]
      have cr: "vmm_create_pagemap w = Done (Some \<lparr>pm_self = p, pm_pml4 = t * PAGE_SIZE\<rparr>, w3)"
        using map al by (simp add: vmm_create_pagemap_def v2 w3_def)
      have wk: "walk (phys_mem w2) 4 rk v = walk (phys_mem w) 4 rk v" for v using t1(6) t2(6) by simp
      have "kernel_pml4 w3 = kernel_pml4 w" "g_pte_mask w3 = g_pte_mask w"
        by (simp_all add: w3_def copy_kernel_half_eq tookD(2,3) [OF tk] tookD(2,3) [OF map(4)])
      with cr nr wk show ?thesis
        by (intro disjI2 exI [of _ "\<lparr>pm_self = p, pm_pml4 = t * PAGE_SIZE\<rparr>"] exI [of _ w3] exI [of _ t]) simp
    qed
  qed
qed

lemma walk_same_page:
  assumes "same_page v v'"
  shows "walk m 4 f v = walk m 4 f v'"
proof -
  have "walk m l f v = walk m l f v'" if "l \<le> 4" for l using that
  proof (induction l arbitrary: f)
    case (Suc l)
    then have "ix (12 + 9 * l) v = ix (12 + 9 * l) v'" using assms by (simp add: same_page_def)
    with Suc show ?case by (simp add: Let_def)
  qed simp
  then show ?thesis by simp
qed

lemma same_page_refl [simp]: "same_page v v" by (simp add: same_page_def)

lemma same_page_sym: "same_page v v' \<Longrightarrow> same_page v' v" by (simp add: same_page_def)

text \<open>The two values that \<open>nx_setup\<close> gives the mask of an entry.\<close>

definition mask_ok :: "u64 \<Rightarrow> bool" where "mask_ok m \<longleftrightarrow> m = NOT 0 \<or> m = NOT VMM_NOEXEC"

lemma mask_ok_and:
  assumes "mask_ok m" "b AND VMM_NOEXEC = 0"
  shows "(e AND m) AND b = e AND b"
proof -
  have "NOT VMM_NOEXEC AND b = (b AND VMM_NOEXEC) OR (b AND NOT VMM_NOEXEC)" using assms(2) by (simp add: and.commute)
  also have "\<dots> = b AND (VMM_NOEXEC OR NOT VMM_NOEXEC)" by (rule bit.conj_disj_distrib [symmetric])
  finally have "NOT VMM_NOEXEC AND b = b" by simp
  with assms(1) show ?thesis by (auto simp: mask_ok_def and.assoc)
qed

lemma map_entry_ok:
  assumes m: "mask_ok (g_pte_mask w)" and f: "f < 2 ^ 40" and fl: "flags AND PTE_PHYS_MASK = 0"
  shows "has (map_entry (of_nat (f * PAGE_SIZE)) flags w) VMM_PRESENT" "fr (map_entry (of_nat (f * PAGE_SIZE)) flags w) = f"
    "has (map_entry (of_nat (f * PAGE_SIZE)) flags w) VMM_SHARED \<longleftrightarrow> has flags VMM_SHARED"
proof -
  let ?e0 = "(of_nat (f * PAGE_SIZE) AND PTE_PHYS_MASK) OR flags OR VMM_PRESENT"
  have c: "VMM_PRESENT AND VMM_NOEXEC = 0" "VMM_SHARED AND VMM_NOEXEC = 0" "PTE_PHYS_MASK AND VMM_NOEXEC = 0"
    "PTE_PHYS_MASK AND VMM_SHARED = 0" "\<not> has VMM_PRESENT VMM_SHARED" "has VMM_PRESENT VMM_PRESENT" "VMM_PRESENT AND PTE_PHYS_MASK = 0"
    by (simp_all add: vmm_bits PTE_PHYS_MASK_def has_def)
  show "has (map_entry (of_nat (f * PAGE_SIZE)) flags w) VMM_PRESENT"
    unfolding has_def map_entry_def mask_ok_and [OF m c(1)] using c(6) by (simp add: has_def [symmetric] has_or)
  have "has ?e0 VMM_SHARED \<longleftrightarrow> has flags VMM_SHARED" using c(4,5) by (simp add: has_or) (simp add: has_def and.assoc)
  then show "has (map_entry (of_nat (f * PAGE_SIZE)) flags w) VMM_SHARED \<longleftrightarrow> has flags VMM_SHARED"
    unfolding has_def map_entry_def mask_ok_and [OF m c(2)] .
  have "?e0 AND PTE_PHYS_MASK = (of_nat (f * PAGE_SIZE) OR 0) AND PTE_PHYS_MASK"
    using fl c(7) by (simp add: bit.conj_disj_distrib2 and.assoc)
  then have "fr (map_entry (of_nat (f * PAGE_SIZE)) flags w) = fr (of_nat (f * PAGE_SIZE) OR 0)"
    unfolding fr_def pte_phys_def map_entry_def mask_ok_and [OF m c(3)] by simp
  then show "fr (map_entry (of_nat (f * PAGE_SIZE)) flags w) = f" by (simp add: fr_entry [OF f, of 0, simplified])
qed

lemma leaf_phys_frame: "leaf_phys v (1, e) = of_nat (fr e * PAGE_SIZE) OR (v AND 0xFFF)"
  by (simp add: leaf_phys_def flip: pte_phys_fr) (simp add: pte_phys_def)

end
