(* ===== verification/Vmm_Client.thy ===== *)
theory Vmm_Client
  imports Vmm_Correct
begin

unbundle bit_operations_syntax

text \<open>
  A client of the page tables and of the page allocator below them, and the invariant of its runs.
  It takes frames from the allocator, maps them and unmaps them.  \<open>held\<close> are the frames it has
  and has not mapped, \<open>maps\<close> the pages it has mapped, with their frames.
\<close>

definition plain_flags :: "u64 \<Rightarrow> bool" where
  "plain_flags flags \<longleftrightarrow> flags AND PTE_PHYS_MASK = 0 \<and> \<not> has flags VMM_SHARED"

inductive vm_run :: "vmm_pagemap \<Rightarrow> vmm \<Rightarrow> vmm \<times> nat set \<times> (u64 \<times> nat) set \<Rightarrow> bool" for pm w0 where
  start: "vm_run pm w0 (w0, {}, {})"
| take: "vm_run pm w0 (w, held, maps) \<Longrightarrow> pmm_alloc_zero 1 w = Done (p, w') \<Longrightarrow> p \<noteq> 0 \<Longrightarrow>
    vm_run pm w0 (w', insert (virt_to_phys (vm_pmm w') p div PAGE_SIZE) held, maps)"
| map: "vm_run pm w0 (w, held, maps) \<Longrightarrow> f \<in> held \<Longrightarrow> plain_flags flags \<Longrightarrow> vmm_virt_to_phys pm v w = None \<Longrightarrow>
    vmm_map_page pm v (of_nat (f * PAGE_SIZE)) flags w = Done (True, w') \<Longrightarrow>
    vm_run pm w0 (w', held - {f}, insert (v, f) maps)"
| unmap: "vm_run pm w0 (w, held, maps) \<Longrightarrow> (v, f) \<in> maps \<Longrightarrow> vmm_unmap_page pm v w = Done w' \<Longrightarrow>
    vm_run pm w0 (w', held, maps - {(v, f)})"

text \<open>Frames in use by the client: allocated, not tables, each used once.\<close>

definition owned_frame :: "(nat \<Rightarrow> nat) \<Rightarrow> vmm \<Rightarrow> nat \<Rightarrow> bool" where
  "owned_frame ty w f \<longleftrightarrow> ty f = 0 \<and> page_at (vm_pmm w) f \<and> f \<notin> free_frames (vm_pmm w)"

definition mapped_to :: "nat \<Rightarrow> vmm \<Rightarrow> u64 \<Rightarrow> nat \<Rightarrow> bool" where
  "mapped_to r w v f \<longleftrightarrow> (\<exists>e. walk (phys_mem w) 4 r v = Some (1, e) \<and> fr e = f \<and> \<not> has e VMM_SHARED)"

text \<open>An address that lies in none of the mapped pages.\<close>

definition outside :: "(u64 \<times> nat) set \<Rightarrow> u64 \<Rightarrow> bool" where
  "outside maps v' \<longleftrightarrow> (\<forall>v f. (v, f) \<in> maps \<longrightarrow> \<not> same_page v v')"

text \<open>The client's frames and the memory they came from: the free frames and the tables of the start.\<close>

definition vm_inv ::
  "(nat \<Rightarrow> nat) \<Rightarrow> vmm \<Rightarrow> (nat \<Rightarrow> nat) \<Rightarrow> nat \<Rightarrow> vmm \<Rightarrow> nat set \<Rightarrow> (u64 \<times> nat) set \<Rightarrow> bool" where
  "vm_inv ty0 w0 ty r w held maps \<longleftrightarrow>
     pt_ok ty r w \<and> g_pte_mask w = g_pte_mask w0 \<and>
     (\<forall>f\<in>held \<union> snd ` maps. owned_frame ty w f) \<and> held \<inter> snd ` maps = {} \<and> inj_on snd maps \<and>
     (\<forall>v f. (v, f) \<in> maps \<longrightarrow> mapped_to r w v f \<and> walk (phys_mem w0) 4 r v = None) \<and>
     (\<forall>v f v' f'. (v, f) \<in> maps \<and> (v', f') \<in> maps \<and> same_page v v' \<longrightarrow> v = v' \<and> f = f') \<and>
     (\<forall>v'. outside maps v' \<longrightarrow> walk (phys_mem w) 4 r v' = walk (phys_mem w0) 4 r v') \<and>
     free_frames (vm_pmm w) \<union> held \<union> snd ` maps \<union> {f. ty f \<noteq> 0} = free_frames (vm_pmm w0) \<union> {f. ty0 f \<noteq> 0}"

lemma vm_invD:
  assumes "vm_inv ty0 w0 ty r w held maps"
  shows "pt_ok ty r w" "g_pte_mask w = g_pte_mask w0" "f \<in> held \<union> snd ` maps \<Longrightarrow> owned_frame ty w f"
    "held \<inter> snd ` maps = {}" "inj_on snd maps" "(v, f) \<in> maps \<Longrightarrow> mapped_to r w v f"
    "(v, f) \<in> maps \<Longrightarrow> walk (phys_mem w0) 4 r v = None"
    "(v, f) \<in> maps \<Longrightarrow> (v', f') \<in> maps \<Longrightarrow> same_page v v' \<Longrightarrow> v = v' \<and> f = f'"
    "outside maps v' \<Longrightarrow> walk (phys_mem w) 4 r v' = walk (phys_mem w0) 4 r v'"
    "free_frames (vm_pmm w) \<union> held \<union> snd ` maps \<union> {f. ty f \<noteq> 0} = free_frames (vm_pmm w0) \<union> {f. ty0 f \<noteq> 0}"
proof -
  note d = assms [unfolded vm_inv_def]
  from d show "pt_ok ty r w" by (elim conjE)
  from d show "g_pte_mask w = g_pte_mask w0" by (elim conjE)
  from d show "held \<inter> snd ` maps = {}" by (elim conjE)
  from d show "inj_on snd maps" by (elim conjE)
  from d show "free_frames (vm_pmm w) \<union> held \<union> snd ` maps \<union> {f. ty f \<noteq> 0} = free_frames (vm_pmm w0) \<union> {f. ty0 f \<noteq> 0}"
    by (elim conjE)
  from d show "f \<in> held \<union> snd ` maps \<Longrightarrow> owned_frame ty w f" by (elim conjE) (erule (1) bspec)
  from d show "(v, f) \<in> maps \<Longrightarrow> mapped_to r w v f" by (elim conjE) simp
  from d show "(v, f) \<in> maps \<Longrightarrow> walk (phys_mem w0) 4 r v = None" by (elim conjE) simp
  from d show "(v, f) \<in> maps \<Longrightarrow> (v', f') \<in> maps \<Longrightarrow> same_page v v' \<Longrightarrow> v = v' \<and> f = f'" by (elim conjE) blast
  from d show "outside maps v' \<Longrightarrow> walk (phys_mem w) 4 r v' = walk (phys_mem w0) 4 r v'"
    by (elim conjE) simp
qed

lemma vm_invI:
  assumes "pt_ok ty r w" "g_pte_mask w = g_pte_mask w0" "\<And>f. f \<in> held \<union> snd ` maps \<Longrightarrow> owned_frame ty w f"
    "held \<inter> snd ` maps = {}" "inj_on snd maps" "\<And>v f. (v, f) \<in> maps \<Longrightarrow> mapped_to r w v f"
    "\<And>v f. (v, f) \<in> maps \<Longrightarrow> walk (phys_mem w0) 4 r v = None"
    "\<And>v f v' f'. (v, f) \<in> maps \<Longrightarrow> (v', f') \<in> maps \<Longrightarrow> same_page v v' \<Longrightarrow> v = v' \<and> f = f'"
    "\<And>v'. outside maps v' \<Longrightarrow> walk (phys_mem w) 4 r v' = walk (phys_mem w0) 4 r v'"
    "free_frames (vm_pmm w) \<union> held \<union> snd ` maps \<union> {f. ty f \<noteq> 0} = free_frames (vm_pmm w0) \<union> {f. ty0 f \<noteq> 0}"
  shows "vm_inv ty0 w0 ty r w held maps"
  unfolding vm_inv_def
  by (intro conjI allI impI ballI assms; (elim conjE)?; (assumption | simp))

lemma mapped_to_cong: "walk (phys_mem w') 4 r v = walk (phys_mem w) 4 r v \<Longrightarrow> mapped_to r w' v f = mapped_to r w v f"
  by (simp add: mapped_to_def)

lemma take_inv:
  assumes i: "vm_inv ty0 w0 ty r w held maps" and t: "took f w w'"
  shows "vm_inv ty0 w0 ty r w' (insert f held) maps"
proof (rule vm_invI)
  note ok = vm_invD(1) [OF i] note tk = took_ok [OF ok t] note fr' = tookD(5,6) [OF t]
  have me: "page_at (vm_pmm w') g = page_at (vm_pmm w) g" for g
    by (rule page_at_cong [OF tookD(7) [OF t]])
  have own: "owned_frame ty w' g" if "owned_frame ty w g" for g
    using that fr' by (simp add: owned_frame_def me)
  have new: "f \<notin> held \<union> snd ` maps" using vm_invD(3) [OF i, of f] fr'(1) unfolding owned_frame_def by blast
  show "pt_ok ty r w'" by (rule tk(1))
  show "g_pte_mask w' = g_pte_mask w0" using tookD(3) [OF t] vm_invD(2) [OF i] by simp
  show "owned_frame ty w' g" if "g \<in> insert f held \<union> snd ` maps" for g
  proof (cases "g = f")
    case True
    then show ?thesis using tk(2-4) by (simp add: owned_frame_def)
  next
    case False
    then show ?thesis using that by (intro own vm_invD(3) [OF i]) simp
  qed
  show "insert f held \<inter> snd ` maps = {}" using new vm_invD(4) [OF i] by simp
  show "inj_on snd maps" by (rule vm_invD(5) [OF i])
  show "mapped_to r w' v g" if "(v, g) \<in> maps" for v g
    unfolding mapped_to_cong [OF tk(6)] by (rule vm_invD(6) [OF i that])
  show "walk (phys_mem w0) 4 r v = None" if "(v, g) \<in> maps" for v g by (rule vm_invD(7) [OF i that])
  show "v = v' \<and> g = g'" if "(v, g) \<in> maps" "(v', g') \<in> maps" "same_page v v'" for v g v' g' by (rule vm_invD(8) [OF i that])
  show "walk (phys_mem w') 4 r v' = walk (phys_mem w0) 4 r v'" if "outside maps v'" for v'
    unfolding tk(6) by (rule vm_invD(9) [OF i that])
  show "free_frames (vm_pmm w') \<union> insert f held \<union> snd ` maps \<union> {f. ty f \<noteq> 0} = free_frames (vm_pmm w0) \<union> {f. ty0 f \<noteq> 0}"
    unfolding vm_invD(10) [OF i, symmetric] fr'(2) using fr'(1) by blast
qed

lemma map_inv:
  assumes i: "vm_inv ty0 w0 ty r w held maps" and f: "f \<in> held" and v: "walk (phys_mem w) 4 r v = None"
    and g: "grown 3 ty w ty' w1" and p: "vm_pmm w' = vm_pmm w1" and m: "g_pte_mask w' = g_pte_mask w" and ok: "pt_ok ty' r w'"
    and e: "fr e = f" "\<not> has e VMM_SHARED"
    and wk: "\<And>v'. walk (phys_mem w') 4 r v' = (if same_page v v' then Some (1, e) else walk (phys_mem w) 4 r v')"
  shows "vm_inv ty0 w0 ty' r w' (held - {f}) (insert (v, f) maps)"
proof (rule vm_invI)
  have sep: "\<not> same_page v v2" if "(v2, f2) \<in> maps" for v2 f2
  proof
    assume "same_page v v2"
    then have "walk (phys_mem w) 4 r v2 = None" using walk_same_page v by metis
    with vm_invD(6) [OF i that] show False by (simp add: mapped_to_def)
  qed
  have v0: "walk (phys_mem w0) 4 r v = None"
    using vm_invD(9) [OF i, of v] v sep same_page_sym unfolding outside_def by (metis (no_types))
  have own: "owned_frame ty' w' h" if h: "owned_frame ty w h" for h
  proof -
    have "ty' h = ty h" using grownD(2) [OF g, of h] h unfolding owned_frame_def by blast
    then show ?thesis
      using h page_at_cong [OF grownD(5) [OF g], of h] grownD(3) [OF g] by (simp add: owned_frame_def p)
  qed
  have fm: "f \<notin> snd ` maps" using vm_invD(4) [OF i] f by blast
  show "pt_ok ty' r w'" by (rule ok)
  show "g_pte_mask w' = g_pte_mask w0" using m vm_invD(2) [OF i] by simp
  show "owned_frame ty' w' h" if "h \<in> (held - {f}) \<union> snd ` insert (v, f) maps" for h
    by (rule own, rule vm_invD(3) [OF i]) (use that f in auto)
  show "(held - {f}) \<inter> snd ` insert (v, f) maps = {}" using vm_invD(4) [OF i] by auto
  show "inj_on snd (insert (v, f) maps)" using vm_invD(5) [OF i] fm by auto
  show "mapped_to r w' v2 f2" if "(v2, f2) \<in> insert (v, f) maps" for v2 f2
  proof (cases "(v2, f2) = (v, f)")
    case True
    then show ?thesis using e wk [of v] by (simp add: mapped_to_def)
  next
    case False
    with that have k: "(v2, f2) \<in> maps" by blast
    then show ?thesis using vm_invD(6) [OF i k] sep [OF k] wk [of v2] by (simp add: mapped_to_def)
  qed
  show "walk (phys_mem w0) 4 r v2 = None" if "(v2, f2) \<in> insert (v, f) maps" for v2 f2
    using that v0 vm_invD(7) [OF i, of v2 f2] by blast
  show "v2 = v3 \<and> f2 = f3" if "(v2, f2) \<in> insert (v, f) maps" "(v3, f3) \<in> insert (v, f) maps" "same_page v2 v3" for v2 f2 v3 f3
    using that sep [of v2 f2] sep [of v3 f3] same_page_sym [of v2 v3] vm_invD(8) [OF i, of v2 f2 v3 f3] by blast
  show "walk (phys_mem w') 4 r v' = walk (phys_mem w0) 4 r v'" if "outside (insert (v, f) maps) v'" for v'
  proof -
    have "outside maps v'" "\<not> same_page v v'" using that by (simp_all add: outside_def)
    with vm_invD(9) [OF i] wk [of v'] show ?thesis by simp
  qed
  have nz: "{h. ty' h \<noteq> 0} = {h. ty h \<noteq> 0} \<union> {h. ty' h \<noteq> ty h}"
  proof -
    have "ty' h \<noteq> 0 \<longleftrightarrow> ty h \<noteq> 0 \<or> ty' h \<noteq> ty h" for h using grownD(1) [OF g, of h] by (cases "ty' h = ty h") simp_all
    then show ?thesis by (simp only: Collect_disj_eq)
  qed
  have sub: "{h. ty' h \<noteq> ty h} \<subseteq> free_frames (vm_pmm w)" using grownD(2) [OF g] by blast
  show "free_frames (vm_pmm w') \<union> (held - {f}) \<union> snd ` insert (v, f) maps \<union> {h. ty' h \<noteq> 0} =
    free_frames (vm_pmm w0) \<union> {h. ty0 h \<noteq> 0}"
    unfolding vm_invD(10) [OF i, symmetric] p grownD(3) [OF g] nz using sub f by auto
qed

lemma unmap_inv:
  assumes i: "vm_inv ty0 w0 ty r w held maps" and v: "(v, f) \<in> maps" and pm: "pm_pml4 pm = r * PAGE_SIZE"
  shows "\<exists>w'. vmm_unmap_page pm v w = Done w' \<and> vm_inv ty0 w0 ty r w' held (maps - {(v, f)})"
proof -
  from vm_invD(6) [OF i v] obtain e where e: "walk (phys_mem w) 4 r v = Some (1, e)" "fr e = f" "\<not> has e VMM_SHARED"
    by (auto simp: mapped_to_def)
  have own: "owned_frame ty w f" by (rule vm_invD(3) [OF i]) (use v in force)
  then have "has e VMM_SHARED \<or> ty (fr e) = 0 \<and> page_at (vm_pmm w) (fr e) \<and> fr e \<notin> free_frames (vm_pmm w)"
    using e(2) by (simp add: owned_frame_def)
  from vmm_unmap_page_ok [OF vm_invD(1) [OF i] pm e(1) this] e(2,3)
  obtain w' where w': "vmm_unmap_page pm v w = Done w'" "pt_ok ty r w'" "free_frames (vm_pmm w') = insert f (free_frames (vm_pmm w))"
    "mem_end (vm_pmm w') = mem_end (vm_pmm w)" "g_pte_mask w' = g_pte_mask w"
    and wk: "\<And>v'. walk (phys_mem w') 4 r v' = (if same_page v v' then None else walk (phys_mem w) 4 r v')" by auto
  have fu: "f2 \<noteq> f" if "(v2, f2) \<in> maps - {(v, f)}" for v2 f2
    using inj_onD [OF vm_invD(5) [OF i], of "(v2, f2)" "(v, f)"] that v by auto
  have sn: "snd ` maps = insert f (snd ` (maps - {(v, f)}))" using v by force
  have fh: "f \<notin> held" using vm_invD(4) [OF i] sn by blast
  have sep: "\<not> same_page v v2" if "(v2, f2) \<in> maps - {(v, f)}" for v2 f2
    using that vm_invD(8) [OF i v, of v2 f2] by blast
  have "vm_inv ty0 w0 ty r w' held (maps - {(v, f)})"
  proof (rule vm_invI)
    show "pt_ok ty r w'" by (rule w'(2))
    show "g_pte_mask w' = g_pte_mask w0" using w'(5) vm_invD(2) [OF i] by simp
    show "owned_frame ty w' h" if "h \<in> held \<union> snd ` (maps - {(v, f)})" for h
    proof -
      have "f \<notin> snd ` (maps - {(v, f)})" using fu by force
      then have "h \<noteq> f" using that fh by blast
      moreover have "owned_frame ty w h" by (rule vm_invD(3) [OF i]) (use that in auto)
      ultimately show ?thesis using w'(3) page_at_cong [OF w'(4), of h] by (simp add: owned_frame_def)
    qed
    show "held \<inter> snd ` (maps - {(v, f)}) = {}" using vm_invD(4) [OF i] by auto
    show "inj_on snd (maps - {(v, f)})" using vm_invD(5) [OF i] by (rule inj_on_subset) blast
    show "mapped_to r w' v2 f2" if k: "(v2, f2) \<in> maps - {(v, f)}" for v2 f2
      using vm_invD(6) [OF i, of v2 f2] k sep [OF k] wk [of v2] by (simp add: mapped_to_def)
    show "walk (phys_mem w0) 4 r v2 = None" if "(v2, f2) \<in> maps - {(v, f)}" for v2 f2
      using that vm_invD(7) [OF i, of v2 f2] by blast
    show "v2 = v3 \<and> f2 = f3" if "(v2, f2) \<in> maps - {(v, f)}" "(v3, f3) \<in> maps - {(v, f)}" "same_page v2 v3" for v2 f2 v3 f3
      using that vm_invD(8) [OF i, of v2 f2 v3 f3] by blast
    show "walk (phys_mem w') 4 r v' = walk (phys_mem w0) 4 r v'" if o: "outside (maps - {(v, f)}) v'" for v'
    proof (cases "same_page v v'")
      case True
      then have "walk (phys_mem w0) 4 r v' = None" using walk_same_page [OF True] vm_invD(7) [OF i v] by metis
      with True wk [of v'] show ?thesis by simp
    next
      case False
      then have "outside maps v'" using o unfolding outside_def by blast
      with False vm_invD(9) [OF i] wk [of v'] show ?thesis by simp
    qed
    show "free_frames (vm_pmm w') \<union> held \<union> snd ` (maps - {(v, f)}) \<union> {h. ty h \<noteq> 0} = free_frames (vm_pmm w0) \<union> {h. ty0 h \<noteq> 0}"
      unfolding vm_invD(10) [OF i, symmetric] w'(3) sn by blast
  qed
  with w'(1) show ?thesis by blast
qed

text \<open>Every run keeps the invariant.\<close>

lemma vm_run_inv:
  assumes "vm_run pm w0 (w, held, maps)" and ok: "pt_ok ty0 r w0" and pm: "pm_pml4 pm = r * PAGE_SIZE" and mk: "mask_ok (g_pte_mask w0)"
  shows "\<exists>ty. vm_inv ty0 w0 ty r w held maps"
  using assms(1)
proof (induction "(w, held, maps)" arbitrary: w held maps rule: vm_run.induct)
  case start
  have "vm_inv ty0 w0 ty0 r w0 {} {}" by (rule vm_invI) (simp_all add: ok)
  then show ?case by blast
next
  case (take w held maps p w')
  then obtain ty where i: "vm_inv ty0 w0 ty r w held maps" by blast
  from alloc_zero_ok [OF pt_okD(1) [OF vm_invD(1) [OF i]]] take.hyps(3,4)
  obtain f where "virt_to_phys (vm_pmm w') p = f * PAGE_SIZE" "took f w w'" by auto
  with take_inv [OF i, of f w'] show ?case by auto
next
  case (map w held maps f flags v w')
  then obtain ty where i: "vm_inv ty0 w0 ty r w held maps" by blast
  note ok = vm_invD(1) [OF i]
  have f40: "f < 2 ^ 40"
    using vm_invD(3) [OF i, of f] map.hyps(3) page_at_40 [OF ok] by (simp add: owned_frame_def)
  let ?e = "map_entry (of_nat (f * PAGE_SIZE)) flags w"
  have "mask_ok (g_pte_mask w)" "flags AND PTE_PHYS_MASK = 0"
    using mk vm_invD(2) [OF i] map.hyps(4) by (simp_all add: plain_flags_def)
  note e = map_entry_ok [OF this(1) f40 this(2)]
  have v: "walk (phys_mem w) 4 r v = None" using map.hyps(5) by (simp add: vmm_virt_to_phys_walk [OF ok pm])
  from vmm_map_page_ok [OF ok pm, of v "of_nat (f * PAGE_SIZE)" flags] map.hyps(6)
  obtain ty' w1 where k: "pt_ok ty' r w'" "grown 3 ty w ty' w1" "vm_pmm w' = vm_pmm w1" "g_pte_mask w' = g_pte_mask w"
    "\<And>v'. walk (phys_mem w') 4 r v' = (if same_page v v' then if has ?e VMM_PRESENT then Some (1, ?e) else None else walk (phys_mem w) 4 r v')"
    by auto
  have wk: "walk (phys_mem w') 4 r v' = (if same_page v v' then Some (1, ?e) else walk (phys_mem w) 4 r v')" for v'
    using k(5) [of v'] e(1) by simp
  have "\<not> has ?e VMM_SHARED" using e(3) map.hyps(4) by (simp add: plain_flags_def)
  from map_inv [OF i map.hyps(3) v k(2,3,4,1) e(2) this wk] show ?case by blast
next
  case (unmap w held maps v f w')
  then obtain ty where i: "vm_inv ty0 w0 ty r w held maps" by blast
  from unmap_inv [OF i unmap.hyps(3) pm] unmap.hyps(4) show ?case by auto
qed

text \<open>What the invariant says about the functions that read the tables.\<close>

lemma vm_inv_reads:
  assumes i: "vm_inv ty0 w0 ty r w held maps" and ok: "pt_ok ty0 r w0" and pm: "pm_pml4 pm = r * PAGE_SIZE"
  shows "(v, f) \<in> maps \<Longrightarrow> vmm_virt_to_phys pm v w = Some (of_nat (f * PAGE_SIZE) OR (v AND 0xFFF))"
    "outside maps v' \<Longrightarrow> vmm_virt_to_phys pm v' w = vmm_virt_to_phys pm v' w0 \<and> vmm_get_page_flags pm v' w = vmm_get_page_flags pm v' w0"
proof -
  note ok1 = vm_invD(1) [OF i]
  show "vmm_virt_to_phys pm v w = Some (of_nat (f * PAGE_SIZE) OR (v AND 0xFFF))" if "(v, f) \<in> maps"
  proof -
    from vm_invD(6) [OF i that] obtain e where e: "walk (phys_mem w) 4 r v = Some (1, e)" "fr e = f" by (auto simp: mapped_to_def)
    then show ?thesis using leaf_phys_frame [of v e] by (simp add: vmm_virt_to_phys_walk [OF ok1 pm])
  qed
  show "vmm_virt_to_phys pm v' w = vmm_virt_to_phys pm v' w0 \<and> vmm_get_page_flags pm v' w = vmm_get_page_flags pm v' w0"
    if "outside maps v'"
    using vm_invD(9) [OF i that]
    by (simp add: vmm_virt_to_phys_walk [OF ok1 pm] vmm_virt_to_phys_walk [OF ok pm]
        vmm_get_page_flags_walk [OF ok1 pm] vmm_get_page_flags_walk [OF ok pm])
qed

end
