(* ===== verification/Vmm_Walk.thy ===== *)
theory Vmm_Walk
  imports Vmm
begin

unbundle bit_operations_syntax

text \<open>
  The walk over the leaves of a range, \<open>walk_ptes\<close> of \<^verbatim>\<open>memory/mm.c\<close>, against the plain loop over all pages
  of the range: skipping the whole span of an absent table or of a large page leaves out no page.
\<close>

definition leaf_present :: "vmm \<Rightarrow> vmm_pagemap \<Rightarrow> u64 \<Rightarrow> bool" where
  "leaf_present w pm va \<longleftrightarrow> (case vmm_pte_lookup pm va w of None \<Rightarrow> False | Some (t, i) \<Rightarrow> has (entry w t i) VMM_PRESENT)"

definition pages_of :: "u64 \<Rightarrow> u64 \<Rightarrow> u64 list" where
  "pages_of va till = map (\<lambda>k. va + of_nat k * 4096) [0..<(unat till - unat va) div 4096]"

definition on_page :: "u64 \<Rightarrow> bool" where
  "on_page va \<longleftrightarrow> unat va mod 4096 = 0"

section \<open>The pages of a range\<close>

lemma u64_bound: "unat (x :: u64) < 2 ^ 64"
proof -
  have "unat x < 2 ^ LENGTH(64)" by (rule unsigned_less)
  then show ?thesis by simp
qed

lemma pages_of_empty: "till \<le> va \<Longrightarrow> pages_of va till = []"
  by (simp add: pages_of_def word_le_nat_alt)

lemma unat_page:
  assumes "k < (unat till - unat (va :: u64)) div 4096"
  shows "unat (va + of_nat k * 4096) = unat va + k * 4096 \<and> unat va + k * 4096 + 4096 \<le> unat (till :: u64)"
proof -
  have "(k + 1) * 4096 \<le> unat till - unat va"
    using assms by (metis Suc_eq_plus1 Suc_leI div_le_dividend less_eq_div_iff_mult_less_eq zero_less_numeral)
  moreover have "unat till < 2 ^ 64" using u64_bound [of till] by simp
  ultimately show ?thesis by (simp add: unat_word_ariths(1,2) unat_of_nat)
qed

lemma pages_of_mem:
  assumes "v \<in> set (pages_of va till)"
  shows "unat va \<le> unat v \<and> unat v < unat till"
  using assms unat_page [of _ till va] by (auto simp: pages_of_def)

lemma pages_of_split:
  assumes "va \<le> mid" "mid \<le> till" "on_page va" "on_page mid"
  shows "pages_of va till = pages_of va mid @ pages_of mid till"
proof -
  let ?a = "unat va" and ?m = "unat mid" and ?t = "unat till"
  have le: "?a \<le> ?m" "?m \<le> ?t" using assms by (simp_all add: word_le_nat_alt)
  then obtain n where n: "?m = ?a + n * 4096"
    using assms(3,4) unfolding on_page_def
    by (metis add.commute le_add_diff_inverse mod_eq_dvd_iff_nat dvd_def mult.commute)
  have "?t - ?a = n * 4096 + (?t - ?m)" using n le by simp
  then have eq: "(?m - ?a) div 4096 = n" "(?t - ?a) div 4096 = n + (?t - ?m) div 4096" using n by simp_all
  have mid: "mid = va + of_nat n * 4096"
  proof -
    have "mid = of_nat (unat mid)" by simp
    then show ?thesis unfolding n by simp
  qed
  have "map (\<lambda>k. va + of_nat k * 4096) [n..<n + (?t - ?m) div 4096] = map (\<lambda>k. mid + of_nat k * 4096) [0..<(?t - ?m) div 4096]"
    by (rule nth_equalityI) (simp_all add: mid algebra_simps)
  then show ?thesis unfolding pages_of_def eq upt_add_eq_append [OF le0] map_append by simp
qed

lemma pages_of_Cons:
  assumes "va < till" "on_page va" "on_page till"
  shows "pages_of va till = va # pages_of (va + 4096) till \<and> on_page (va + 4096) \<and> unat (va + 4096) = unat va + 4096 \<and>
    va + 4096 \<le> till"
proof -
  have "unat va + 4096 \<le> unat till"
    using assms unfolding on_page_def word_less_nat_alt
    by (metis add_le_cancel_left le_add_diff_inverse less_imp_le_nat mod_eq_dvd_iff_nat dvd_imp_le zero_less_diff)
  moreover from this have u: "unat (va + 4096) = unat va + 4096"
    using u64_bound [of till] by (simp add: unat_word_ariths(1))
  ultimately have "va \<le> va + 4096" "va + 4096 \<le> till" "on_page (va + 4096)"
    using assms(2) by (simp_all add: word_le_nat_alt on_page_def)
  moreover have "pages_of va (va + 4096) = [va]" using u by (simp add: pages_of_def)
  ultimately show ?thesis using pages_of_split [of va "va + 4096" till] assms(2) u by simp
qed

lemma filter_pages_skip:
  assumes "va \<le> mid" "mid \<le> till" "on_page va" "on_page mid"
    and "\<And>v. unat va \<le> unat v \<Longrightarrow> unat v < unat mid \<Longrightarrow> \<not> P v"
  shows "filter P (pages_of va till) = filter P (pages_of mid till)"
  using pages_of_split [OF assms(1-4)] pages_of_mem [of _ va mid] assms(5) by (auto simp: filter_empty_conv)

section \<open>Spans of a table entry\<close>

lemma ix_div: "ix s v = unat v div 2 ^ s mod 512"
proof -
  have m: "(0x1FF :: u64) = mask 9" by (simp add: mask_eq_exp_minus_1)
  have "unat (take_bit 9 (drop_bit s v)) = take_bit 9 (unat (drop_bit s v))" by (rule unsigned_take_bit_eq)
  then show ?thesis
    unfolding ix_def m take_bit_eq_mask [symmetric] unat_drop_bit_eq by (simp add: take_bit_eq_mod drop_bit_eq_div)
qed

lemma or_mask_nat: "(n :: nat) OR mask s = n div 2 ^ s * 2 ^ s + (2 ^ s - 1)"
proof -
  have "n OR mask s = push_bit s (drop_bit s n) OR mask s" by (auto simp: bit_eq_iff bit_simps)
  also have "\<dots> = push_bit s (drop_bit s n) + mask s"
    by (rule disjunctive_add [symmetric]) (auto simp: bit_simps)
  finally show ?thesis by (simp add: push_bit_eq_mult drop_bit_eq_div mask_eq_exp_minus_1)
qed

lemma walk_skip_unat:
  assumes "s < 64" "unat v < 2 ^ 64 - 2 ^ s"
  shows "unat (walk_skip s v) = (unat v div 2 ^ s + 1) * 2 ^ s"
proof -
  have m: "push_bit s 1 - 1 = (mask s :: u64)" by (simp add: mask_eq_exp_minus_1 push_bit_eq_mult)
  have "unat (mask s :: u64) = mask s" using assms(1) by (auto simp: bit_eq_iff bit_simps)
  then have "unat (v OR mask s) = unat v OR mask s" by (simp add: unsigned_or_eq)
  then have u: "unat (v OR mask s) = unat v div 2 ^ s * 2 ^ s + (2 ^ s - 1)" unfolding or_mask_nat .
  have "unat v div 2 ^ s * 2 ^ s + 2 ^ s < 2 ^ 64" using assms(2) div_times_less_eq_dividend [of "unat v" "2 ^ s"] by linarith
  moreover have "(0 :: nat) < 2 ^ s" by simp
  ultimately show ?thesis unfolding walk_skip_def m by (simp add: unat_word_ariths(1) u)
qed

lemma ix_span:
  assumes "s \<le> t" "unat v \<le> unat u" "unat u < (unat v div 2 ^ s + 1) * 2 ^ s"
  shows "ix t u = ix t v"
proof -
  have "unat u div 2 ^ s = unat v div 2 ^ s"
  proof (rule antisym)
    show "unat u div 2 ^ s \<le> unat v div 2 ^ s" using less_mult_imp_div_less [OF assms(3)] by simp
    show "unat v div 2 ^ s \<le> unat u div 2 ^ s" using assms(2) by (rule div_le_mono)
  qed
  then have "unat u div (2 ^ s * 2 ^ (t - s)) = unat v div (2 ^ s * 2 ^ (t - s))" unfolding div_mult2_eq by simp
  then show ?thesis using assms(1) unfolding ix_div by (simp flip: power_add)
qed

section \<open>The walk\<close>

lemma leaf_run_eq:
  assumes "on_page va" "on_page stop" "va \<le> stop"
  shows "leaf_run w pt stop acc va = Some (acc @ filter (\<lambda>v. has (entry w pt (ix 12 v)) VMM_PRESENT) (pages_of va stop), stop)"
  using assms
proof (induction "unat stop - unat va" arbitrary: va acc rule: less_induct)
  case less
  show ?case
  proof (cases "va < stop")
    case True
    note c = pages_of_Cons [OF True less.prems(1,2)]
    have "unat stop - unat (va + 4096) < unat stop - unat va" using c True by (simp add: word_less_nat_alt)
    from less.hyps [OF this] c less.prems(2) True show ?thesis by (simp add: leaf_run.simps [of w pt stop acc va])
  next
    case False
    with less.prems(3) have "va = stop" by simp
    then show ?thesis by (simp add: leaf_run.simps [of w pt stop acc stop] pages_of_empty)
  qed
qed

text \<open>The range ends below the span of the last entry of the root.\<close>

definition walk_end_ok :: "u64 \<Rightarrow> bool" where
  "walk_end_ok till \<longleftrightarrow> on_page till \<and> unat till \<le> 2 ^ 64 - 2 ^ 39"

lemma walk_skip_props:
  assumes "va < till" "walk_end_ok till" "on_page va" "12 \<le> s" "s \<le> 39"
  shows "on_page (walk_skip s va)" "unat va < unat (walk_skip s va)"
    "unat (walk_skip s va) = (unat va div 2 ^ s + 1) * 2 ^ s"
proof -
  have "(2 :: nat) ^ s \<le> 2 ^ 39" using assms(5) by (intro power_increasing) simp_all
  then show u: "unat (walk_skip s va) = (unat va div 2 ^ s + 1) * 2 ^ s"
    using assms by (intro walk_skip_unat) (auto simp: walk_end_ok_def word_less_nat_alt)
  have "(2 :: nat) ^ s = 4096 * 2 ^ (s - 12)" using assms(4) power_add [of "2 :: nat" 12 "s - 12"] by simp
  then show "on_page (walk_skip s va)" unfolding on_page_def u by simp
  show "unat va < unat (walk_skip s va)"
    unfolding u using dividend_less_times_div [of "2 ^ s" "unat va"] by (simp add: algebra_simps)
qed

lemma filter_span:
  assumes a: "va < till" "walk_end_ok till" "on_page va" "12 \<le> s" "s \<le> 39"
    and none: "\<And>v. (\<And>t. s \<le> t \<Longrightarrow> ix t v = ix t va) \<Longrightarrow> \<not> P v"
  shows "filter P (pages_of va till) = filter P (pages_of (walk_skip s va) till)"
proof -
  note n = walk_skip_props [OF a]
  have np: "\<not> P v" if "unat va \<le> unat v" "unat v < unat (walk_skip s va)" for v
    using none ix_span [of s _ va v] that n(3) by simp
  show ?thesis
  proof (cases "walk_skip s va \<le> till")
    case True
    then show ?thesis using filter_pages_skip [OF _ True a(3) n(1), of P] n(2) np by (simp add: word_le_nat_alt)
  next
    case False
    then have "filter P (pages_of va till) = []"
      using pages_of_mem [of _ va till] np by (fastforce simp: filter_empty_conv word_le_nat_alt)
    then show ?thesis using False by (simp add: pages_of_empty)
  qed
qed

lemma walk_ptes_eq:
  assumes "on_page va" "walk_end_ok till"
  shows "walk_ptes w pm till acc va = Some (acc @ filter (leaf_present w pm) (pages_of va till))"
  using assms
proof (induction "unat till - unat va" arbitrary: va acc rule: less_induct)
  case less
  let ?P = "leaf_present w pm"
  note unf = walk_ptes.simps [of w pm till acc va]
  have present: "?P v \<longleftrightarrow> has e4 VMM_PRESENT \<and> has e3 VMM_PRESENT \<and> \<not> has e3 VMM_PSE \<and> has e2 VMM_PRESENT \<and> \<not> has e2 VMM_PSE \<and>
      has (entry w (pte_phys e2) (ix 12 v)) VMM_PRESENT"
    if "e4 = entry w (pm_pml4 pm) (ix 39 v)" "e3 = entry w (pte_phys e4) (ix 30 v)" "e2 = entry w (pte_phys e3) (ix 21 v)"
    for v e4 e3 e2 using that by (simp add: leaf_present_def vmm_pte_lookup_def Let_def)
  define e4 e3 e2 where "e4 = entry w (pm_pml4 pm) (ix 39 va)" and "e3 = entry w (pte_phys e4) (ix 30 va)"
    and "e2 = entry w (pte_phys e3) (ix 21 va)"
  note es = e4_def e3_def e2_def
  show ?case
  proof (cases "va < till")
    case False
    then show ?thesis by (simp add: unf pages_of_empty)
  next
    case True
    note sk = walk_skip_props [OF True less.prems(2,1)] and fs = filter_span [OF True less.prems(2,1)]
    have skip: "walk_ptes w pm till acc (walk_skip s va) = Some (acc @ filter ?P (pages_of va till))"
      if "12 \<le> s" "s \<le> 39" "\<And>v. (\<And>t. s \<le> t \<Longrightarrow> ix t v = ix t va) \<Longrightarrow> \<not> ?P v" for s
      using less.hyps [of "walk_skip s va" acc] sk(1,2) [OF that(1,2)] fs [OF that] less.prems(2) True
      by (simp add: word_less_nat_alt diff_less_mono2)
    consider "\<not> has e4 VMM_PRESENT" | "has e4 VMM_PRESENT" "\<not> has e3 VMM_PRESENT \<or> has e3 VMM_PSE"
      | "has e4 VMM_PRESENT" "has e3 VMM_PRESENT" "\<not> has e3 VMM_PSE" "\<not> has e2 VMM_PRESENT \<or> has e2 VMM_PSE"
      | "has e4 VMM_PRESENT" "has e3 VMM_PRESENT" "\<not> has e3 VMM_PSE" "has e2 VMM_PRESENT" "\<not> has e2 VMM_PSE" by blast
    then show ?thesis
    proof cases
      case 1
      then have "\<not> ?P v" if "\<And>t. 39 \<le> t \<Longrightarrow> ix t v = ix t va" for v
        using present [OF refl refl refl, of v] that [of 39] by (simp add: es)
      from skip [OF _ _ this] 1 show ?thesis by (simp add: unf True Let_def flip: es)
    next
      case 2
      then have "\<not> ?P v" if "\<And>t. 30 \<le> t \<Longrightarrow> ix t v = ix t va" for v
        using present [OF refl refl refl, of v] that [of 39] that [of 30] by (auto simp: es)
      from skip [OF _ _ this] 2 show ?thesis by (simp add: unf True Let_def flip: es)
    next
      case 3
      then have "\<not> ?P v" if "\<And>t. 21 \<le> t \<Longrightarrow> ix t v = ix t va" for v
        using present [OF refl refl refl, of v] that [of 39] that [of 30] that [of 21] by (auto simp: es)
      from skip [OF _ _ this] 3 show ?thesis by (simp add: unf True Let_def flip: es)
    next
      case 4
      let ?stop = "walk_stop till va"
      have k: "on_page (walk_skip 21 va)" "unat va < unat (walk_skip 21 va)" using sk(1,2) [of 21] by simp_all
      then have stop: "on_page ?stop" "va < ?stop" "?stop \<le> till" "unat ?stop \<le> unat (walk_skip 21 va)"
        using True less.prems(2) by (auto simp: walk_stop_def Let_def walk_end_ok_def word_less_nat_alt word_le_nat_alt)
      have "?P v \<longleftrightarrow> has (entry w (pte_phys e2) (ix 12 v)) VMM_PRESENT" if "v \<in> set (pages_of va ?stop)" for v
      proof -
        have "ix t v = ix t va" if "21 \<le> t" for t
          using ix_span [OF that, of va v] pages_of_mem [OF \<open>v \<in> _\<close>] stop(4) sk(3) [of 21] by simp
        then show ?thesis using 4 present [OF refl refl refl, of v] by (simp add: es)
      qed
      then have run: "leaf_run w (pte_phys e2) ?stop acc va = Some (acc @ filter ?P (pages_of va ?stop), ?stop)"
        using leaf_run_eq [OF less.prems(1) stop(1), of w "pte_phys e2" acc] stop(2) by (simp cong: filter_cong)
      have "unat till - unat ?stop < unat till - unat va"
        using True stop(2) by (simp add: word_less_nat_alt diff_less_mono2)
      from less.hyps [OF this stop(1) less.prems(2)] run 4 show ?thesis
        using pages_of_split [OF _ stop(3) less.prems(1) stop(1)] stop(2) by (simp add: unf True Let_def flip: es)
    qed
  qed
qed

end
