(* ===== verification/Vmm_Large.thy ===== *)
theory Vmm_Large
  imports Vmm_Correct Vmm_Walk
begin

unbundle bit_operations_syntax

text \<open>
  Large pages: \<open>split_large_pdpte\<close> and \<open>split_large_pde\<close> replace a large page by a table of smaller
  ones with the same addresses, rights and cache attributes, and \<open>vmm_remap_range_wc\<close> sets the cache
  attribute of a range, splitting the large pages that reach out of it.
\<close>

section \<open>Bits of a large entry\<close>

lemma bit_pow: "(b :: u64) = 2 ^ k \<Longrightarrow> k < 64 \<Longrightarrow> bit b n \<longleftrightarrow> n = k"
  by (auto simp: bit_exp_iff)

lemma bit_range: "(b :: u64) = 2 ^ k - 2 ^ l \<Longrightarrow> k < 64 \<Longrightarrow> l \<le> k \<Longrightarrow> bit b n \<longleftrightarrow> l \<le> n \<and> n < k"
proof -
  assume b: "b = 2 ^ k - 2 ^ l" "k < 64" "l \<le> k"
  have "(mask k AND NOT (mask l)) + mask l = (mask k AND NOT (mask l)) OR (mask l :: u64)"
    by (rule disjunctive_add) (auto simp: bit_simps)
  also have "\<dots> = mask k" using b(3) by (auto simp: bit_eq_iff bit_simps)
  finally have "b = mask k AND NOT (mask l)" unfolding b(1) by (simp add: mask_eq_exp_minus_1 algebra_simps)
  then show "bit b n \<longleftrightarrow> l \<le> n \<and> n < k" using b(2) by (auto simp: bit_simps)
qed

lemma bit_small_const:
  "bit (0xFFF :: u64) n \<longleftrightarrow> 0 \<le> n \<and> n < 12" "bit (0x1FFFFF :: u64) n \<longleftrightarrow> 0 \<le> n \<and> n < 21" "bit (0x3FFFFFFF :: u64) n \<longleftrightarrow> 0 \<le> n \<and> n < 30"
  "bit (0x000FFFFFC0000000 :: u64) n \<longleftrightarrow> 30 \<le> n \<and> n < 52" "bit (0x000FFFFFFFE00000 :: u64) n \<longleftrightarrow> 21 \<le> n \<and> n < 52"
  "bit (0x1FF :: u64) n \<longleftrightarrow> 0 \<le> n \<and> n < 9"
  by (rule bit_range; simp)+

lemma bit_flag_const:
  "bit VMM_PRESENT n \<longleftrightarrow> n = 0" "bit VMM_WRITE n \<longleftrightarrow> n = 1" "bit VMM_USER n \<longleftrightarrow> n = 2" "bit VMM_PSE n \<longleftrightarrow> n = 7"
  "bit VMM_NOEXEC n \<longleftrightarrow> n = 63" "bit (0x1000 :: u64) n \<longleftrightarrow> n = 12" "bit (0x8 :: u64) n \<longleftrightarrow> n = 3" "bit (0x10 :: u64) n \<longleftrightarrow> n = 4"
  "bit (0x80 :: u64) n \<longleftrightarrow> n = 7" "bit VMM_PWT n \<longleftrightarrow> n = 3" "bit VMM_PCD n \<longleftrightarrow> n = 4"
  by (rule bit_pow; simp add: vmm_bits VMM_PWT_def VMM_PCD_def)+

text \<open>The bits of constants are read off these facts, not computed.\<close>

declare bit_numeral_word_iff [simp del]

lemmas entry_bits = bit_small_const bit_flag_const bit_PTE_PHYS_MASK bit_and_iff bit_or_iff bit_not_iff bit_push_bit_iff bit_drop_bit_eq

lemma u64_eqI: "(\<And>n. n < 64 \<Longrightarrow> bit a n \<longleftrightarrow> bit b n) \<Longrightarrow> a = (b :: u64)"
  by (rule bit_word_eqI) simp

lemma has_pow:
  assumes "\<And>n. bit (b :: u64) n \<longleftrightarrow> n = k"
  shows "has e b \<longleftrightarrow> bit e k"
proof -
  have "bit (e AND b) n \<longleftrightarrow> n = k \<and> bit e k" for n using assms by (auto simp: bit_and_iff)
  moreover have "bit e k \<Longrightarrow> k < 64" using bit_imp_le_length [of e k] by simp
  ultimately have "e AND b = 0 \<longleftrightarrow> \<not> bit e k" by (metis bit_0_eq bot_apply bot_bool_def u64_eqI)
  then show ?thesis by (simp add: has_def)
qed

lemma has_bit: "has e VMM_PRESENT \<longleftrightarrow> bit e 0" "has e VMM_PSE \<longleftrightarrow> bit e 7"
  by (rule has_pow, simp only: bit_flag_const)+

text \<open>The flags that no operation of this theory changes, and the cache attribute: the bits PAT, PCD and PWT.\<close>

definition KEPT_FLAGS :: u64 where
  "KEPT_FLAGS = FLAG_BITS AND NOT (VMM_PSE OR VMM_PWT OR VMM_PCD)"

definition cache_attr :: "nat \<times> u64 \<Rightarrow> bool \<times> bool \<times> bool" where
  "cache_attr = (\<lambda>(k, e). (bit e (if k = 1 then 7 else 12), bit e 4, bit e 3))"

definition WRITE_COMBINING :: "bool \<times> bool \<times> bool" where
  "WRITE_COMBINING = (True, False, True)"

lemma bit_KEPT_FLAGS: "bit KEPT_FLAGS n \<longleftrightarrow> n < 12 \<and> n \<noteq> 7 \<and> n \<noteq> 3 \<and> n \<noteq> 4 \<or> n = 63"
  unfolding KEPT_FLAGS_def FLAG_BITS_def entry_bits by auto

text \<open>Two entries of possibly different levels that map the address alike.\<close>

definition alike :: "u64 \<Rightarrow> nat \<times> u64 \<Rightarrow> nat \<times> u64 \<Rightarrow> bool" where
  "alike v x y \<longleftrightarrow> leaf_phys v x = leaf_phys v y \<and> snd x AND KEPT_FLAGS = snd y AND KEPT_FLAGS"

lemma wc_large_bit: "bit (wc_large e) n \<longleftrightarrow> n = 3 \<or> n = 12 \<or> n \<noteq> 4 \<and> bit e n"
  unfolding wc_large_def entry_bits using bit_imp_le_length [of e n] by auto

lemma wc_small_bit: "bit (wc_small e) n \<longleftrightarrow> n = 3 \<or> n = 7 \<or> n \<noteq> 4 \<and> bit e n"
  unfolding wc_small_def entry_bits using bit_imp_le_length [of e n] by auto

lemma leaf_phys_eqI:
  assumes "\<And>n. n < 64 \<Longrightarrow> bit (leaf_phys v x) n \<longleftrightarrow> bit (leaf_phys v y) n"
    and "\<And>n. n < 12 \<and> n \<noteq> 7 \<and> n \<noteq> 3 \<and> n \<noteq> 4 \<or> n = 63 \<Longrightarrow> bit (snd x) n \<longleftrightarrow> bit (snd y) n"
  shows "alike v x y"
proof -
  have "snd x AND KEPT_FLAGS = snd y AND KEPT_FLAGS"
    by (rule u64_eqI) (use assms(2) in \<open>auto simp: bit_and_iff bit_KEPT_FLAGS\<close>)
  moreover have "leaf_phys v x = leaf_phys v y" by (rule u64_eqI) (rule assms(1))
  ultimately show ?thesis by (simp add: alike_def)
qed

text \<open>The physical address bit by bit: the bits of the entry above those of the offset.\<close>

definition page_bits :: "nat \<Rightarrow> nat" where
  "page_bits k = (if k = 1 then 12 else if k = 2 then 21 else 30)"

lemma bit_leaf_phys: "n < 64 \<Longrightarrow> bit (leaf_phys v (k, e)) n \<longleftrightarrow> (if n < page_bits k then bit v n else n < 52 \<and> bit e n)"
proof -
  assume n: "n < 64"
  have "bit ((e AND PTE_PHYS_MASK) OR (v AND 0xFFF)) n \<longleftrightarrow> (if n < 12 then bit v n else n < 52 \<and> bit e n)"
    "bit ((e AND PTE_PHYS_MASK AND NOT 0x1FFFFF) OR (v AND 0x1FFFFF)) n \<longleftrightarrow> (if n < 21 then bit v n else n < 52 \<and> bit e n)"
    "bit ((e AND PTE_PHYS_MASK AND NOT 0x3FFFFFFF) OR (v AND 0x3FFFFFFF)) n \<longleftrightarrow> (if n < 30 then bit v n else n < 52 \<and> bit e n)"
    unfolding entry_bits using n by auto
  note bits = this
  consider "k = 1" "page_bits k = 12" "leaf_phys v (k, e) = (e AND PTE_PHYS_MASK) OR (v AND 0xFFF)"
    | "page_bits k = 21" "leaf_phys v (k, e) = (e AND PTE_PHYS_MASK AND NOT 0x1FFFFF) OR (v AND 0x1FFFFF)"
    | "page_bits k = 30" "leaf_phys v (k, e) = (e AND PTE_PHYS_MASK AND NOT 0x3FFFFFFF) OR (v AND 0x3FFFFFFF)"
    by (cases "k = 1"; cases "k = 2") (simp_all add: leaf_phys_def page_bits_def)
  then show ?thesis by cases (simp_all only: bits)
qed

lemma wc_large_alike: "2 \<le> k \<Longrightarrow> alike v (k, wc_large e) (k, e)"
  by (rule leaf_phys_eqI) (auto simp: bit_leaf_phys wc_large_bit page_bits_def)

lemma wc_small_alike: "alike v (1, wc_small e) (1, e)"
  by (rule leaf_phys_eqI) (auto simp: bit_leaf_phys wc_small_bit page_bits_def)

section \<open>The entries of a split page\<close>

text \<open>The entry for the address \<open>v\<close> in the table that replaces a large page.\<close>

definition split_pdpte_entry :: "u64 \<Rightarrow> nat \<Rightarrow> u64" where
  "split_pdpte_entry e j = ((e AND 0x000FFFFFC0000000) + of_nat j * MIB2) OR (e AND (0xFFF OR 0x1000 OR VMM_NOEXEC))"

definition split_pde_entry :: "u64 \<Rightarrow> nat \<Rightarrow> u64" where
  "split_pde_entry e j = ((e AND 0x000FFFFFFFE00000) + of_nat j * 0x1000) OR
     ((e AND (0xFFF AND NOT VMM_PSE)) OR push_bit 7 (drop_bit 12 e AND 1) OR (e AND VMM_NOEXEC))"

lemma bit_index:
  assumes "t + 9 \<le> 64"
  shows "bit (of_nat (ix t v) * 2 ^ t :: u64) n \<longleftrightarrow> t \<le> n \<and> n < t + 9 \<and> bit v n"
proof -
  have "of_nat (ix t v) * 2 ^ t = push_bit t (drop_bit t v AND 0x1FF)" by (simp add: ix_def push_bit_eq_mult)
  then show ?thesis using assms by (auto simp: entry_bits)
qed

lemma bit_base_index:
  assumes "t + 9 \<le> 64" "\<And>n. bit b n \<Longrightarrow> t + 9 \<le> n"
  shows "bit ((b :: u64) + of_nat (ix t v) * 2 ^ t) n \<longleftrightarrow> bit b n \<or> t \<le> n \<and> n < t + 9 \<and> bit v n"
proof -
  have "b + of_nat (ix t v) * 2 ^ t = b OR (of_nat (ix t v) * 2 ^ t)"
    using assms(2) by (intro disjunctive_add) (fastforce simp: bit_index [OF assms(1)] dest: leD)
  then show ?thesis by (simp only: bit_or_iff bit_index [OF assms(1)])
qed

lemma split_pdpte_bit:
  "bit (split_pdpte_entry e (ix 21 v)) n \<longleftrightarrow>
   (if n < 13 \<or> n = 63 then bit e n else if n < 21 then False else if n < 30 then bit v n else n < 52 \<and> bit e n)"
proof -
  have "MIB2 = 2 ^ 21" by (simp add: MIB2_def)
  moreover have "30 \<le> n" if "bit (e AND 0x000FFFFFC0000000) n" for n using that by (simp only: entry_bits)
  ultimately have "bit ((e AND 0x000FFFFFC0000000) + of_nat (ix 21 v) * MIB2) n \<longleftrightarrow>
      bit (e AND 0x000FFFFFC0000000) n \<or> 21 \<le> n \<and> n < 30 \<and> bit v n"
    using bit_base_index [of 21 "e AND 0x000FFFFFC0000000" v n] by simp
  then show ?thesis unfolding split_pdpte_entry_def bit_or_iff by (simp only: entry_bits) auto
qed

lemma split_pde_bit:
  "bit (split_pde_entry e (ix 12 v)) n \<longleftrightarrow>
   (if n = 7 then bit e 12 else if n < 12 \<or> n = 63 then bit e n else if n < 21 then bit v n else n < 52 \<and> bit e n)"
proof -
  have "21 \<le> n" if "bit (e AND 0x000FFFFFFFE00000) n" for n using that by (simp only: entry_bits)
  then have "bit ((e AND 0x000FFFFFFFE00000) + of_nat (ix 12 v) * 0x1000) n \<longleftrightarrow>
      bit (e AND 0x000FFFFFFFE00000) n \<or> 12 \<le> n \<and> n < 21 \<and> bit v n"
    using bit_base_index [of 12 "e AND 0x000FFFFFFFE00000" v n] by simp
  then show ?thesis unfolding split_pde_entry_def bit_or_iff
    by (simp only: entry_bits bit_1_iff) (auto dest: bit_imp_le_length)
qed

lemma split_pdpte_alike: "alike v (2, split_pdpte_entry e (ix 21 v)) (3, e)"
  by (rule leaf_phys_eqI) (auto simp: bit_leaf_phys split_pdpte_bit page_bits_def)

lemma split_pde_alike: "alike v (1, split_pde_entry e (ix 12 v)) (2, e)"
  by (rule leaf_phys_eqI) (auto simp: bit_leaf_phys split_pde_bit page_bits_def)

section \<open>What an address sees\<close>

text \<open>The walk together with the rights collected on the way: \<open>a\<close> restricted by every entry passed.\<close>

fun look :: "(nat \<Rightarrow> nat \<Rightarrow> u64) \<Rightarrow> nat \<Rightarrow> nat \<Rightarrow> u64 \<Rightarrow> u64 \<Rightarrow> ((nat \<times> u64) \<times> u64) option" where
  "look m 0 f v a = None"
| "look m (Suc l) f v a =
     (let e = m f (ix (12 + 9 * l) v) in
      if \<not> has e VMM_PRESENT then None
      else if l = 0 \<or> has e VMM_PSE then Some ((Suc l, e), a AND e)
      else look m l (fr e) v (a AND e))"

lemma look_walk: "map_option fst (look m l f v a) = walk m l f v"
  by (induction l arbitrary: f a) (simp_all add: Let_def)

definition VIEW_RIGHTS :: u64 where "VIEW_RIGHTS = VMM_WRITE OR VMM_USER"

lemma vmm_virt_flags_look:
  assumes "pt_ok ty r w" "pm_pml4 pm = r * PAGE_SIZE"
  shows "vmm_virt_flags pm v w = map_option snd (look (phys_mem w) 4 r v VIEW_RIGHTS)"
  using pt_okD(8) [OF assms(1) ix_less, of 39 v]
  unfolding vmm_virt_flags_def assms(2) entry_frame VIEW_RIGHTS_def
  by (simp add: numeral_eq_Suc Let_def)

text \<open>A change of one entry, and of frames that were no tables, is seen through that entry, with the same rights so far.\<close>

lemma look_change:
  assumes lk: "links_ok ty m" and p: "ty p = k" "0 < k"
    and same: "\<And>h j. ty h \<noteq> 0 \<Longrightarrow> (h, j) \<noteq> (p, i) \<Longrightarrow> m' h j = m h j"
  shows "ty f = l \<Longrightarrow>
    (if table_at m k l f v = Some p \<and> ix (12 + 9 * (k - 1)) v = i
     then \<exists>b. look m' l f v a = look m' k p v (a AND b) \<and> look m l f v a = look m k p v (a AND b)
     else look m' l f v a = look m l f v a)"
proof (induction l arbitrary: f a)
  case (Suc l)
  let ?j = "ix (12 + 9 * l) v"
  show ?case
  proof (cases "f = p \<and> ?j = i")
    case True
    then have "Suc l = k" using p Suc.prems by simp
    with True show ?thesis by (auto intro!: exI [of _ "NOT 0 :: u64"] simp del: look.simps)
  next
    case False
    then have e: "m' f ?j = m f ?j" using Suc.prems by (intro same) auto
    show ?thesis
    proof (cases "link (Suc l) (m f ?j)")
      case True
      have c: "ty (fr (m f ?j)) = l" using links_okD(1) [OF lk ix_less, of f "12 + 9 * l" v] True Suc.prems by simp
      have w: "look m' (Suc l) f v a = look m' l (fr (m f ?j)) v (a AND m f ?j)"
        "look m (Suc l) f v a = look m l (fr (m f ?j)) v (a AND m f ?j)"
        using True e by (auto simp: Let_def link_def)
      show ?thesis
      proof (cases "Suc l = k")
        case True
        then have "table_at m k l (fr (m f ?j)) v \<noteq> Some p" using table_at_le [of m k l "fr (m f ?j)" v p] by auto
        with Suc.IH [OF c] w False True show ?thesis by auto
      next
        case nk: False
        with True have "table_at m k (Suc l) f v = table_at m k l (fr (m f ?j)) v" by (simp add: Let_def)
        with Suc.IH [OF c, of "a AND m f ?j"] w show ?thesis by (auto simp: and.assoc simp del: look.simps split: if_splits)
      qed
    next
      case nl: False
      then have "look m' (Suc l) f v a = look m (Suc l) f v a" using e by (auto simp: Let_def link_def)
      moreover have "\<not> (table_at m k (Suc l) f v = Some p \<and> ix (12 + 9 * (k - 1)) v = i)"
        using nl False by (cases k) (auto simp: Let_def)
      ultimately show ?thesis by (simp only: if_False)
    qed
  qed
qed simp

text \<open>\<open>keeps\<close>: every address has the same physical address, flags and rights as before.\<close>

definition keeps :: "nat \<Rightarrow> vmm \<Rightarrow> vmm \<Rightarrow> bool" where
  "keeps r w w' \<longleftrightarrow> (\<forall>u. rel_option (\<lambda>(y, c) (x, d). alike u y x \<and> c = d)
     (look (phys_mem w') 4 r u VIEW_RIGHTS) (look (phys_mem w) 4 r u VIEW_RIGHTS))"

definition attr :: "nat \<Rightarrow> vmm \<Rightarrow> u64 \<Rightarrow> (bool \<times> bool \<times> bool) option" where
  "attr r w u = map_option cache_attr (walk (phys_mem w) 4 r u)"

lemma alike_refl [simp]: "alike u x x" by (simp add: alike_def)

lemma alike_trans: "alike u x y \<Longrightarrow> alike u y z \<Longrightarrow> alike u x z" by (simp add: alike_def)

lemma keeps_refl: "keeps r w w"
  unfolding keeps_def by (auto intro: option.rel_refl)

lemma keeps_trans:
  assumes "keeps r w w1" "keeps r w1 w2"
  shows "keeps r w w2"
  unfolding keeps_def
proof
  fix u
  let ?R = "\<lambda>(y, c) (x, d). alike u y x \<and> c = d"
  have "rel_option (?R OO ?R) (look (phys_mem w2) 4 r u VIEW_RIGHTS) (look (phys_mem w) 4 r u VIEW_RIGHTS)"
    using assms unfolding keeps_def option.rel_compp by blast
  then show "rel_option ?R (look (phys_mem w2) 4 r u VIEW_RIGHTS) (look (phys_mem w) 4 r u VIEW_RIGHTS)"
    by (rule option.rel_mono_strong) (auto intro: alike_trans)
qed

text \<open>The addresses whose walk passes the entry for \<open>v\<close> in the table of level \<open>k\<close>.\<close>

definition through :: "nat \<Rightarrow> u64 \<Rightarrow> u64 \<Rightarrow> bool" where
  "through k v u \<longleftrightarrow> (\<forall>j. k \<le> Suc j \<and> j < 4 \<longrightarrow> ix (12 + 9 * j) u = ix (12 + 9 * j) v)"

lemma through_iff:
  assumes lk: "links_ok ty m" and r: "ty r = 4" and p: "table_at m k 4 r v = Some p" "0 < k"
  shows "table_at m k 4 r u = Some p \<and> ix (12 + 9 * (k - 1)) u = ix (12 + 9 * (k - 1)) v \<longleftrightarrow> through k v u"
proof
  assume a: "table_at m k 4 r u = Some p \<and> ix (12 + 9 * (k - 1)) u = ix (12 + 9 * (k - 1)) v"
  show "through k v u"
    unfolding through_def
  proof (intro allI impI)
    fix j assume j: "k \<le> Suc j \<and> j < 4"
    show "ix (12 + 9 * j) u = ix (12 + 9 * j) v"
      using a table_at_inj [OF lk r r _ p(1), of u] j p(2) by (cases "k \<le> j") (auto simp: le_Suc_eq)
  qed
next
  assume t: "through k v u"
  have "k \<le> 4" by (rule table_at_le [OF p(1)])
  then have "ix (12 + 9 * (k - 1)) u = ix (12 + 9 * (k - 1)) v" using t p(2) by (simp add: through_def)
  moreover have "table_at m k 4 r u = table_at m k 4 r v" by (rule table_at_cong) (use t in \<open>simp add: through_def\<close>)
  ultimately show "table_at m k 4 r u = Some p \<and> ix (12 + 9 * (k - 1)) u = ix (12 + 9 * (k - 1)) v" using p(1) by simp
qed

text \<open>One entry is changed so that it maps as before, up to the cache attribute.\<close>

lemma change_seen:
  assumes ok: "pt_ok ty r w" and p: "table_at (phys_mem w) k 4 r v = Some p" "0 < k"
    and same: "\<And>h j. ty h \<noteq> 0 \<Longrightarrow> (h, j) \<noteq> (p, ix (12 + 9 * (k - 1)) v) \<Longrightarrow> phys_mem w' h j = phys_mem w h j"
    and new: "\<And>u b. through k v u \<Longrightarrow> \<exists>x y c. look (phys_mem w) k p u (VIEW_RIGHTS AND b) = Some (x, c) \<and>
      look (phys_mem w') k p u (VIEW_RIGHTS AND b) = Some (y, c) \<and> alike u y x \<and> cache_attr y = g (cache_attr x)"
  shows "keeps r w w'" "attr r w' u = (if through k v u then map_option g (attr r w u) else attr r w u)"
    "through k v u \<Longrightarrow> attr r w u \<noteq> None"
proof -
  have r: "ty r = 4" using pt_okD(3) [OF ok, of r] by simp
  note lk = pt_okD(7) [OF ok]
  have pk: "ty p = k" by (rule table_at_ty [OF lk r p(1)])
  have ch: "if through k v u
     then \<exists>b. look (phys_mem w') 4 r u VIEW_RIGHTS = look (phys_mem w') k p u (VIEW_RIGHTS AND b) \<and>
       look (phys_mem w) 4 r u VIEW_RIGHTS = look (phys_mem w) k p u (VIEW_RIGHTS AND b)
     else look (phys_mem w') 4 r u VIEW_RIGHTS = look (phys_mem w) 4 r u VIEW_RIGHTS" for u
    using look_change [OF lk pk p(2) same r, where v = u and a = VIEW_RIGHTS] through_iff [OF lk r p, of u] by simp
  have on: "\<exists>x y c. look (phys_mem w) 4 r u VIEW_RIGHTS = Some (x, c) \<and> look (phys_mem w') 4 r u VIEW_RIGHTS = Some (y, c) \<and>
      alike u y x \<and> cache_attr y = g (cache_attr x)" if t: "through k v u" for u
  proof -
    from ch [of u] t obtain b where "look (phys_mem w') 4 r u VIEW_RIGHTS = look (phys_mem w') k p u (VIEW_RIGHTS AND b)"
      "look (phys_mem w) 4 r u VIEW_RIGHTS = look (phys_mem w) k p u (VIEW_RIGHTS AND b)" by auto
    with new [OF t, of b] show ?thesis by simp
  qed
  show "keeps r w w'"
    unfolding keeps_def
  proof
    fix u show "rel_option (\<lambda>(y, c) (x, d). alike u y x \<and> c = d)
      (look (phys_mem w') 4 r u VIEW_RIGHTS) (look (phys_mem w) 4 r u VIEW_RIGHTS)"
    proof (cases "through k v u")
      case True
      from on [OF this] show ?thesis by auto
    next
      case False
      then show ?thesis using ch [of u] by (auto intro: option.rel_refl)
    qed
  qed
  have at: "attr r x u = map_option (cache_attr \<circ> fst) (look (phys_mem x) 4 r u VIEW_RIGHTS)" for x u
    by (simp add: attr_def option.map_comp flip: look_walk [of _ _ _ _ VIEW_RIGHTS])
  show "attr r w' u = (if through k v u then map_option g (attr r w u) else attr r w u)"
  proof (cases "through k v u")
    case True
    from on [OF this] True show ?thesis by (auto simp: at)
  next
    case False
    with ch [of u] show ?thesis by (simp add: at)
  qed
  show "attr r w u \<noteq> None" if "through k v u" using on [OF that] by (auto simp: at)
qed

section \<open>Replacing the entry of a page\<close>

lemma view_rights_eq:
  assumes "bit x 1 \<longleftrightarrow> bit y 1" "bit x 2 \<longleftrightarrow> bit y 2"
  shows "VIEW_RIGHTS AND b AND x = VIEW_RIGHTS AND b AND y"
  by (rule u64_eqI) (use assms in \<open>auto simp: VIEW_RIGHTS_def entry_bits\<close>)

lemma look_leaf:
  assumes "has (m p (ix (12 + 9 * l) u)) VMM_PRESENT" "l = 0 \<or> has (m p (ix (12 + 9 * l) u)) VMM_PSE"
  shows "look m (Suc l) p u a = Some ((Suc l, m p (ix (12 + 9 * l) u)), a AND m p (ix (12 + 9 * l) u))"
  using assms by (simp add: Let_def)

lemma look_link:
  assumes "link (Suc l) (m p (ix (12 + 9 * l) u))"
  shows "look m (Suc l) p u a = look m l (fr (m p (ix (12 + 9 * l) u))) u (a AND m p (ix (12 + 9 * l) u))"
  using assms by (auto simp: Let_def link_def)

text \<open>The entry of a page becomes one of the same kind.\<close>

lemma set_page_ok:
  assumes ok: "pt_ok ty r w" and p: "table_at (phys_mem w) (Suc l) 4 r v = Some p" "l < 3"
    and e: "e = phys_mem w p (ix (12 + 9 * l) v)" "has e VMM_PRESENT" "l = 0 \<or> has e VMM_PSE"
    and e': "has e' VMM_PRESENT" "l = 0 \<or> has e' VMM_PSE" "\<And>u. alike u (Suc l, e') (Suc l, e)"
      "bit e' 1 \<longleftrightarrow> bit e 1" "bit e' 2 \<longleftrightarrow> bit e 2" "cache_attr (Suc l, e') = WRITE_COMBINING"
    and w': "w' = set_entry (p * PAGE_SIZE) (ix (12 + 9 * l) v) e' w"
  shows "pt_ok ty r w'" "keeps r w w'" "attr r w' u = (if through (Suc l) v u then Some WRITE_COMBINING else attr r w u)"
proof -
  let ?i = "ix (12 + 9 * l) v"
  have r: "ty r = 4" using pt_okD(3) [OF ok, of r] by simp
  have pl: "ty p = Suc l" by (rule table_at_ty [OF pt_okD(7) [OF ok] r p(1)])
  then have pr: "p \<noteq> r" using r p(2) by auto
  have m': "phys_mem w' h j = (if h = p \<and> j = ?i then e' else phys_mem w h j)" for h j by (simp add: w' poke_at)
  have "\<not> link (ty p) e" "\<not> link (ty p) e'" using e e' pl by (auto simp: link_def)
  then have lk: "link (ty h) (phys_mem w' h j) \<longleftrightarrow> link (ty h) (phys_mem w h j)"
    "link (ty h) (phys_mem w h j) \<Longrightarrow> phys_mem w' h j = phys_mem w h j" for h j
    using e(1) by (auto simp: m')
  have "links_ok ty (phys_mem w')"
    by (rule links_okI) (use lk links_okD [OF pt_okD(7) [OF ok]] in auto)
  moreover have "phys_mem w' r = phys_mem w r" using pr by (auto simp: m' fun_eq_iff)
  ultimately show "pt_ok ty r w'" using ok by (auto simp: pt_ok_def w')
  have new: "\<exists>x y c. look (phys_mem w) (Suc l) p u (VIEW_RIGHTS AND b) = Some (x, c) \<and>
      look (phys_mem w') (Suc l) p u (VIEW_RIGHTS AND b) = Some (y, c) \<and> alike u y x \<and> cache_attr y = WRITE_COMBINING"
    if t: "through (Suc l) v u" for u b
  proof -
    have i: "ix (12 + 9 * l) u = ?i" using t p(2) by (simp add: through_def)
    have "look (phys_mem w) (Suc l) p u (VIEW_RIGHTS AND b) = Some ((Suc l, e), VIEW_RIGHTS AND b AND e)"
      using look_leaf [of "phys_mem w" p l u] e by (simp add: i and.assoc del: look.simps)
    moreover have "look (phys_mem w') (Suc l) p u (VIEW_RIGHTS AND b) = Some ((Suc l, e'), VIEW_RIGHTS AND b AND e')"
      using look_leaf [of "phys_mem w'" p l u] e' by (simp add: i m' and.assoc del: look.simps)
    ultimately show ?thesis using e'(3,6) view_rights_eq [OF e'(4,5), of b] by simp
  qed
  have same: "phys_mem w' h j = phys_mem w h j" if "(h, j) \<noteq> (p, ix (12 + 9 * (Suc l - 1)) v)" for h j
    using that by (auto simp: m')
  note cs = change_seen [OF ok p(1) _ same new]
  show "keeps r w w'" by (rule cs(1)) simp_all
  show "attr r w' u = (if through (Suc l) v u then Some WRITE_COMBINING else attr r w u)"
    using cs(2,3) [of u] by (cases "attr r w u") auto
qed

section \<open>Splitting a page\<close>

lemma table_at_top: "Suc l = k \<Longrightarrow> table_at m k k f v = Some f"
  by auto

lemma table_at_upper:
  "links_ok ty m \<Longrightarrow> (\<And>h j. k < ty h \<Longrightarrow> m' h j = m h j) \<Longrightarrow> ty f = l \<Longrightarrow> table_at m' k l f v = table_at m k l f v"
proof (induction l arbitrary: f)
  case (Suc l)
  let ?e = "m f (ix (12 + 9 * l) v)"
  consider "Suc l = k" | "k < Suc l" | "Suc l < k" by linarith
  then show ?case
  proof cases
    case 2
    then have e: "m' f (ix (12 + 9 * l) v) = ?e" using Suc.prems by simp
    show ?thesis
    proof (cases "link (Suc l) ?e")
      case True
      then have "ty (fr ?e) = l" using links_okD(1) [OF Suc.prems(1) ix_less, of f "12 + 9 * l" v] Suc.prems(3) by simp
      from Suc.IH [OF Suc.prems(1,2) this] 2 e True show ?thesis by (simp add: Let_def)
    qed (use e in \<open>simp add: Let_def\<close>)
  next
    case 3
    then show ?thesis
      using table_at_le [of m k "Suc l" f v] table_at_le [of m' k "Suc l" f v]
      by (cases "table_at m k (Suc l) f v"; cases "table_at m' k (Suc l) f v") auto
  qed (simp add: table_at_top)
qed simp

lemma table_at_down:
  "table_at m k l f v = Some p \<Longrightarrow> k' < k \<Longrightarrow> table_at m k' l f v = table_at m k' k p v"
proof (induction l arbitrary: f)
  case (Suc l)
  show ?case
  proof (cases "Suc l = k")
    case True
    with Suc.prems table_at_top [OF True, of m f v] show ?thesis by simp
  next
    case False
    let ?e = "m f (ix (12 + 9 * l) v)"
    have k: "link (Suc l) ?e" "table_at m k l (fr ?e) v = Some p" using Suc.prems(1) False by (auto simp: Let_def split: if_splits)
    then have "k' \<noteq> Suc l" using table_at_le [OF k(2)] Suc.prems(2) by simp
    from table_at_step [of k' l m f v, OF this k(1)] Suc.IH [OF k(2) Suc.prems(2)] show ?thesis by simp
  qed
qed simp

lemma ix_surj:
  assumes "j < 512" "t + 9 \<le> 64"
  shows "ix t (of_nat j * 2 ^ t) = j"
proof -
  have "j * 2 ^ t < 2 ^ 9 * 2 ^ t" using assms(1) by (intro mult_strict_right_mono) simp_all
  also have "(2 :: nat) ^ 9 * 2 ^ t \<le> 2 ^ 64" using assms(2) by (simp only: power_add [symmetric] add.commute) (rule power_increasing; simp)
  finally have "j * 2 ^ t < 2 ^ 64" .
  moreover have "of_nat j * 2 ^ t = (of_nat (j * 2 ^ t) :: u64)" by simp
  moreover have "unat (of_nat (j * 2 ^ t) :: u64) = j * 2 ^ t mod 2 ^ 64" by (simp only: unat_of_nat) simp
  ultimately have "unat (of_nat j * 2 ^ t :: u64) = j * 2 ^ t" by (simp only: mod_less)
  then show ?thesis using assms(1) unfolding ix_div by simp
qed

lemma masked_link:
  assumes "f < 2 ^ 40" "mask_ok m"
  shows "has (link_entry f e AND m) VMM_PRESENT" "\<not> has (link_entry f e AND m) VMM_PSE" "fr (link_entry f e AND m) = f"
    "bit (link_entry f e AND m) 1" "bit (link_entry f e AND m) 2 \<longleftrightarrow> bit e 2"
proof -
  have c: "VMM_PRESENT AND VMM_NOEXEC = 0" "VMM_PSE AND VMM_NOEXEC = 0" "PTE_PHYS_MASK AND VMM_NOEXEC = 0"
    by (simp_all add: vmm_bits PTE_PHYS_MASK_def)
  note le = link_entry_parts [OF assms(1), of e]
  show "has (link_entry f e AND m) VMM_PRESENT" "\<not> has (link_entry f e AND m) VMM_PSE" "fr (link_entry f e AND m) = f"
    using le unfolding has_def fr_def pte_phys_def mask_ok_and [OF assms(2) c(1)] mask_ok_and [OF assms(2) c(2)]
      mask_ok_and [OF assms(2) c(3)] by simp_all
  have m: "bit m 1" "bit m 2" using assms(2) by (auto simp: mask_ok_def bit_not_iff bit_flag_const)
  have "\<not> bit (of_nat (f * PAGE_SIZE) :: u64) 2"
    unfolding of_nat_frame [OF assms(1)] by (simp add: bit_push_bit_iff)
  then show "bit (link_entry f e AND m) 1" "bit (link_entry f e AND m) 2 \<longleftrightarrow> bit e 2"
    using m unfolding link_entry_def by (simp_all only: entry_bits) auto
qed

text \<open>A large page of level \<open>l + 2\<close> becomes a table of level \<open>l + 1\<close> with the entries \<open>c\<close>.\<close>

lemma split_ok:
  assumes ok: "pt_ok ty r w" and p: "table_at (phys_mem w) (Suc (Suc l)) 4 r v = Some p" "l < 2"
    and e: "e = phys_mem w p (ix (12 + 9 * Suc l) v)" "has e VMM_PRESENT" "has e VMM_PSE"
    and t: "took f w w1" and m: "mask_ok (g_pte_mask w)"
    and c: "\<And>u. has (c (ix (12 + 9 * l) u)) VMM_PRESENT" "\<And>u. l = 0 \<or> has (c (ix (12 + 9 * l) u)) VMM_PSE"
      "\<And>u. alike u (Suc l, c (ix (12 + 9 * l) u)) (Suc (Suc l), e)"
      "\<And>u. cache_attr (Suc l, c (ix (12 + 9 * l) u)) = cache_attr (Suc (Suc l), e)"
      "\<And>u. bit (c (ix (12 + 9 * l) u)) 1 \<longleftrightarrow> bit e 1" "\<And>u. bit (c (ix (12 + 9 * l) u)) 2 \<longleftrightarrow> bit e 2"
    and w': "w' = set_entry (p * PAGE_SIZE) (ix (12 + 9 * Suc l) v) (link_entry f e AND g_pte_mask w)
      (fold (\<lambda>j. set_entry (f * PAGE_SIZE) j (c j)) [0..<512] w1)"
  shows "pt_ok (ty(f := Suc l)) r w' \<and> g_pte_mask w' = g_pte_mask w \<and> keeps r w w' \<and> (\<forall>u. attr r w' u = attr r w u) \<and>
    table_at (phys_mem w') (Suc (Suc l)) 4 r v = Some p \<and>
    phys_mem w' p (ix (12 + 9 * Suc l) v) = link_entry f e AND g_pte_mask w \<and>
    card (free_frames (vm_pmm w)) \<le> card (free_frames (vm_pmm w')) + 1"
proof -
  let ?i = "ix (12 + 9 * Suc l) v" and ?e = "link_entry f e AND g_pte_mask w" and ?c = "\<lambda>j. if j < 512 then c j else 0"
  from t obtain s' where s': "w1 = w\<lparr>vm_pmm := s', phys_mem := (phys_mem w)(f := (\<lambda>_. 0))\<rparr>" "pmm_wf s'"
    "mem_end s' = mem_end (vm_pmm w)" "page_at (vm_pmm w) f" "f \<in> free_frames (vm_pmm w)"
    "free_frames s' = free_frames (vm_pmm w) - {f}" by (auto simp: took_def)
  note le = masked_link [OF page_at_40 [OF ok s'(4)] m, of e]
  have r: "ty r = 4" using pt_okD(3) [OF ok, of r] by simp
  note lk = pt_okD(7) [OF ok]
  have pl: "ty p = Suc (Suc l)" by (rule table_at_ty [OF lk r p(1)])
  have f0: "ty f = 0" by (rule took_ok(2) [OF ok t])
  then have pf: "p \<noteq> f" using pl by auto
  have w'': "w' = w\<lparr>vm_pmm := s', phys_mem := poke ((phys_mem w)(f := ?c)) p ?i ?e\<rparr>"
    unfolding w' fold_set_entry [OF distinct_upt] by (simp add: s'(1) set_entry_poke cong: if_cong)
  have m': "phys_mem w' g j = (if g = f then ?c j else if g = p \<and> j = ?i then ?e else phys_mem w g j)" for g j
    using pf by (simp add: w'' poke_at)
  have nl: "\<not> link (Suc l) (?c j)" for j
    using c(2) [of "of_nat j * 2 ^ (12 + 9 * l)"] ix_surj [of j "12 + 9 * l"] p(2) by (auto simp: link_def)
  have "pt_ok (ty(f := Suc l)) r w'"
    by (rule install_table [OF ok pl ix_less _ s'(4,5,2,3,6) le(1-3) nl w'']) (use e in \<open>simp add: link_def\<close>)
  moreover have "g_pte_mask w' = g_pte_mask w" by (simp add: w'')
  moreover have "table_at (phys_mem w') (Suc (Suc l)) 4 r v = Some p"
  proof -
    have "phys_mem w' h j = phys_mem w h j" if "Suc (Suc l) < ty h" for h j using that f0 pl by (auto simp: m')
    then show ?thesis using table_at_upper [OF lk _ r, of "Suc (Suc l)" "phys_mem w'" v] p(1) by simp
  qed
  moreover have new: "\<exists>x y d. look (phys_mem w) (Suc (Suc l)) p u (VIEW_RIGHTS AND b) = Some (x, d) \<and>
      look (phys_mem w') (Suc (Suc l)) p u (VIEW_RIGHTS AND b) = Some (y, d) \<and> alike u y x \<and> cache_attr y = id (cache_attr x)"
    if t: "through (Suc (Suc l)) v u" for u b
  proof -
    have i: "ix (12 + 9 * Suc l) u = ?i" using t [unfolded through_def, rule_format, of "Suc l"] p(2) by simp
    let ?d = "c (ix (12 + 9 * l) u)"
    have "look (phys_mem w) (Suc (Suc l)) p u (VIEW_RIGHTS AND b) = Some ((Suc (Suc l), e), VIEW_RIGHTS AND b AND e)"
      using look_leaf [of "phys_mem w" p "Suc l" u] e unfolding i by (simp add: and.assoc del: look.simps)
    moreover have "look (phys_mem w') (Suc (Suc l)) p u (VIEW_RIGHTS AND b) =
        look (phys_mem w') (Suc l) f u (VIEW_RIGHTS AND b AND ?e)"
      using look_link [of "Suc l" "phys_mem w'" p u] le pf unfolding i by (simp add: m' link_def and.assoc del: look.simps)
    moreover have "look (phys_mem w') (Suc l) f u (VIEW_RIGHTS AND b AND ?e) =
        Some ((Suc l, ?d), VIEW_RIGHTS AND b AND (?e AND ?d))"
      using look_leaf [of "phys_mem w'" f l u] c(1,2) [of u] ix_less by (simp add: m' and.assoc del: look.simps)
    moreover have "VIEW_RIGHTS AND b AND (?e AND ?d) = VIEW_RIGHTS AND b AND e"
      by (rule view_rights_eq) (use le(4,5) c(5,6) [of u] in \<open>auto simp: bit_and_iff\<close>)
    ultimately show ?thesis using c(3,4) [of u] by simp
  qed
  have same: "phys_mem w' h j = phys_mem w h j" if "ty h \<noteq> 0" "(h, j) \<noteq> (p, ix (12 + 9 * (Suc (Suc l) - 1)) v)" for h j
    using that f0 by (auto simp: m')
  note cs = change_seen [OF ok p(1) _ same new]
  have "keeps r w w'" by (rule cs(1)) simp_all
  moreover have "attr r w' u = attr r w u" for u using cs(2) [of u] by (simp add: option.map_id)
  moreover have "card (free_frames (vm_pmm w)) \<le> card (free_frames (vm_pmm w')) + 1"
    using s'(5,6) by (simp add: w'' card_Diff_singleton)
  ultimately show ?thesis using pf by (simp add: m')
qed

section \<open>Write combining\<close>

text \<open>The addresses of the pages of a range; the bits above the four indices do not count.\<close>

definition span :: "u64 \<Rightarrow> u64 \<Rightarrow> u64 \<Rightarrow> bool" where
  "span a b u \<longleftrightarrow> (\<exists>x. a \<le> x \<and> x < b \<and> same_page x u)"

lemma span_empty [simp]: "\<not> span a a u" by (auto simp: span_def)

lemma span_append: "a \<le> b \<Longrightarrow> b \<le> c \<Longrightarrow> span a c u \<longleftrightarrow> span a b u \<or> span b c u"
  by (auto simp: span_def) (metis leI order.strict_trans1 order.strict_trans2 order.trans)+

lemma through_span:
  assumes l: "l < 4" and al: "unat v mod 2 ^ (12 + 9 * l) = 0" and b: "unat b = unat v + 2 ^ (12 + 9 * l)"
  shows "through (Suc l) v u \<longleftrightarrow> span v b u"
proof
  let ?s = "12 + 9 * l"
  have dv: "(unat v div 2 ^ ?s + 1) * 2 ^ ?s = unat b" using al b by (simp add: algebra_simps) (metis add.commute minus_mod_eq_mult_div diff_zero)
  assume "span v b u"
  then obtain x where x: "v \<le> x" "x < b" "same_page x u" by (auto simp: span_def)
  have "ix t x = ix t v" if "?s \<le> t" for t
    using ix_span [OF that, of v x] x(1,2) dv by (simp add: word_le_nat_alt word_less_nat_alt)
  then have "ix (12 + 9 * j) x = ix (12 + 9 * j) v" if "l \<le> j" for j using that by simp
  then show "through (Suc l) v u" using x(3) by (auto simp: through_def same_page_def)
next
  let ?s = "12 + 9 * l"
  assume t: "through (Suc l) v u"
  define x where "x = v OR take_bit ?s u"
  have lv: "\<not> bit v n" if "n < ?s" for n
  proof -
    have "take_bit ?s (unat v) = 0" using al by (simp add: take_bit_eq_mod)
    then have "\<not> bit (take_bit ?s (unat v)) n" by simp
    then show ?thesis using that by (simp add: bit_take_bit_iff bit_unsigned_iff)
  qed
  have bx: "bit x n \<longleftrightarrow> (if n < ?s then bit u n else bit v n)" for n using lv by (auto simp: x_def bit_or_iff bit_take_bit_iff)
  have "x = v + take_bit ?s u" unfolding x_def using lv by (intro disjunctive_add [symmetric]) (auto simp: bit_take_bit_iff)
  moreover have ub: "unat (take_bit ?s u) < 2 ^ ?s" by (simp add: unsigned_take_bit_eq)
  moreover have "unat b < 2 ^ 64" by (rule u64_bound)
  ultimately have ux: "unat x = unat v + unat (take_bit ?s u)" using b by (simp add: unat_word_ariths(1))
  have "ix (12 + 9 * k) x = ix (12 + 9 * k) u" if "k < 4" for k
  proof -
    have "ix (12 + 9 * k) x = ix (12 + 9 * k) (if k < l then u else v)"
      unfolding ix_def by (intro arg_cong [of _ _ unat] u64_eqI) (auto simp: bx bit_and_iff bit_drop_bit_eq bit_small_const)
    then show ?thesis using t that by (auto simp: through_def split: if_splits)
  qed
  then have "same_page x u" by (simp add: same_page_def)
  moreover have "v \<le> x" "x < b" using ux ub b by (simp_all add: word_le_nat_alt word_less_nat_alt)
  ultimately show "span v b u" by (auto simp: span_def)
qed

text \<open>The pages from \<open>a\<close> to \<open>b\<close> have become write combining; nothing else has changed.\<close>

definition wc_done :: "nat \<Rightarrow> u64 \<Rightarrow> u64 \<Rightarrow> vmm \<Rightarrow> vmm \<Rightarrow> bool" where
  "wc_done r a b w w' \<longleftrightarrow> keeps r w w' \<and> (\<forall>u. attr r w' u = (if span a b u then Some WRITE_COMBINING else attr r w u))"

lemma wc_done_trans:
  assumes "wc_done r a b w w1" "wc_done r b c w1 w2" "a \<le> b" "b \<le> c"
  shows "wc_done r a c w w2"
  using assms keeps_trans [of r w w1 w2] by (auto simp: wc_done_def span_append [OF assms(3,4)])

text \<open>The result of a turn of the loop at \<open>v\<close>, which takes at most \<open>n\<close> frames.\<close>

definition wc_res :: "nat \<Rightarrow> nat \<Rightarrow> u64 \<Rightarrow> u64 \<Rightarrow> vmm \<Rightarrow> u64 option \<Rightarrow> vmm \<Rightarrow> bool" where
  "wc_res n r till v w res w' \<longleftrightarrow> (\<exists>ty. pt_ok ty r w') \<and> g_pte_mask w' = g_pte_mask w \<and>
     card (free_frames (vm_pmm w)) \<le> card (free_frames (vm_pmm w')) + n \<and>
     (case res of
        None \<Rightarrow> wc_done r v v w w' \<and> (attr r w v = None \<or> free_frames (vm_pmm w') = {})
      | Some v1 \<Rightarrow> v < v1 \<and> v1 \<le> till \<and> on_page v1 \<and> wc_done r v v1 w w')"

text \<open>A first part that changes nothing visible can be put in front.\<close>

lemma wc_res_after:
  assumes "wc_res n r till v w1 res w'" "keeps r w w1" "\<And>u. attr r w1 u = attr r w u" "g_pte_mask w1 = g_pte_mask w"
    "card (free_frames (vm_pmm w)) \<le> card (free_frames (vm_pmm w1)) + 1"
  shows "wc_res (Suc n) r till v w res w'"
proof -
  have d: "wc_done r v v w w1" using assms(2,3) by (simp add: wc_done_def)
  show ?thesis using assms wc_done_trans [OF d] by (cases res) (auto simp: wc_res_def)
qed

lemma wc_res_none:
  assumes "pt_ok ty r w'" "phys_mem w' = phys_mem w" "g_pte_mask w' = g_pte_mask w" "attr r w v = None \<or> free_frames (vm_pmm w') = {}"
    "card (free_frames (vm_pmm w)) \<le> card (free_frames (vm_pmm w')) + n"
  shows "wc_res n r till v w None w'"
  using assms keeps_refl [of r w] unfolding wc_res_def wc_done_def keeps_def attr_def by auto

lemma wc_res_mono: "wc_res n r till v w res w' \<Longrightarrow> n \<le> k \<Longrightarrow> wc_res k r till v w res w'"
  by (auto simp: wc_res_def)

lemma walk_at: "table_at m k l f v = Some p \<Longrightarrow> walk m l f v = walk m k p v"
proof (induction l arbitrary: f)
  case (Suc l)
  show ?case
  proof (cases "Suc l = k")
    case True
    with Suc.prems table_at_top [OF True, of m f v] show ?thesis by simp
  next
    case False
    let ?e = "m f (ix (12 + 9 * l) v)"
    have k: "link (Suc l) ?e" "table_at m k l (fr ?e) v = Some p" using Suc.prems False by (auto simp: Let_def split: if_splits)
    from walk_step [of l m f v, OF k(1)] Suc.IH [OF k(2)] show ?thesis by simp
  qed
qed simp

lemma wc_entry_attr: "cache_attr (Suc 0, wc_small e) = WRITE_COMBINING" "cache_attr (Suc (Suc l), wc_large e) = WRITE_COMBINING"
  by (simp_all add: cache_attr_def WRITE_COMBINING_def wc_small_bit wc_large_bit)

lemma wc_small_ok:
  assumes ok: "pt_ok ty r w" and g: "table_at (phys_mem w) 1 4 r v = Some g" "has (phys_mem w g (ix 12 v)) VMM_PRESENT"
    and v: "v < till" "on_page v" "on_page till"
  shows "wc_res 0 r till v w (Some (v + 4096)) (set_entry (g * PAGE_SIZE) (ix 12 v) (wc_small (phys_mem w g (ix 12 v))) w)"
proof -
  let ?e = "phys_mem w g (ix 12 v)" and ?w' = "set_entry (g * PAGE_SIZE) (ix 12 v) (wc_small (phys_mem w g (ix 12 v))) w"
  note pg = pages_of_Cons [OF v]
  have b: "has (wc_small ?e) VMM_PRESENT" "bit (wc_small ?e) 1 \<longleftrightarrow> bit ?e 1" "bit (wc_small ?e) 2 \<longleftrightarrow> bit ?e 2"
    using g(2) by (simp_all add: has_bit wc_small_bit)
  note sp = set_page_ok [OF ok, of 0 v g ?e "wc_small ?e" ?w']
  have "pt_ok ty r ?w'" "keeps r w ?w'" "\<And>u. attr r ?w' u = (if through (Suc 0) v u then Some WRITE_COMBINING else attr r w u)"
    using sp g b wc_small_alike wc_entry_attr by simp_all
  moreover have "through (Suc 0) v u \<longleftrightarrow> span v (v + 4096) u" for u
    using through_span [of 0 v "v + 4096" u] v(2) pg by (simp add: on_page_def)
  ultimately show ?thesis using pg by (auto simp: wc_res_def wc_done_def word_less_nat_alt)
qed

text \<open>A whole large page; the mask that the code uses to find the next one.\<close>

lemma next_large:
  assumes s: "12 \<le> s" "s < 64" and v: "(v :: u64) < till" "v AND mask s = 0" "2 ^ s \<le> till - v"
  shows "unat ((v + 2 ^ s) AND NOT (mask s)) = unat v + 2 ^ s" "unat v mod 2 ^ s = 0" "unat v + 2 ^ s \<le> unat till"
proof -
  have p: "unat (2 ^ s :: u64) = 2 ^ s" 
  proof -
    have "(2 :: nat) ^ s < 2 ^ 64" using s(2) by (intro power_strict_increasing) simp_all
    moreover have "unat (of_nat (2 ^ s) :: u64) = 2 ^ s mod 2 ^ 64" by (simp only: unat_of_nat) simp
    ultimately have "unat (of_nat (2 ^ s) :: u64) = 2 ^ s" by (simp only: mod_less)
    then show ?thesis by simp
  qed
  have "unat (till - v) = unat till - unat v" by (rule unat_sub) (use v(1) in simp)
  then show le: "unat v + 2 ^ s \<le> unat till" 
    using v(1,3) p unfolding word_le_nat_alt word_less_nat_alt by linarith
  have a: "unat (v + 2 ^ s) = unat v + 2 ^ s" using le u64_bound [of till] p by (simp add: unat_word_ariths(1))
  have "take_bit s v = 0" using v(2) by (simp add: take_bit_eq_mask)
  then have "take_bit s (unat v) = 0" by (metis unsigned_take_bit_eq unsigned_0)
  then show m: "unat v mod 2 ^ s = 0" by (simp add: take_bit_eq_mod)
  have "take_bit s (unat (v + 2 ^ s)) = 0" using m by (simp add: a take_bit_eq_mod)
  then have "take_bit s (v + 2 ^ s) = 0" by (metis unsigned_take_bit_eq unsigned_eq_0_iff)
  then have "\<not> bit (take_bit s (v + 2 ^ s)) n" for n by simp
  then have "(v + 2 ^ s) AND NOT (mask s) = v + 2 ^ s"
    by (intro u64_eqI) (auto simp: bit_and_iff bit_not_iff bit_mask_iff bit_take_bit_iff)
  with a show "unat ((v + 2 ^ s) AND NOT (mask s)) = unat v + 2 ^ s" by simp
qed

lemma wc_large_ok:
  assumes ok: "pt_ok ty r w" and p: "table_at (phys_mem w) (Suc (Suc l)) 4 r v = Some p" "l < 2"
    and e: "e = phys_mem w p (ix (12 + 9 * Suc l) v)" "has e VMM_PRESENT" "has e VMM_PSE"
    and s: "s = 12 + 9 * Suc l" and v: "v < till" "v AND mask s = 0" "2 ^ s \<le> till - v" "on_page v"
  shows "wc_res 0 r till v w (Some ((v + 2 ^ s) AND NOT (mask s)))
    (set_entry (p * PAGE_SIZE) (ix (12 + 9 * Suc l) v) (wc_large e) w)"
proof -
  let ?b = "(v + 2 ^ s) AND NOT (mask s)" and ?w' = "set_entry (p * PAGE_SIZE) (ix (12 + 9 * Suc l) v) (wc_large e) w"
  have s2: "12 \<le> s" "s < 64" using s p(2) by simp_all
  note nl = next_large [OF s2 v(1-3)]
  have b: "has (wc_large e) VMM_PRESENT" "has (wc_large e) VMM_PSE" "bit (wc_large e) 1 \<longleftrightarrow> bit e 1" "bit (wc_large e) 2 \<longleftrightarrow> bit e 2"
    using e(2,3) by (simp_all add: has_bit wc_large_bit)
  note sp = set_page_ok [OF ok p(1) _ e(1,2) _ b(1) _ _ b(3,4) wc_entry_attr(2) refl]
  have r: "pt_ok ty r ?w'" "keeps r w ?w'" "\<And>u. attr r ?w' u = (if through (Suc (Suc l)) v u then Some WRITE_COMBINING else attr r w u)"
    by (rule sp; use p(2) e(3) b(2) wc_large_alike in simp)+
  have "through (Suc (Suc l)) v u \<longleftrightarrow> span v ?b u" for u
    using through_span [of "Suc l" v ?b u] p(2) nl s by simp
  moreover have "(2 :: nat) ^ s = 4096 * 2 ^ (s - 12)" using s2 power_add [of "2 :: nat" 12 "s - 12"] by simp
  then have "on_page ?b" using v(4) nl(1) by (simp add: on_page_def)
  moreover have "v < ?b" "?b \<le> till" using nl by (simp_all add: word_less_nat_alt word_le_nat_alt)
  ultimately show ?thesis using r by (auto simp: wc_res_def wc_done_def)
qed

text \<open>Splitting: either memory has run out and nothing has changed, or the page is a table that maps the same.\<close>

definition split_res :: "nat \<Rightarrow> nat \<Rightarrow> u64 \<Rightarrow> nat \<Rightarrow> nat \<Rightarrow> vmm \<Rightarrow> bool \<Rightarrow> vmm \<Rightarrow> bool" where
  "split_res l r v p i w okay w' \<longleftrightarrow> (\<exists>ty. pt_ok ty r w') \<and> g_pte_mask w' = g_pte_mask w \<and>
     (if okay then keeps r w w' \<and> (\<forall>u. attr r w' u = attr r w u) \<and>
        table_at (phys_mem w') (Suc (Suc l)) 4 r v = Some p \<and> link (Suc (Suc l)) (phys_mem w' p i) \<and>
        card (free_frames (vm_pmm w)) \<le> card (free_frames (vm_pmm w')) + 1
      else phys_mem w' = phys_mem w \<and> free_frames (vm_pmm w) = {} \<and> free_frames (vm_pmm w') = {})"

lemma took_none:
  assumes "pt_ok ty r w" "free_frames s' = {}" "pmm_wf s'" "mem_end s' = mem_end (vm_pmm w)"
  shows "pt_ok ty r (w\<lparr>vm_pmm := s'\<rparr>)"
  unfolding pt_ok_def using assms page_at_cong [OF assms(4)] pt_okD [OF assms(1)] by simp

lemma split_large_pdpte_ok:
  assumes ok: "pt_ok ty r w" and p: "table_at (phys_mem w) 3 4 r v = Some p" and m: "mask_ok (g_pte_mask w)"
    and e: "has (phys_mem w p (ix 30 v)) VMM_PRESENT" "has (phys_mem w p (ix 30 v)) VMM_PSE"
  shows "\<exists>okay w'. split_large_pdpte (p * PAGE_SIZE) (ix 30 v) w = Done (okay, w') \<and> split_res 1 r v p (ix 30 v) w okay w'"
proof -
  let ?e = "phys_mem w p (ix 30 v)"
  from alloc_zero_ok [OF pt_okD(1) [OF ok]] show ?thesis
  proof (elim disjE exE conjE)
    fix s' assume s': "pmm_alloc_zero 1 w = Done (0, w\<lparr>vm_pmm := s'\<rparr>)" "free_frames s' = {}" "pmm_wf s'" "mem_end s' = mem_end (vm_pmm w)"
      and none: "free_frames (vm_pmm w) = {}"
    then show ?thesis
      using took_none [OF ok s'(2-4)] by (intro exI [of _ False] exI [of _ "w\<lparr>vm_pmm := s'\<rparr>"]) (auto simp: split_large_pdpte_def split_res_def)
  next
    fix q f w1 assume a: "pmm_alloc_zero 1 w = Done (q, w1)" "q \<noteq> 0" "virt_to_phys (vm_pmm w1) q = f * PAGE_SIZE" "took f w w1"
    let ?w' = "set_entry (p * PAGE_SIZE) (ix (12 + 9 * Suc 1) v) (link_entry f ?e AND g_pte_mask w)
      (fold (\<lambda>j. set_entry (f * PAGE_SIZE) j (split_pdpte_entry ?e j)) [0..<512] w1)"
    have run: "split_large_pdpte (p * PAGE_SIZE) (ix 30 v) w = Done (True, ?w')"
      using a tookD(3) [OF a(4)] by (simp add: split_large_pdpte_def Let_def split_pdpte_entry_def link_entry_def)
    have b: "bit ?e 0" "bit ?e 7" using e by (simp_all add: has_bit)
    have f40: "f < 2 ^ 40" using page_at_40 [OF took_ok(1,4) [OF ok a(4)]] .
    have "pt_ok (ty(f := Suc 1)) r ?w' \<and> g_pte_mask ?w' = g_pte_mask w \<and> keeps r w ?w' \<and> (\<forall>u. attr r ?w' u = attr r w u) \<and>
        table_at (phys_mem ?w') (Suc (Suc 1)) 4 r v = Some p \<and>
        phys_mem ?w' p (ix (12 + 9 * Suc 1) v) = link_entry f ?e AND g_pte_mask w \<and>
        card (free_frames (vm_pmm w)) \<le> card (free_frames (vm_pmm ?w')) + 1"
      by (rule split_ok [OF ok _ _ _ e a(4) m, where c = "split_pdpte_entry ?e"])
        (use p b split_pdpte_alike in \<open>simp_all add: has_bit split_pdpte_bit cache_attr_def numeral_3_eq_3 numeral_2_eq_2\<close>)
    with masked_link [OF f40 m, of ?e] have "split_res 1 r v p (ix 30 v) w True ?w'" by (auto simp: split_res_def link_def)
    with run show ?thesis by blast
  qed
qed

lemma split_large_pde_ok:
  assumes ok: "pt_ok ty r w" and p: "table_at (phys_mem w) 2 4 r v = Some p" and m: "mask_ok (g_pte_mask w)"
    and e: "has (phys_mem w p (ix 21 v)) VMM_PRESENT" "has (phys_mem w p (ix 21 v)) VMM_PSE"
  shows "\<exists>okay w'. split_large_pde (p * PAGE_SIZE) (ix 21 v) w = Done (okay, w') \<and> split_res 0 r v p (ix 21 v) w okay w'"
proof -
  let ?e = "phys_mem w p (ix 21 v)"
  from alloc_zero_ok [OF pt_okD(1) [OF ok]] show ?thesis
  proof (elim disjE exE conjE)
    fix s' assume s': "pmm_alloc_zero 1 w = Done (0, w\<lparr>vm_pmm := s'\<rparr>)" "free_frames s' = {}" "pmm_wf s'" "mem_end s' = mem_end (vm_pmm w)"
      and none: "free_frames (vm_pmm w) = {}"
    then show ?thesis
      using took_none [OF ok s'(2-4)] by (intro exI [of _ False] exI [of _ "w\<lparr>vm_pmm := s'\<rparr>"]) (auto simp: split_large_pde_def split_res_def)
  next
    fix q f w1 assume a: "pmm_alloc_zero 1 w = Done (q, w1)" "q \<noteq> 0" "virt_to_phys (vm_pmm w1) q = f * PAGE_SIZE" "took f w w1"
    let ?w' = "set_entry (p * PAGE_SIZE) (ix (12 + 9 * Suc 0) v) (link_entry f ?e AND g_pte_mask w)
      (fold (\<lambda>j. set_entry (f * PAGE_SIZE) j (split_pde_entry ?e j)) [0..<512] w1)"
    have run: "split_large_pde (p * PAGE_SIZE) (ix 21 v) w = Done (True, ?w')"
      using a tookD(3) [OF a(4)] by (simp add: split_large_pde_def Let_def split_pde_entry_def link_entry_def)
    have b: "bit ?e 0" "bit ?e 7" using e by (simp_all add: has_bit)
    have f40: "f < 2 ^ 40" using page_at_40 [OF took_ok(1,4) [OF ok a(4)]] .
    have "pt_ok (ty(f := Suc 0)) r ?w' \<and> g_pte_mask ?w' = g_pte_mask w \<and> keeps r w ?w' \<and> (\<forall>u. attr r ?w' u = attr r w u) \<and>
        table_at (phys_mem ?w') (Suc (Suc 0)) 4 r v = Some p \<and>
        phys_mem ?w' p (ix (12 + 9 * Suc 0) v) = link_entry f ?e AND g_pte_mask w \<and>
        card (free_frames (vm_pmm w)) \<le> card (free_frames (vm_pmm ?w')) + 1"
      by (rule split_ok [OF ok _ _ _ e a(4) m, where c = "split_pde_entry ?e"])
        (use p b split_pde_alike in \<open>simp_all add: has_bit split_pde_bit cache_attr_def numeral_2_eq_2\<close>)
    with masked_link [OF f40 m, of ?e] have "split_res 0 r v p (ix 21 v) w True ?w'" by (auto simp: split_res_def link_def)
    with run show ?thesis by blast
  qed
qed

lemma attr_at:
  assumes "table_at (phys_mem w) (Suc l) 4 r v = Some p" "\<not> has (phys_mem w p (ix (12 + 9 * l) v)) VMM_PRESENT"
  shows "attr r w v = None"
  unfolding attr_def walk_at [OF assms(1)] using assms(2) by simp

lemma masks: "MIB2 - 1 = mask 21" "MIB2 = 2 ^ 21" "0x1FFFFF = (mask 21 :: u64)" "0x200000 = (2 ^ 21 :: u64)"
    "GIB - 1 = mask 30" "GIB = 2 ^ 30" "0x3FFFFFFF = (mask 30 :: u64)" "0x40000000 = (2 ^ 30 :: u64)"
  by (simp_all add: MIB2_def GIB_def mask_eq_exp_minus_1)

text \<open>The second half of a turn, from a page directory that is not a large page.\<close>

lemma wc_leaf_ok:
  assumes ok: "pt_ok ty r w" and p: "table_at (phys_mem w) 2 4 r v = Some p" and l: "link 2 (phys_mem w p (ix 21 v))"
    and v: "v < till" "on_page v" "on_page till"
  shows "\<exists>res w'. (let pt = pte_phys (phys_mem w p (ix 21 v)); e1 = entry w pt (ix 12 v) in
      if \<not> has e1 VMM_PRESENT then Done (None, w) else Done (Some (v + 4096), set_entry pt (ix 12 v) (wc_small e1) w)) =
      Done (res, w') \<and> wc_res 0 r till v w res w'"
proof -
  let ?g = "fr (phys_mem w p (ix 21 v))"
  have g: "table_at (phys_mem w) 1 4 r v = Some ?g"
    using table_at_down [OF p, of 1] table_at_step [of 1 1 "phys_mem w" p v] l by (simp add: numeral_2_eq_2)
  show ?thesis
  proof (cases "has (phys_mem w ?g (ix 12 v)) VMM_PRESENT")
    case True
    then show ?thesis using wc_small_ok [OF ok g True v] by (auto simp: Let_def pte_phys_fr)
  next
    case False
    then have "attr r w v = None" using attr_at [of w 0 r v ?g] g by simp
    with wc_res_none [OF ok refl refl] False show ?thesis by (auto simp: Let_def pte_phys_fr)
  qed
qed

lemma wc_pde_ok:
  assumes ok: "pt_ok ty r w" and p: "table_at (phys_mem w) 2 4 r v = Some p" and m: "mask_ok (g_pte_mask w)"
    and v: "v < till" "on_page v" "on_page till"
  shows "\<exists>res w'. wc_pde (p * PAGE_SIZE) till v w = Done (res, w') \<and> wc_res 1 r till v w res w'"
proof -
  let ?e = "phys_mem w p (ix 21 v)"
  consider "\<not> has ?e VMM_PRESENT"
    | (split) "has ?e VMM_PRESENT" "has ?e VMM_PSE" "v AND (MIB2 - 1) \<noteq> 0 \<or> till - v < MIB2"
    | (whole) "has ?e VMM_PRESENT" "has ?e VMM_PSE" "\<not> (v AND (MIB2 - 1) \<noteq> 0 \<or> till - v < MIB2)"
    | (table) "has ?e VMM_PRESENT" "\<not> has ?e VMM_PSE" by blast
  then show ?thesis
  proof cases
    case 1
    then have "attr r w v = None" using attr_at [of w 1 r v p] p by (simp add: numeral_2_eq_2)
    with wc_res_none [OF ok refl refl] 1 show ?thesis by (auto simp: wc_pde_def Let_def)
  next
    case split
    from split_large_pde_ok [OF ok p m split(1,2)] obtain okay w1
      where s: "split_large_pde (p * PAGE_SIZE) (ix 21 v) w = Done (okay, w1)" "split_res 0 r v p (ix 21 v) w okay w1" by blast
    show ?thesis
    proof (cases okay)
      case False
      with s(2) have "wc_res 1 r till v w None w1" by (auto simp: split_res_def intro: wc_res_none)
      with s(1) False split show ?thesis by (simp add: wc_pde_def Let_def)
    next
      case True
      with s(2) obtain ty1 where w1: "pt_ok ty1 r w1" "g_pte_mask w1 = g_pte_mask w" "keeps r w w1" "\<And>u. attr r w1 u = attr r w u"
        "link 2 (phys_mem w1 p (ix 21 v))" "table_at (phys_mem w1) 2 4 r v = Some p"
        "card (free_frames (vm_pmm w)) \<le> card (free_frames (vm_pmm w1)) + 1" by (auto simp: split_res_def numeral_2_eq_2)
      from wc_leaf_ok [OF w1(1,6,5) v] obtain res w' where "wc_pde (p * PAGE_SIZE) till v w = Done (res, w')" "wc_res 0 r till v w1 res w'"
        using s(1) True split w1(5) by (auto simp: wc_pde_def Let_def link_def)
      with wc_res_after [OF _ w1(3,4,2,7)] show ?thesis by auto
    qed
  next
    case whole
    have p2: "table_at (phys_mem w) (Suc (Suc 0)) 4 r v = Some p" using p by (simp only: numeral_2_eq_2)
    have e2: "?e = phys_mem w p (ix (12 + 9 * Suc 0) v)" by simp
    have al: "v AND mask 21 = 0" "2 ^ 21 \<le> till - v" using whole(3) unfolding masks(1,2) by (simp_all only: not_less de_Morgan_disj not_not mask_eq_exp_minus_1)
    have "wc_res 1 r till v w (Some ((v + 2 ^ 21) AND NOT (mask 21)))
        (set_entry (p * PAGE_SIZE) (ix (12 + 9 * Suc 0) v) (wc_large ?e) w)"
      by (rule wc_res_mono [OF wc_large_ok [OF ok p2 _ e2 whole(1,2) _ v(1) al v(2)]]) simp_all
    moreover have "wc_pde (p * PAGE_SIZE) till v w =
        Done (Some ((v + 2 ^ 21) AND NOT (mask 21)), set_entry (p * PAGE_SIZE) (ix 21 v) (wc_large ?e) w)"
      unfolding wc_pde_def masks(3,4) using whole by simp
    ultimately show ?thesis by auto
  next
    case table
    then have "link 2 ?e" by (simp add: link_def)
    from wc_leaf_ok [OF ok p this v] obtain res w' where "wc_pde (p * PAGE_SIZE) till v w = Done (res, w')" "wc_res 0 r till v w res w'"
      using table by (auto simp: wc_pde_def Let_def)
    then show ?thesis using wc_res_mono [of 0 r till v w res w' 1] by auto
  qed
qed

lemma next_table_at:
  assumes "table_at m (Suc (Suc l)) 4 r v = Some p" "link (Suc (Suc l)) (m p (ix (12 + 9 * Suc l) v))"
  shows "table_at m (Suc l) 4 r v = Some (fr (m p (ix (12 + 9 * Suc l) v)))"
proof -
  have "table_at m (Suc l) (Suc (Suc l)) p v = table_at m (Suc l) (Suc l) (fr (m p (ix (12 + 9 * Suc l) v))) v"
    by (rule table_at_step) (use assms(2) in simp_all)
  also have "\<dots> = Some (fr (m p (ix (12 + 9 * Suc l) v)))" by (rule table_at_top) simp
  finally show ?thesis using table_at_down [OF assms(1), of "Suc l"] by simp
qed

lemma wc_pdpte_ok:
  assumes ok: "pt_ok ty r w" and p: "table_at (phys_mem w) 3 4 r v = Some p" and m: "mask_ok (g_pte_mask w)"
    and l: "link 3 (phys_mem w p (ix 30 v))" and v: "v < till" "on_page v" "on_page till"
  shows "\<exists>res w'. wc_pde (pte_phys (phys_mem w p (ix 30 v))) till v w = Done (res, w') \<and> wc_res 1 r till v w res w'"
proof -
  have "table_at (phys_mem w) 2 4 r v = Some (fr (phys_mem w p (ix 30 v)))"
    using next_table_at [of "phys_mem w" 1 r v p] p l by (simp add: numeral_2_eq_2 numeral_3_eq_3)
  from wc_pde_ok [OF ok this m v] show ?thesis by (simp add: pte_phys_fr)
qed

lemma wc_step_ok:
  assumes ok: "pt_ok ty r w" and pm: "pm_pml4 pm = r * PAGE_SIZE" and m: "mask_ok (g_pte_mask w)"
    and v: "v < till" "on_page v" "on_page till"
  shows "\<exists>res w'. wc_step pm till v w = Done (res, w') \<and> wc_res 2 r till v w res w'"
proof -
  let ?e4 = "phys_mem w r (ix 39 v)" and ?p = "fr (phys_mem w r (ix 39 v))"
  let ?e = "phys_mem w ?p (ix 30 v)"
  show ?thesis
  proof (cases "has ?e4 VMM_PRESENT")
    case False
    then have "attr r w v = None" by (simp add: attr_def walk_4)
    with wc_res_none [OF ok refl refl] False show ?thesis by (auto simp: wc_step_def Let_def pm)
  next
    case e4: True
    then have "link 4 ?e4" using pt_okD(8) [OF ok ix_less, of 39 v] by (simp add: link_def)
    then have p: "table_at (phys_mem w) 3 4 r v = Some ?p"
      using next_table_at [of "phys_mem w" 2 r v r] table_at_top [of 3 4 "phys_mem w" r v] by (simp add: eval_nat_numeral)
    consider "\<not> has ?e VMM_PRESENT"
      | (split) "has ?e VMM_PRESENT" "has ?e VMM_PSE" "v AND (GIB - 1) \<noteq> 0 \<or> till - v < GIB"
      | (whole) "has ?e VMM_PRESENT" "has ?e VMM_PSE" "\<not> (v AND (GIB - 1) \<noteq> 0 \<or> till - v < GIB)"
      | (table) "has ?e VMM_PRESENT" "\<not> has ?e VMM_PSE" by blast
    then show ?thesis
    proof cases
      case 1
      then have "attr r w v = None" using attr_at [of w 2 r v ?p] p by (simp add: numeral_3_eq_3)
      with wc_res_none [OF ok refl refl] 1 e4 show ?thesis by (auto simp: wc_step_def Let_def pm)
    next
      case split
      from split_large_pdpte_ok [OF ok p m split(1,2)] obtain okay w1
        where s: "split_large_pdpte (?p * PAGE_SIZE) (ix 30 v) w = Done (okay, w1)" "split_res 1 r v ?p (ix 30 v) w okay w1" by blast
      show ?thesis
      proof (cases okay)
        case False
        with s(2) have "wc_res 2 r till v w None w1" by (auto simp: split_res_def intro: wc_res_none)
        with s(1) False split e4 show ?thesis by (simp add: wc_step_def Let_def pm pte_phys_fr)
      next
        case True
        with s(2) obtain ty1 where w1: "pt_ok ty1 r w1" "g_pte_mask w1 = g_pte_mask w" "keeps r w w1" "\<And>u. attr r w1 u = attr r w u"
          "link 3 (phys_mem w1 ?p (ix 30 v))" "table_at (phys_mem w1) 3 4 r v = Some ?p"
          "card (free_frames (vm_pmm w)) \<le> card (free_frames (vm_pmm w1)) + 1" by (auto simp: split_res_def numeral_3_eq_3)
        have "wc_step pm till v w = wc_pde (pte_phys (phys_mem w1 ?p (ix 30 v))) till v w1"
          using s(1) True split e4 w1(5) by (simp add: wc_step_def Let_def link_def pm pte_phys_fr)
        with wc_pdpte_ok [OF w1(1,6) _ w1(5) v] m w1(2) wc_res_after [OF _ w1(3,4,2,7), of 1] show ?thesis
          by (auto simp: numeral_2_eq_2)
      qed
    next
      case whole
      have p3: "table_at (phys_mem w) (Suc (Suc 1)) 4 r v = Some ?p" using p by (simp add: numeral_3_eq_3)
      have e3: "?e = phys_mem w ?p (ix (12 + 9 * Suc 1) v)" by simp
      have al: "v AND mask 30 = 0" "2 ^ 30 \<le> till - v"
        using whole(3) unfolding masks(5,6) by (simp_all only: not_less de_Morgan_disj not_not mask_eq_exp_minus_1)
      have "wc_res 2 r till v w (Some ((v + 2 ^ 30) AND NOT (mask 30)))
          (set_entry (?p * PAGE_SIZE) (ix (12 + 9 * Suc 1) v) (wc_large ?e) w)"
        by (rule wc_res_mono [OF wc_large_ok [OF ok p3 _ e3 whole(1,2) _ v(1) al v(2)]]) simp_all
      moreover have "wc_step pm till v w =
          Done (Some ((v + 2 ^ 30) AND NOT (mask 30)), set_entry (?p * PAGE_SIZE) (ix 30 v) (wc_large ?e) w)"
        unfolding wc_step_def masks(7,8) using whole e4 by (simp add: Let_def pm pte_phys_fr)
      ultimately show ?thesis by auto
    next
      case table
      then have "link 3 ?e" by (simp add: link_def)
      from wc_pdpte_ok [OF ok p m this v] obtain res w' where "wc_step pm till v w = Done (res, w')" "wc_res 1 r till v w res w'"
        using table e4 by (auto simp: wc_step_def Let_def pm)
      then show ?thesis using wc_res_mono [of 1 r till v w res w' 2] by auto
    qed
  qed
qed

text \<open>The loop returns; when it gives up, the pages before the one where it stopped are done.\<close>

lemma wc_loop_ok:
  assumes "pt_ok ty r w" "pm_pml4 pm = r * PAGE_SIZE" "mask_ok (g_pte_mask w)" "v \<le> till" "on_page v" "on_page till"
  shows "\<exists>okay w' b. wc_loop pm till v w = Some (okay, w') \<and> (\<exists>ty. pt_ok ty r w') \<and> wc_done r v b w w' \<and> v \<le> b \<and>
    (if okay then b = till
     else b < till \<and> (attr r w b = None \<or> card (free_frames (vm_pmm w)) \<le> 2 * ((unat till - unat v) div 4096)))"
  using assms
proof (induction "unat till - unat v" arbitrary: v w ty rule: less_induct)
  case less
  note unf = wc_loop.simps [of pm till v w]
  show ?case
  proof (cases "v < till")
    case False
    then have "v = till" using less.prems(4) by simp
    moreover have "wc_done r till till w w" using keeps_refl by (simp add: wc_done_def)
    ultimately show ?thesis using less.prems(1) unf by (intro exI [of _ True] exI [of _ w] exI [of _ till]) auto
  next
    case True
    from wc_step_ok [OF less.prems(1-3) True less.prems(5,6)] obtain res w1
      where s: "wc_step pm till v w = Done (res, w1)" "wc_res 2 r till v w res w1" by blast
    from s(2) obtain ty1 where t: "pt_ok ty1 r w1" "g_pte_mask w1 = g_pte_mask w" by (auto simp: wc_res_def)
    have less: "4096 \<le> unat y - unat x" if "x < y" "on_page x" "on_page y" for x y :: u64
      using pages_of_Cons [OF that] unfolding word_le_nat_alt by linarith
    have fs: "card (free_frames (vm_pmm w)) \<le> card (free_frames (vm_pmm w1)) + 2" using s(2) by (simp add: wc_res_def)
    show ?thesis
    proof (cases res)
      case None
      have "1 \<le> (unat till - unat v) div 4096" using less [OF True less.prems(5,6)] by (simp add: less_eq_div_iff_mult_less_eq)
      with None s True t fs show ?thesis by (intro exI [of _ False] exI [of _ w1] exI [of _ v]) (auto simp: unf wc_res_def)
    next
      case (Some v1)
      with s(2) have v1: "v < v1" "v1 \<le> till" "on_page v1" and d: "wc_done r v v1 w w1" by (auto simp: wc_res_def)
      have "unat till - unat v1 < unat till - unat v" using v1 True by (simp add: word_less_nat_alt diff_less_mono2)
      from less.hyps [OF this t(1) less.prems(2) _ v1(2,3) less.prems(6)] less.prems(3) t(2)
      obtain okay w' b where h: "wc_loop pm till v1 w1 = Some (okay, w')" "\<exists>ty. pt_ok ty r w'" "wc_done r v1 b w1 w'" "v1 \<le> b"
        "if okay then b = till
         else b < till \<and> (attr r w1 b = None \<or> card (free_frames (vm_pmm w1)) \<le> 2 * ((unat till - unat v1) div 4096))" by auto
      have "unat till - unat v1 + 4096 \<le> unat till - unat v"
        using less [OF v1(1) less.prems(5) v1(3)] v1(2) by (simp add: word_le_nat_alt)
      from div_le_mono [OF this, of 4096] have "(unat till - unat v1) div 4096 + 1 \<le> (unat till - unat v) div 4096" by simp
      moreover have "attr r w1 b = None \<Longrightarrow> attr r w b = None" using d by (auto simp: wc_done_def split: if_splits)
      moreover have "wc_done r v b w w'" using wc_done_trans [OF d h(3)] v1(1) h(4) by simp
      ultimately show ?thesis
        using h s(1) Some True v1(1) fs by (intro exI [of _ okay] exI [of _ w'] exI [of _ b]) (auto simp: unf split: if_splits)
    qed
  qed
qed

text \<open>What \<open>keeps\<close> says of the functions that read the tables.\<close>

lemma keeps_reads:
  assumes k: "keeps r w w'" and ok: "pt_ok ty r w" "pt_ok ty' r w'" and pm: "pm_pml4 pm = r * PAGE_SIZE"
  shows "vmm_virt_to_phys pm u w' = vmm_virt_to_phys pm u w" "vmm_virt_flags pm u w' = vmm_virt_flags pm u w"
    "map_option (\<lambda>f. f AND KEPT_FLAGS) (vmm_get_page_flags pm u w') = map_option (\<lambda>f. f AND KEPT_FLAGS) (vmm_get_page_flags pm u w)"
proof -
  let ?l = "look (phys_mem w) 4 r u VIEW_RIGHTS" and ?l' = "look (phys_mem w') 4 r u VIEW_RIGHTS"
  have rel: "rel_option (\<lambda>(y, c) (x, d). alike u y x \<and> c = d) ?l' ?l" using k by (simp add: keeps_def)
  have w: "walk (phys_mem w) 4 r u = map_option fst ?l" "walk (phys_mem w') 4 r u = map_option fst ?l'" by (simp_all only: look_walk)
  have fl: "FLAG_BITS AND KEPT_FLAGS = KEPT_FLAGS" by (simp add: KEPT_FLAGS_def)
  show "vmm_virt_to_phys pm u w' = vmm_virt_to_phys pm u w"
    unfolding vmm_virt_to_phys_walk [OF ok(1) pm] vmm_virt_to_phys_walk [OF ok(2) pm] w
    using rel by (cases ?l; cases ?l') (auto simp: alike_def)
  show "vmm_virt_flags pm u w' = vmm_virt_flags pm u w"
    unfolding vmm_virt_flags_look [OF ok(1) pm] vmm_virt_flags_look [OF ok(2) pm] using rel by (cases ?l; cases ?l') auto
  show "map_option (\<lambda>f. f AND KEPT_FLAGS) (vmm_get_page_flags pm u w') = map_option (\<lambda>f. f AND KEPT_FLAGS) (vmm_get_page_flags pm u w)"
    unfolding vmm_get_page_flags_walk [OF ok(1) pm] vmm_get_page_flags_walk [OF ok(2) pm] w
    using rel by (cases ?l; cases ?l') (auto simp: alike_def and.assoc fl)
qed

lemma attr_None_iff:
  assumes "pt_ok ty r w" "pm_pml4 pm = r * PAGE_SIZE"
  shows "attr r w u = None \<longleftrightarrow> vmm_virt_to_phys pm u w = None"
  unfolding vmm_virt_to_phys_walk [OF assms] by (simp add: attr_def)

end
