(* ===== verification/Vmm_Properties.thy ===== *)
theory Vmm_Properties
  imports Vmm_Client Vmm_Large Boot_State
begin

unbundle bit_operations_syntax

text \<open>
  The properties of the page tables of \<^verbatim>\<open>memory/vmm.c\<close>.  The witnesses start from the memory of
  \<open>boot_state\<close>, with one frame taken for the root table of the kernel, which is empty.
\<close>

definition boot_vmm :: vmm where
  "boot_vmm = \<lparr>vm_pmm = alloc_state 1 boot_state, phys_mem = (\<lambda>_ _. 0), kernel_pml4 = 257 * PAGE_SIZE, g_pte_mask = NOT 0\<rparr>"

definition boot_pm :: vmm_pagemap where
  "boot_pm = vmm_get_kernel_pagemap boot_vmm"

definition boot_ty :: "nat \<Rightarrow> nat" where
  "boot_ty = (\<lambda>_. 0)(257 := 4)"

lemma boot_pm_root: "pm_pml4 boot_pm = 257 * PAGE_SIZE"
  by (simp add: boot_pm_def boot_vmm_def vmm_get_kernel_pagemap_def)

lemma boot_free: "free_frames (vm_pmm boot_vmm) = {258..<264}"
  and boot_vmm_wf: "pmm_wf (vm_pmm boot_vmm)"
  and boot_mem_end: "mem_end (vm_pmm boot_vmm) = 0x108000"
proof -
  have a: "alloc_addr 1 boot_state = 0xffff800000101000" by code_simp
  have h: "hhdm_offset (alloc_state 1 boot_state) = 0xffff800000000000" by code_simp
  note f = boot_free_frames
  from alloc_one [OF boot_wf] alloc_done [of 1 boot_state] a
  have w: "pmm_wf (alloc_state 1 boot_state)" "mem_end (alloc_state 1 boot_state) = mem_end boot_state"
    "\<exists>f. virt_to_phys (alloc_state 1 boot_state) 0xffff800000101000 = f * PAGE_SIZE \<and>
      free_frames (alloc_state 1 boot_state) = free_frames boot_state - {f}" by auto
  have v: "virt_to_phys (alloc_state 1 boot_state) 0xffff800000101000 = 257 * PAGE_SIZE"
    by (simp add: virt_to_phys_def h PS)
  from w(3) obtain g where g: "virt_to_phys (alloc_state 1 boot_state) 0xffff800000101000 = g * PAGE_SIZE"
    "free_frames (alloc_state 1 boot_state) = free_frames boot_state - {g}" by (elim exE conjE)
  have "g = 257" using g(1) v by (simp add: PS)
  moreover have "{257..<264} - {257} = {258..<264 :: nat}" by auto
  ultimately show "free_frames (vm_pmm boot_vmm) = {258..<264}" using g(2) f by (simp add: boot_vmm_def)
  show "pmm_wf (vm_pmm boot_vmm)" using w(1) by (simp add: boot_vmm_def)
  have "mem_end boot_state = 0x108000" by code_simp
  then show "mem_end (vm_pmm boot_vmm) = 0x108000" using w(2) by (simp add: boot_vmm_def)
qed

lemma boot_pt_ok: "pt_ok boot_ty 257 boot_vmm"
proof -
  have m: "phys_mem boot_vmm = (\<lambda>_ _. 0)" by (simp add: boot_vmm_def)
  have "links_ok boot_ty (phys_mem boot_vmm)" by (rule links_okI) (simp_all add: m link_def)
  moreover have "page_at (vm_pmm boot_vmm) 257" by (simp add: page_at_iff boot_mem_end PS PMM_FREE_MIN_PHYS_def)
  ultimately show ?thesis
    unfolding pt_ok_def by (simp add: boot_vmm_wf boot_mem_end boot_free m boot_ty_def split: if_splits)
qed

lemma boot_mask: "mask_ok (g_pte_mask boot_vmm)"
  by (simp add: boot_vmm_def mask_ok_def)

lemma boot_walk: "walk (phys_mem boot_vmm) l f v = None"
  by (rule walk_empty) (simp add: boot_vmm_def)

section \<open>Runs of a client\<close>

lemma boot_vm_run: "\<exists>w f. vm_run boot_pm boot_vmm (w, {}, {(0x400000, f)})"
proof -
  from alloc_zero_ok [OF boot_vmm_wf] obtain p f w1 where al: "pmm_alloc_zero 1 boot_vmm = Done (p, w1)" "p \<noteq> 0"
    "virt_to_phys (vm_pmm w1) p = f * PAGE_SIZE" "took f boot_vmm w1" by (auto simp: boot_free)
  note tk = took_ok [OF boot_pt_ok al(4)]
  have r1: "vm_run boot_pm boot_vmm (w1, {f}, {})" using vm_run.take [OF vm_run.start al(1,2)] al(3) by simp
  have wk: "walk (phys_mem w1) 4 257 v = None" for v using tk(6) boot_walk by simp
  have "card (free_frames (vm_pmm w1)) = 5" using tookD(5,6) [OF al(4)] by (simp add: boot_free)
  with vmm_map_page_ok [OF tk(1) boot_pm_root, of "0x400000" "of_nat (f * PAGE_SIZE)" VMM_USER]
  obtain w2 where "vmm_map_page boot_pm 0x400000 (of_nat (f * PAGE_SIZE)) VMM_USER w1 = Done (True, w2)"
    by (auto simp: large_at_def wk)
  moreover have "plain_flags VMM_USER" by (simp add: plain_flags_def has_def vmm_bits PTE_PHYS_MASK_def)
  ultimately have "vm_run boot_pm boot_vmm (w2, {f} - {f}, insert (0x400000, f) {})"
    by (intro vm_run.map [OF r1]) (simp_all add: vmm_virt_to_phys_walk [OF tk(1) boot_pm_root] wk)
  then show ?thesis by auto
qed

text \<open>
  C11. Memory safety of the page tables together with the allocator below them.  A client takes frames,
  maps them with \<open>vmm_map_page\<close> at pages that are not mapped, and unmaps them, in any order.  Then every
  page it mapped translates to its own frame and can be unmapped without stopping the kernel, no two
  of its pages share a frame, no frame it has is free, every other address translates as at the
  start, and no memory is lost: the free frames, the tables and the client's frames are together the
  free frames and the tables of the start.
\<close>

theorem vm_run_safe:
  assumes "pt_ok ty0 r w0" "pm_pml4 pm = r * PAGE_SIZE" "mask_ok (g_pte_mask w0)" "vm_run pm w0 (w, held, maps)"
  shows "(\<forall>v f. (v, f) \<in> maps \<longrightarrow> vmm_virt_to_phys pm v w = Some (of_nat (f * PAGE_SIZE) OR (v AND 0xFFF)) \<and>
      (\<exists>w'. vmm_unmap_page pm v w = Done w')) \<and>
    inj_on snd maps \<and> held \<inter> snd ` maps = {} \<and> (held \<union> snd ` maps) \<inter> free_frames (vm_pmm w) = {} \<and>
    (\<forall>v'. outside maps v' \<longrightarrow> vmm_virt_to_phys pm v' w = vmm_virt_to_phys pm v' w0 \<and>
      vmm_get_page_flags pm v' w = vmm_get_page_flags pm v' w0) \<and>
    (\<exists>ty. pt_ok ty r w \<and> free_frames (vm_pmm w) \<union> held \<union> snd ` maps \<union> {f. ty f \<noteq> 0} =
      free_frames (vm_pmm w0) \<union> {f. ty0 f \<noteq> 0})"
proof -
  from vm_run_inv [OF assms(4,1,2,3)] obtain ty where i: "vm_inv ty0 w0 ty r w held maps" by blast
  note rd = vm_inv_reads [OF i assms(1,2)]
  have "\<exists>w'. vmm_unmap_page pm v w = Done w'" if "(v, f) \<in> maps" for v f using unmap_inv [OF i that assms(2)] by blast
  moreover have "f \<notin> free_frames (vm_pmm w)" if "f \<in> held \<union> snd ` maps" for f
    using vm_invD(3) [OF i that] by (simp add: owned_frame_def)
  ultimately show ?thesis using rd vm_invD(4,5) [OF i] vm_invD(1,10) [OF i] by (intro conjI allI impI exI [of _ ty]) blast+
qed

theorem vm_run_safe_witness:
  "\<exists>w f. vm_run boot_pm boot_vmm (w, {}, {(0x400000, f)}) \<and> f \<notin> free_frames (vm_pmm w) \<and>
    vmm_virt_to_phys boot_pm 0x400000 w = Some (of_nat (f * PAGE_SIZE)) \<and> (\<exists>w'. vmm_unmap_page boot_pm 0x400000 w = Done w')"
proof -
  from boot_vm_run obtain w f where r: "vm_run boot_pm boot_vmm (w, {}, {(0x400000, f)})" by blast
  from vm_run_safe [OF boot_pt_ok boot_pm_root boot_mask r] r show ?thesis by auto
qed

text \<open>
  C12. The tables stay well typed.  In every state of such a run each table has one level: the root is
  the only table of level 4, a present entry of a table that is not a large page leads to a table of
  exactly the level below, no table is reached through two entries, and every table is a frame that
  is allocated.
\<close>

theorem vm_run_typed:
  assumes "pt_ok ty0 r w0" "pm_pml4 pm = r * PAGE_SIZE" "mask_ok (g_pte_mask w0)" "vm_run pm w0 (w, held, maps)"
  shows "\<exists>ty. (\<forall>f. ty f = 4 \<longleftrightarrow> f = r) \<and>
    (\<forall>f i. i < 512 \<and> link (ty f) (phys_mem w f i) \<longrightarrow> ty (fr (phys_mem w f i)) = ty f - 1) \<and>
    (\<forall>f g i j. i < 512 \<and> j < 512 \<and> link (ty f) (phys_mem w f i) \<and> link (ty g) (phys_mem w g j) \<and>
       fr (phys_mem w f i) = fr (phys_mem w g j) \<longrightarrow> f = g \<and> i = j) \<and>
    (\<forall>f. ty f \<noteq> 0 \<longrightarrow> page_at (vm_pmm w) f \<and> f \<notin> free_frames (vm_pmm w) \<and> f \<notin> held \<union> snd ` maps)"
proof -
  from vm_run_inv [OF assms(4,1,2,3)] obtain ty where i: "vm_inv ty0 w0 ty r w held maps" by blast
  note ok = vm_invD(1) [OF i]
  have "f \<notin> held \<union> snd ` maps" if "ty f \<noteq> 0" for f using vm_invD(3) [OF i, of f] that unfolding owned_frame_def by blast
  with pt_okD(3,5,6) [OF ok] pt_okD(7) [OF ok, unfolded links_ok_def] show ?thesis
    by (intro exI [of _ ty] conjI allI impI) blast+
qed

theorem vm_run_typed_witness:
  "\<exists>w f ty. vm_run boot_pm boot_vmm (w, {}, {(0x400000, f)}) \<and> ty 257 = (4 :: nat) \<and> ty f = 0"
proof -
  from boot_vm_run obtain w f where r: "vm_run boot_pm boot_vmm (w, {}, {(0x400000, f)})" by blast
  from vm_run_typed [OF boot_pt_ok boot_pm_root boot_mask r] obtain ty where "ty 257 = (4 :: nat)"
    "ty f \<noteq> 0 \<longrightarrow> f \<notin> {} \<union> snd ` {(0x400000 :: u64, f)}" by metis
  with r show ?thesis by auto
qed

text \<open>
  C13. \<open>vmm_map_page\<close> with three free frames returns.  It succeeds unless a large page covers the address;
  then the page translates to the given frame with the given flags, and whether it succeeds or not
  every other page keeps its translation and its flags, and the tables stay a tree.
\<close>

theorem vmm_map_page_spec:
  assumes "pt_ok ty r w" "pm_pml4 pm = r * PAGE_SIZE" "mask_ok (g_pte_mask w)" "3 \<le> card (free_frames (vm_pmm w))"
    and "f < 2 ^ 40" "flags AND PTE_PHYS_MASK = 0"
  shows "\<exists>okay w' ty'. vmm_map_page pm v (of_nat (f * PAGE_SIZE)) flags w = Done (okay, w') \<and> pt_ok ty' r w' \<and>
    (okay \<longleftrightarrow> \<not> large_at r v w) \<and>
    (okay \<longrightarrow> vmm_virt_to_phys pm v w' = Some (of_nat (f * PAGE_SIZE) OR (v AND 0xFFF)) \<and>
       vmm_get_page_flags pm v w' = Some ((flags OR VMM_PRESENT) AND g_pte_mask w AND FLAG_BITS)) \<and>
    (\<forall>v'. \<not> (okay \<and> same_page v v') \<longrightarrow> vmm_virt_to_phys pm v' w' = vmm_virt_to_phys pm v' w \<and>
       vmm_get_page_flags pm v' w' = vmm_get_page_flags pm v' w)"
proof -
  let ?e = "map_entry (of_nat (f * PAGE_SIZE)) flags w"
  from vmm_map_page_ok [OF assms(1,2), of v "of_nat (f * PAGE_SIZE)" flags] assms(4)
  obtain okay w' ty' where k: "vmm_map_page pm v (of_nat (f * PAGE_SIZE)) flags w = Done (okay, w')" "pt_ok ty' r w'"
    "okay \<longleftrightarrow> \<not> large_at r v w"
    "\<And>v'. walk (phys_mem w') 4 r v' = (if okay \<and> same_page v v' then if has ?e VMM_PRESENT then Some (1, ?e) else None
      else walk (phys_mem w) 4 r v')" by auto
  note e = map_entry_ok [OF assms(3,5,6)]
  have "PTE_PHYS_MASK AND FLAG_BITS = 0" by (simp add: PTE_PHYS_MASK_def FLAG_BITS_def VMM_NOEXEC_def)
  then have "\<not> (bit PTE_PHYS_MASK n \<and> bit FLAG_BITS n)" for n by (metis bit_0_eq bit_and_iff bot_apply bot_bool_def)
  then have "?e AND FLAG_BITS = (flags OR VMM_PRESENT) AND g_pte_mask w AND FLAG_BITS"
    unfolding map_entry_def by (auto simp: bit_eq_iff bit_and_iff bit_or_iff simp del: of_nat_mult)
  moreover have "leaf_phys v (1, ?e) = of_nat (f * PAGE_SIZE) OR (v AND 0xFFF)" using leaf_phys_frame [of v ?e] e(2) by simp
  ultimately show ?thesis using k e(1)
    by (intro exI [of _ okay] exI [of _ w'] exI [of _ ty'])
       (simp add: vmm_virt_to_phys_walk [OF k(2) assms(2)] vmm_virt_to_phys_walk [OF assms(1,2)]
         vmm_get_page_flags_walk [OF k(2) assms(2)] vmm_get_page_flags_walk [OF assms(1,2)])
qed

theorem vmm_map_page_spec_witness:
  "\<exists>w'. vmm_map_page boot_pm 0x400000 0x102000 VMM_USER boot_vmm = Done (True, w') \<and>
    vmm_virt_to_phys boot_pm 0x400000 w' = Some 0x102000 \<and> vmm_virt_to_phys boot_pm 0x401000 w' = None"
proof -
  have fl: "VMM_USER AND PTE_PHYS_MASK = 0" by (simp add: vmm_bits PTE_PHYS_MASK_def)
  have free: "3 \<le> card (free_frames (vm_pmm boot_vmm))" by (simp add: boot_free)
  have np: "\<not> same_page 0x400000 0x401000"
  proof
    assume "same_page 0x400000 0x401000"
    then have "ix (12 + 9 * 0) 0x400000 = ix (12 + 9 * 0) 0x401000" unfolding same_page_def by (metis zero_less_numeral)
    then show False by (simp add: ix_def)
  qed
  have none: "vmm_virt_to_phys boot_pm v boot_vmm = None" for v
    by (simp add: vmm_virt_to_phys_walk [OF boot_pt_ok boot_pm_root] boot_walk)
  have "\<not> large_at 257 0x400000 boot_vmm" by (simp add: large_at_def boot_walk)
  with vmm_map_page_spec [OF boot_pt_ok boot_pm_root boot_mask free _ fl, where f = 258 and v = "0x400000"] np none
  show ?thesis by (auto simp: PS)
qed

section \<open>Page maps\<close>

text \<open>
  C14. \<open>vmm_create_pagemap\<close> gives an empty user half and the kernel's upper half.  With two free frames it
  returns a page map whose tables are a tree of their own; no address of the lower half is mapped in
  it, every address of the upper half translates as in the kernel's page map, and the kernel's own
  translations do not change.
\<close>

theorem vmm_create_pagemap_spec:
  assumes "pt_ok ty rk w" "kernel_pml4 w = rk * PAGE_SIZE" "2 \<le> card (free_frames (vm_pmm w))"
  shows "\<exists>pm w' t. vmm_create_pagemap w = Done (Some pm, w') \<and> pm_pml4 pm = t * PAGE_SIZE \<and>
    pt_ok (ty(rk := 0, t := 4)) t w' \<and> pt_ok ty rk w' \<and>
    (\<forall>v. vmm_virt_to_phys pm v w' = (if ix 39 v < 256 then None else vmm_virt_to_phys (vmm_get_kernel_pagemap w) v w)) \<and>
    (\<forall>v. vmm_virt_to_phys (vmm_get_kernel_pagemap w') v w' = vmm_virt_to_phys (vmm_get_kernel_pagemap w) v w)"
proof -
  from vmm_create_pagemap_ok [OF assms(1,2)] assms(3)
  obtain pm w' t where k: "vmm_create_pagemap w = Done (Some pm, w')" "pm_pml4 pm = t * PAGE_SIZE" "kernel_pml4 w' = kernel_pml4 w"
    "pt_ok (ty(rk := 0, t := 4)) t w'" "pt_ok ty rk w'"
    "\<And>v. walk (phys_mem w') 4 t v = (if ix 39 v < 256 then None else walk (phys_mem w) 4 rk v)"
    "\<And>v. walk (phys_mem w') 4 rk v = walk (phys_mem w) 4 rk v" by auto
  have kp: "pm_pml4 (vmm_get_kernel_pagemap w) = rk * PAGE_SIZE" "pm_pml4 (vmm_get_kernel_pagemap w') = rk * PAGE_SIZE"
    using assms(2) k(3) by (simp_all add: vmm_get_kernel_pagemap_def)
  show ?thesis
    by (intro exI [of _ pm] exI [of _ w'] exI [of _ t] conjI allI k(1,2,4,5))
       (simp_all add: vmm_virt_to_phys_walk [OF k(4,2)] vmm_virt_to_phys_walk [OF k(5) kp(2)]
         vmm_virt_to_phys_walk [OF assms(1) kp(1)] k(6,7))
qed

theorem vmm_create_pagemap_spec_witness:
  "\<exists>pm w'. vmm_create_pagemap boot_vmm = Done (Some pm, w') \<and> vmm_virt_to_phys pm 0x400000 w' = None \<and>
    vmm_virt_to_phys pm 0xffff800000000000 w' = vmm_virt_to_phys boot_pm 0xffff800000000000 boot_vmm"
proof -
  have k: "kernel_pml4 boot_vmm = 257 * PAGE_SIZE" by (simp add: boot_vmm_def)
  have free: "2 \<le> card (free_frames (vm_pmm boot_vmm))" by (simp add: boot_free)
  have "ix 39 0x400000 < 256" "\<not> ix 39 0xffff800000000000 < 256" by (simp_all add: ix_def)
  with vmm_create_pagemap_spec [OF boot_pt_ok k free] show ?thesis by (auto simp: boot_pm_def)
qed

section \<open>Large pages\<close>

text \<open>A machine with one large page: the tables are the frames 257 to 259, the page is at two megabytes.\<close>

definition large_vmm :: vmm where
  "large_vmm = boot_vmm\<lparr>vm_pmm := alloc_state 1 (alloc_state 1 (vm_pmm boot_vmm)),
     phys_mem := (\<lambda>_ _. 0)(257 := (\<lambda>_. 0)(0 := link_entry 258 VMM_USER), 258 := (\<lambda>_. 0)(0 := link_entry 259 VMM_USER),
       259 := (\<lambda>_. 0)(0 := 0x200083), 512 := (\<lambda>_. 0)(0 := 0x201))\<rparr>"

definition large_ty :: "nat \<Rightarrow> nat" where
  "large_ty = (\<lambda>_. 0)(257 := 4, 258 := 3, 259 := 2)"

lemma alloc_next:
  assumes wf: "pmm_wf s" and off: "hhdm_offset s = 0xffff800000000000" and a: "alloc_addr 1 s = 0xffff800000000000 + of_nat (f * PAGE_SIZE)"
    and f: "0 < f" "f < 2 ^ 20" and nz: "alloc_addr 1 s \<noteq> 0"
  shows "pmm_wf (alloc_state 1 s)" "mem_end (alloc_state 1 s) = mem_end s" "hhdm_offset (alloc_state 1 s) = 0xffff800000000000"
    "free_frames (alloc_state 1 s) = free_frames s - {f}"
proof -
  from alloc_one [OF wf] alloc_done [of 1 s] nz
  have w: "pmm_wf (alloc_state 1 s)" "mem_end (alloc_state 1 s) = mem_end s" "hhdm_offset (alloc_state 1 s) = hhdm_offset s"
    "\<exists>g. virt_to_phys (alloc_state 1 s) (alloc_addr 1 s) = g * PAGE_SIZE \<and> free_frames (alloc_state 1 s) = free_frames s - {g}" by auto
  have "virt_to_phys (alloc_state 1 s) (alloc_addr 1 s) = unat (of_nat (f * PAGE_SIZE) :: u64)"
    unfolding virt_to_phys_def w(3) off a by (simp del: of_nat_mult)
  also have "\<dots> = f * PAGE_SIZE" using f by (simp add: unat_of_nat PS del: of_nat_mult)
  finally have v: "virt_to_phys (alloc_state 1 s) (alloc_addr 1 s) = f * PAGE_SIZE" .
  from w(4) obtain g where g: "virt_to_phys (alloc_state 1 s) (alloc_addr 1 s) = g * PAGE_SIZE"
    "free_frames (alloc_state 1 s) = free_frames s - {g}" by (elim exE conjE)
  have "g = f" using g(1) v by (simp add: PS)
  with g(2) show "free_frames (alloc_state 1 s) = free_frames s - {f}" by simp
  show "pmm_wf (alloc_state 1 s)" "mem_end (alloc_state 1 s) = mem_end s" by (rule w)+
  show "hhdm_offset (alloc_state 1 s) = 0xffff800000000000" using w(3) off by simp
qed

lemma large_pmm:
  "pmm_wf (vm_pmm large_vmm)" "mem_end (vm_pmm large_vmm) = 0x108000" "free_frames (vm_pmm large_vmm) = {260..<264}"
proof -
  let ?s = "vm_pmm boot_vmm"
  have a1: "alloc_addr 1 ?s = 0xffff800000102000" unfolding boot_vmm_def by code_simp
  have a2: "alloc_addr 1 (alloc_state 1 ?s) = 0xffff800000103000" unfolding boot_vmm_def by code_simp
  have h: "hhdm_offset ?s = 0xffff800000000000" unfolding boot_vmm_def by code_simp
  have n1: "alloc_addr 1 ?s = 0xffff800000000000 + of_nat (258 * PAGE_SIZE)" "alloc_addr 1 ?s \<noteq> 0" unfolding a1 by (simp_all add: PS)
  have n2: "alloc_addr 1 (alloc_state 1 ?s) = 0xffff800000000000 + of_nat (259 * PAGE_SIZE)" "alloc_addr 1 (alloc_state 1 ?s) \<noteq> 0"
    unfolding a2 by (simp_all add: PS)
  note s1 = alloc_next [OF boot_vmm_wf h n1(1) _ _ n1(2)]
  note s2 = alloc_next [OF s1(1) s1(3) n2(1) _ _ n2(2)]
  have "{258..<264} - {258} - {259} = {260..<264 :: nat}" by auto
  then show "pmm_wf (vm_pmm large_vmm)" "mem_end (vm_pmm large_vmm) = 0x108000" "free_frames (vm_pmm large_vmm) = {260..<264}"
    using s1 s2 by (simp_all add: large_vmm_def boot_mem_end boot_free)
qed

definition large_pm :: vmm_pagemap where
  "large_pm = vmm_get_kernel_pagemap large_vmm"

lemma large_pm_root: "pm_pml4 large_pm = 257 * PAGE_SIZE"
  by (simp add: large_pm_def large_vmm_def boot_vmm_def vmm_get_kernel_pagemap_def)

lemma large_mem:
  "phys_mem large_vmm 257 i = (if i = 0 then link_entry 258 VMM_USER else 0)"
  "phys_mem large_vmm 258 i = (if i = 0 then link_entry 259 VMM_USER else 0)"
  "phys_mem large_vmm 259 i = (if i = 0 then 0x200083 else 0)"
  "phys_mem large_vmm 512 i = (if i = 0 then 0x201 else 0)"
  by (simp_all add: large_vmm_def)

lemma large_entry: "has 0x200083 VMM_PRESENT" "has 0x200083 VMM_PSE" "fr 0x200083 = 512"
  by (simp_all add: has_def vmm_bits fr_def pte_phys_def PTE_PHYS_MASK_def PS)

lemmas large_links = link_entry_parts [of 258 VMM_USER] link_entry_parts [of 259 VMM_USER]

lemma large_link: "link (large_ty f) (phys_mem large_vmm f i) \<Longrightarrow> f = 257 \<and> i = 0 \<or> f = 258 \<and> i = 0"
  by (auto simp: link_def large_ty_def large_mem large_entry split: if_splits)

lemma large_pt_ok: "pt_ok large_ty 257 large_vmm"
proof -
  have "links_ok large_ty (phys_mem large_vmm)"
  proof (rule links_okI)
    fix f i assume "link (large_ty f) (phys_mem large_vmm f i)"
    from large_link [OF this] show "large_ty (fr (phys_mem large_vmm f i)) = large_ty f - 1"
      using large_links by (elim disjE conjE) (simp_all add: large_mem large_ty_def)
  next
    fix f g i j assume k: "link (large_ty f) (phys_mem large_vmm f i)" "link (large_ty g) (phys_mem large_vmm g j)"
      and eq: "fr (phys_mem large_vmm f i) = fr (phys_mem large_vmm g j)"
    show "f = g \<and> i = j"
      using large_link [OF k(1)] large_link [OF k(2)] eq by (elim disjE conjE) (simp_all add: large_mem large_links)
  qed
  moreover have "page_at (vm_pmm large_vmm) f" if "f \<in> {257, 258, 259}" for f
    using that by (auto simp: page_at_iff large_pmm(2) PS PMM_FREE_MIN_PHYS_def)
  ultimately show ?thesis
    unfolding pt_ok_def using large_links by (simp add: large_pmm large_mem large_ty_def)
qed

lemma large_walk: "walk (phys_mem large_vmm) 4 257 0 = Some (2, 0x200083)"
  using large_links by (simp add: walk_4 walk_3 ix_def large_mem large_entry)

text \<open>
  C34. \<open>vmm_unmap_page\<close> of an address inside a large page does not unmap it.  The descent does not look at
  \<open>VMM_PSE\<close>, so the content of the large page is taken for a table: a word of the page's data is set
  to 0, the frame that the word names is freed, and the address stays mapped.
\<close>

theorem vmm_unmap_large:
  assumes "pt_ok ty r w" "pm_pml4 pm = r * PAGE_SIZE" "walk (phys_mem w) 4 r v = Some (2, e)" "ty (fr e) = 0"
    and "d = phys_mem w (fr e) (ix 12 v)" "has d VMM_PRESENT"
  shows "\<exists>w1. phys_mem w1 (fr e) (ix 12 v) = 0 \<and> vmm_virt_to_phys pm v w1 = vmm_virt_to_phys pm v w \<and>
    vmm_virt_to_phys pm v w1 \<noteq> None \<and>
    vmm_unmap_page pm v w = (if \<not> has d VMM_SHARED \<and> PMM_FREE_MIN_PHYS \<le> pte_phys d then free_page (pte_phys d) 1 w1 else Done w1)"
proof -
  let ?w1 = "set_entry (fr e * PAGE_SIZE) (ix 12 v) 0 w"
  have slot: "unmap_slot pm v w = Some (fr e * PAGE_SIZE)"
    using assms(3) unfolding walk_root [OF assms(1)] walk_3 unmap_slot_def assms(2) entry_frame
    by (auto simp: Let_def pte_phys_fr split: if_splits)
  have ok: "pt_ok ty r ?w1" unfolding set_entry_poke by (rule pt_ok_poke_leaf [OF assms(1)]) (simp add: assms(4))
  have r: "ty r = 4" using pt_okD(3) [OF assms(1), of r] by simp
  have "walk (phys_mem ?w1) 4 r v = walk (phys_mem w) 4 r v"
    by (rule walk_refines [OF pt_okD(7) [OF assms(1)] _ r]) (use assms(4) in \<open>auto simp: refines_def poke_at\<close>)
  then have "vmm_virt_to_phys pm v ?w1 = vmm_virt_to_phys pm v w" "vmm_virt_to_phys pm v w \<noteq> None"
    using assms(3) by (simp_all add: vmm_virt_to_phys_walk [OF ok assms(2)] vmm_virt_to_phys_walk [OF assms(1,2)])
  moreover have "vmm_unmap_page pm v w =
      (if \<not> has d VMM_SHARED \<and> PMM_FREE_MIN_PHYS \<le> pte_phys d then free_page (pte_phys d) 1 ?w1 else Done ?w1)"
    using assms(5,6) by (simp add: vmm_unmap_page_def slot)
  ultimately show ?thesis by (intro exI [of _ ?w1]) (simp add: poke_at)
qed

theorem vmm_unmap_large_witness:
  "phys_mem large_vmm 512 0 = 0x201 \<and>
   (\<exists>w1. vmm_unmap_page large_pm 0 large_vmm = Done w1 \<and> phys_mem w1 512 0 = 0 \<and> vmm_virt_to_phys large_pm 0 w1 \<noteq> None)"
proof -
  have t: "large_ty (fr 0x200083) = 0" by (simp add: large_entry large_ty_def)
  have d: "0x201 = phys_mem large_vmm (fr 0x200083) (ix 12 0)" by (simp add: large_entry large_mem ix_def)
  have p: "has 0x201 VMM_PRESENT" "has 0x201 VMM_SHARED" by (simp_all add: has_def vmm_bits)
  have "ix 12 0 = 0" by (simp add: ix_def)
  with vmm_unmap_large [OF large_pt_ok large_pm_root large_walk t d p(1)] p(2) show ?thesis
    by (simp add: large_entry large_mem) blast
qed

section \<open>The walk over the leaves\<close>

text \<open>
  C16. \<open>walk_ptes\<close> over a range below the last entry of the root table returns, and calls back for exactly
  those pages of the range whose leaf \<open>vmm_pte_lookup\<close> finds present, once each and in ascending order:
  skipping the span of an absent table or of a large page at any level leaves out nothing.
\<close>

theorem walk_ptes_spec:
  assumes "unat va mod 4096 = 0" "unat till mod 4096 = 0" "unat till \<le> 2 ^ 64 - 2 ^ 39"
  shows "walk_ptes w pm till [] va = Some (filter (leaf_present w pm) (pages_of va till))"
  using walk_ptes_eq [of va till w pm "[]"] assms by (simp add: walk_end_ok_def on_page_def)

definition leaf_vmm :: vmm where
  "leaf_vmm = boot_vmm\<lparr>phys_mem := (\<lambda>_ _. 0)(257 := (\<lambda>_. 0)(0 := 0x102007), 258 := (\<lambda>_. 0)(0 := 0x103007),
       259 := (\<lambda>_. 0)(0 := 0x104007), 260 := (\<lambda>_. 0)(1 := 0x200007))\<rparr>"

theorem walk_ptes_spec_witness:
  "walk_ptes leaf_vmm boot_pm 0x3000 [] 0 = Some [0x1000]"
proof -
  have p: "pages_of 0 0x3000 = [0, 0x1000, 0x2000]" by (simp add: pages_of_def upt_rec)
  have "leaf_present leaf_vmm boot_pm v \<longleftrightarrow> v = 0x1000" if "v \<in> {0, 0x1000, 0x2000}" for v
    using that by (auto simp: leaf_present_def vmm_pte_lookup_def boot_pm_root entry_def leaf_vmm_def ix_def has_def vmm_bits
        pte_phys_def PTE_PHYS_MASK_def PS)
  then show ?thesis using walk_ptes_spec [of 0 "0x3000" leaf_vmm boot_pm] by (simp add: p)
qed

section \<open>Write combining\<close>

text \<open>
  C15. \<open>vmm_remap_range_wc\<close> over a range that does not wrap around returns, whatever large pages the range
  cuts through.  Every address keeps its physical address, its rights and its other flags; exactly
  the pages from the start of the range up to the address \<open>b\<close> become write combining and all other
  pages keep their cache attribute.  On success \<open>b\<close> is the end of the range; it can give up only at an
  unmapped page, or when there are not two free frames for each page to split large pages with.
\<close>

theorem vmm_remap_range_wc_spec:
  assumes "pt_ok ty r w" "pm_pml4 pm = r * PAGE_SIZE" "mask_ok (g_pte_mask w)" "unat v mod 4096 = 0"
    and "unat v + unat pages * 4096 < 2 ^ 64"
  shows "\<exists>okay w' b. vmm_remap_range_wc pm v pages w = Some (okay, w') \<and> (\<exists>ty'. pt_ok ty' r w') \<and> v \<le> b \<and>
    (if okay then b = v + pages * 4096
     else b < v + pages * 4096 \<and> (vmm_virt_to_phys pm b w = None \<or> card (free_frames (vm_pmm w)) \<le> 2 * unat pages)) \<and>
    (\<forall>u. vmm_virt_to_phys pm u w' = vmm_virt_to_phys pm u w \<and> vmm_virt_flags pm u w' = vmm_virt_flags pm u w \<and>
       map_option (\<lambda>f. f AND KEPT_FLAGS) (vmm_get_page_flags pm u w') = map_option (\<lambda>f. f AND KEPT_FLAGS) (vmm_get_page_flags pm u w) \<and>
       attr r w' u = (if span v b u then Some WRITE_COMBINING else attr r w u))"
proof -
  let ?till = "v + pages * 4096"
  have u: "unat ?till = unat v + unat pages * 4096" using assms(5) by (simp add: unat_word_ariths(1,2))
  then have "v \<le> ?till" "on_page v" "on_page ?till" using assms(4) by (simp_all add: word_le_nat_alt on_page_def)
  from wc_loop_ok [OF assms(1-3) this] obtain okay w' b ty' where k: "vmm_remap_range_wc pm v pages w = Some (okay, w')"
    "pt_ok ty' r w'" "wc_done r v b w w'" "v \<le> b"
    "if okay then b = ?till else b < ?till \<and> (attr r w b = None \<or> card (free_frames (vm_pmm w)) \<le> 2 * ((unat ?till - unat v) div 4096))"
    unfolding vmm_remap_range_wc_def by auto
  have kp: "keeps r w w'" "\<And>u. attr r w' u = (if span v b u then Some WRITE_COMBINING else attr r w u)"
    using k(3) by (simp_all add: wc_done_def)
  have "(unat ?till - unat v) div 4096 = unat pages" by (simp add: u)
  with k(5) attr_None_iff [OF assms(1,2), of b] k(1,2,4) keeps_reads [OF kp(1) assms(1) k(2) assms(2)] kp(2) show ?thesis
    by (intro exI [of _ okay] exI [of _ w'] exI [of _ b]) auto
qed

theorem vmm_remap_range_wc_spec_witness:
  "\<exists>w'. vmm_remap_range_wc large_pm 0 1 large_vmm = Some (True, w') \<and> attr 257 w' 0 = Some WRITE_COMBINING \<and>
    attr 257 w' 0x1000 = Some (False, False, False) \<and> vmm_virt_to_phys large_pm 0x1000 w' = Some 0x201000"
proof -
  have m: "mask_ok (g_pte_mask large_vmm)" by (simp add: large_vmm_def boot_vmm_def mask_ok_def)
  have wk: "walk (phys_mem large_vmm) 4 257 b = Some (2, 0x200083)" if "unat b < 0x200000" for b
  proof -
    have "ix 39 b = 0" "ix 30 b = 0" "ix 21 b = 0" using that by (simp_all add: ix_div)
    then show ?thesis using large_links by (simp add: walk_4 walk_3 large_mem large_entry)
  qed
  have mapped: "vmm_virt_to_phys large_pm b large_vmm = Some (leaf_phys b (2, 0x200083))" if "unat b < 0x200000" for b
    using wk [OF that] by (simp add: vmm_virt_to_phys_walk [OF large_pt_ok large_pm_root])
  have range: "unat (0 :: u64) mod 4096 = 0" "unat (0 :: u64) + unat (1 :: u64) * 4096 < 2 ^ 64" by simp_all
  from vmm_remap_range_wc_spec [OF large_pt_ok large_pm_root m range] obtain okay w' b
    where k: "vmm_remap_range_wc large_pm 0 1 large_vmm = Some (okay, w')"
      "if okay then b = 0 + 1 * 4096 else b < 0 + 1 * 4096 \<and>
        (vmm_virt_to_phys large_pm b large_vmm = None \<or> card (free_frames (vm_pmm large_vmm)) \<le> 2 * unat (1 :: u64))"
      "\<And>u. vmm_virt_to_phys large_pm u w' = vmm_virt_to_phys large_pm u large_vmm"
      "\<And>u. attr 257 w' u = (if span 0 b u then Some WRITE_COMBINING else attr 257 large_vmm u)" by blast
  have okay: okay and b: "b = 0x1000"
    using k(2) mapped [of b] by (auto simp: large_pmm(3) word_less_nat_alt split: if_splits)
  have "span 0 0x1000 0" by (auto simp: span_def intro!: exI [of _ 0])
  moreover have "\<not> span 0 0x1000 0x1000"
  proof
    assume "span 0 0x1000 0x1000"
    then obtain x where x: "unat x < 0x1000" "same_page x 0x1000" by (auto simp: span_def word_less_nat_alt)
    from x(2) have "ix (12 + 9 * 0) x = ix (12 + 9 * 0) 0x1000" unfolding same_page_def by (metis zero_less_numeral)
    with x(1) show False by (simp add: ix_div)
  qed
  moreover have "attr 257 large_vmm 0x1000 = Some (False, False, False)" using wk [of "0x1000"] by (simp add: attr_def cache_attr_def)
  moreover have "leaf_phys 0x1000 (2, 0x200083) = 0x201000" by (simp add: leaf_phys_def PTE_PHYS_MASK_def)
  ultimately show ?thesis using k(1,3,4) okay b mapped [of "0x1000"] by auto
qed

end
