(* ===== verification/Paging.thy ===== *)
theory Paging
  imports Vmm
begin

unbundle bit_operations_syntax

text \<open>
  Ranges of pages in a page map, \<^verbatim>\<open>kernel/src/memory/paging.c\<close>: mapping, unmapping and changing the
  flags of a range, reserved ranges, and regions backed by memory of their own.  The arrays of the C
  code are lists, their counters the lengths of the lists.
\<close>

definition MAX_REGIONS :: nat where "MAX_REGIONS = 256"
definition MAX_RESERVED :: nat where "MAX_RESERVED = 64"
definition DEFAULT_ALLOC_BASE :: u64 where "DEFAULT_ALLOC_BASE = 0xFFFFFE0000000000"

record paging_region =
  virtual_start :: u64
  virtual_end :: u64
  physical_start :: nat
  rg_flags :: u64
  page_count :: u64
  allocated :: bool

record paging =
  pa_vmm :: vmm
  regions :: "paging_region list"
  reserved_ranges :: "(u64 \<times> u64) list"
  next_alloc_virt :: u64

definition round_up :: "u64 \<Rightarrow> u64 \<Rightarrow> u64" where
  "round_up addr alignment = (addr + alignment - 1) AND NOT (alignment - 1)"

definition is_aligned :: "u64 \<Rightarrow> u64 \<Rightarrow> bool" where
  "is_aligned addr alignment \<longleftrightarrow> addr AND (alignment - 1) = 0"

definition ranges_overlap :: "u64 \<Rightarrow> u64 \<Rightarrow> u64 \<Rightarrow> u64 \<Rightarrow> bool" where
  "ranges_overlap s1 e1 s2 e2 \<longleftrightarrow> s1 < e2 \<and> s2 < e1"

definition is_range_reserved :: "u64 \<Rightarrow> u64 \<Rightarrow> paging \<Rightarrow> bool" where
  "is_range_reserved start till p = list_ex (\<lambda>(s, e). ranges_overlap start till s e) (reserved_ranges p)"

definition paging_reserve_range :: "u64 \<Rightarrow> u64 \<Rightarrow> paging \<Rightarrow> bool \<times> paging" where
  "paging_reserve_range virt_start virt_end p =
     (if length (reserved_ranges p) \<ge> MAX_RESERVED then (False, p)
      else if virt_start \<ge> virt_end then (False, p)
      else if is_range_reserved virt_start virt_end p then (False, p)
      else (True, p\<lparr>reserved_ranges := reserved_ranges p @ [(virt_start, virt_end)]\<rparr>))"

definition paging_init :: "paging \<Rightarrow> paging" where
  "paging_init p =
     snd (paging_reserve_range 0xFFFFFFFF80000000 0xFFFFFFFFC0000000
            (p\<lparr>regions := [], reserved_ranges := [], next_alloc_virt := DEFAULT_ALLOC_BASE\<rparr>))"

text \<open>\<open>None\<close>: the address wraps around and the loop never ends.\<close>

partial_function (option) free_loop :: "vmm_pagemap \<Rightarrow> vmm \<Rightarrow> u64 \<Rightarrow> u64 \<Rightarrow> bool option" where
  "free_loop pm w till virt =
     (if virt < till then
        (case vmm_virt_to_phys pm virt w of
           Some _ \<Rightarrow> Some False
         | None \<Rightarrow> free_loop pm w till (virt + 4096))
      else Some True)"

definition paging_is_range_free :: "vmm_pagemap \<Rightarrow> u64 \<Rightarrow> u64 \<Rightarrow> paging \<Rightarrow> bool option" where
  "paging_is_range_free pm virt_start virt_end p =
     (if is_range_reserved virt_start virt_end p then Some False else free_loop pm (pa_vmm p) virt_end virt_start)"

text \<open>The loop of \<open>paging_map_range\<close> from page \<open>i\<close> on, with \<open>n\<close> pages to go.\<close>

fun map_loop :: "vmm_pagemap \<Rightarrow> u64 \<Rightarrow> u64 \<Rightarrow> u64 \<Rightarrow> nat \<Rightarrow> nat \<Rightarrow> vmm \<Rightarrow> (bool \<times> vmm) outcome" where
  "map_loop pm vs ps flags i 0 w = Done (True, w)"
| "map_loop pm vs ps flags i (Suc n) w =
     (let virt = vs + of_nat i * 4096; phys = ps + of_nat i * 4096 in
      case vmm_virt_to_phys pm virt w of
        Some existing_phys \<Rightarrow>
          if existing_phys \<noteq> phys then Done (False, w)
          else
            and_then
              (case vmm_get_page_flags pm virt w of
                 None \<Rightarrow> Done w
               | Some existing_flags \<Rightarrow>
                   if \<not> has existing_flags VMM_PSE \<and> existing_flags \<noteq> flags AND 0xFFF then
                     and_then (vmm_unmap_page pm virt w) (\<lambda>w1.
                     and_then (vmm_map_page pm virt phys flags w1) (\<lambda>(_, w2). Done w2))
                   else Done w)
              (map_loop pm vs ps flags (i + 1) n)
      | None \<Rightarrow>
          and_then (vmm_map_page pm virt phys flags w) (\<lambda>(okay, w1).
            if okay then map_loop pm vs ps flags (i + 1) n w1
            else and_then (each (\<lambda>j. vmm_unmap_page pm (vs + of_nat j * 4096)) [0..<i] w1) (\<lambda>w2. Done (False, w2))))"

definition on_vmm :: "(vmm \<Rightarrow> ('a \<times> vmm) outcome) \<Rightarrow> paging \<Rightarrow> ('a \<times> paging) outcome" where
  "on_vmm f p = and_then (f (pa_vmm p)) (\<lambda>(x, w). Done (x, p\<lparr>pa_vmm := w\<rparr>))"

definition paging_map_range :: "vmm_pagemap \<Rightarrow> u64 \<Rightarrow> u64 \<Rightarrow> u64 \<Rightarrow> u64 \<Rightarrow> paging \<Rightarrow> (bool \<times> paging) outcome" where
  "paging_map_range pm virt_start phys_start count flags p =
     (if count = 0 then Done (False, p)
      else if \<not> is_aligned virt_start 4096 \<or> \<not> is_aligned phys_start 4096 then Done (False, p)
      else if is_range_reserved virt_start (virt_start + count * 4096) p then Done (False, p)
      else on_vmm (map_loop pm virt_start phys_start flags 0 (unat count)) p)"

definition paging_unmap_range :: "vmm_pagemap \<Rightarrow> u64 \<Rightarrow> u64 \<Rightarrow> paging \<Rightarrow> (bool \<times> paging) outcome" where
  "paging_unmap_range pm virt_start count p =
     (if count = 0 then Done (False, p)
      else and_then (each (\<lambda>i. vmm_unmap_page pm (virt_start + of_nat i * 4096)) [0..<unat count] (pa_vmm p))
             (\<lambda>w. Done (True, p\<lparr>pa_vmm := w\<rparr>)))"

fun change_flags_loop :: "vmm_pagemap \<Rightarrow> u64 \<Rightarrow> u64 \<Rightarrow> nat \<Rightarrow> nat \<Rightarrow> vmm \<Rightarrow> (bool \<times> vmm) outcome" where
  "change_flags_loop pm vs flags i 0 w = Done (True, w)"
| "change_flags_loop pm vs flags i (Suc n) w =
     (let virt = vs + of_nat i * 4096 in
      case vmm_virt_to_phys pm virt w of
        None \<Rightarrow> Done (False, w)
      | Some phys \<Rightarrow>
          and_then (vmm_unmap_page pm virt w) (\<lambda>w1.
          and_then (vmm_map_page pm virt phys flags w1) (\<lambda>(okay, w2).
            if okay then change_flags_loop pm vs flags (i + 1) n w2 else Done (False, w2))))"

definition paging_change_flags :: "vmm_pagemap \<Rightarrow> u64 \<Rightarrow> u64 \<Rightarrow> u64 \<Rightarrow> paging \<Rightarrow> (bool \<times> paging) outcome" where
  "paging_change_flags pm virt_start count new_flags p =
     (if count = 0 then Done (False, p)
      else if \<not> is_aligned virt_start 4096 then Done (False, p)
      else on_vmm (change_flags_loop pm virt_start new_flags 0 (unat count)) p)"

section \<open>Regions\<close>

text \<open>The address of the new region in \<open>regions\<close>.\<close>

definition paging_create_region :: "vmm_pagemap \<Rightarrow> u64 \<Rightarrow> u64 \<Rightarrow> u64 \<Rightarrow> paging \<Rightarrow> (nat option \<times> paging) outcome" where
  "paging_create_region pm virt_start bytes flags p =
     (if length (regions p) \<ge> MAX_REGIONS then Done (None, p)
      else
        let count = round_up bytes 4096 div 4096; virt_end = virt_start + count * 4096 in
        case paging_is_range_free pm virt_start virt_end p of
          None \<Rightarrow> Hang
        | Some False \<Rightarrow> Done (None, p)
        | Some True \<Rightarrow>
            and_then (on_vmm (pmm_alloc_zero count) p) (\<lambda>(mem, p1).
              if mem = 0 then Done (None, p1)
              else
                let phys_start = virt_to_phys (vm_pmm (pa_vmm p1)) mem in
                and_then (paging_map_range pm virt_start (of_nat phys_start) count flags p1) (\<lambda>(okay, p2).
                  if \<not> okay then
                    and_then (pmm_free mem count (vm_pmm (pa_vmm p2))) (\<lambda>s. Done (None, p2\<lparr>pa_vmm := (pa_vmm p2)\<lparr>vm_pmm := s\<rparr>\<rparr>))
                  else
                    Done (Some (length (regions p2)),
                          p2\<lparr>regions := regions p2 @ [\<lparr>virtual_start = virt_start, virtual_end = virt_end,
                                physical_start = phys_start, rg_flags = flags, page_count = count, allocated = True\<rparr>]\<rparr>))))"

definition zero_region :: paging_region where
  "zero_region = \<lparr>virtual_start = 0, virtual_end = 0, physical_start = 0, rg_flags = 0, page_count = 0, allocated = False\<rparr>"

definition paging_destroy_region :: "vmm_pagemap \<Rightarrow> nat \<Rightarrow> paging \<Rightarrow> (bool \<times> paging) outcome" where
  "paging_destroy_region pm r p =
     (let region = regions p ! r in
      if \<not> allocated region then Done (False, p)
      else
        and_then (paging_unmap_range pm (virtual_start region) (page_count region) p) (\<lambda>(_, p1).
        and_then (free_page (physical_start region) (page_count region) (pa_vmm p1)) (\<lambda>w.
          Done (True, p1\<lparr>pa_vmm := w, regions := (regions p1)[r := zero_region]\<rparr>))))"

partial_function (option) find_virt :: "vmm_pagemap \<Rightarrow> u64 \<Rightarrow> paging \<Rightarrow> u64 \<Rightarrow> u64 option" where
  "find_virt pm count p virt =
     (case paging_is_range_free pm virt (virt + count * 4096) p of
        None \<Rightarrow> None
      | Some free \<Rightarrow> if free then Some virt else find_virt pm count p (virt + 4096))"

text \<open>The place of an allocation: \<open>None\<close> when the search never ends, \<open>Some None\<close> when the preferred one is taken.\<close>

definition alloc_place :: "vmm_pagemap \<Rightarrow> u64 \<Rightarrow> u64 \<Rightarrow> paging \<Rightarrow> (u64 option \<times> paging) option" where
  "alloc_place pm count preferred_virt p =
     (if preferred_virt \<noteq> 0 then
        let virt = round_up preferred_virt 4096 in
        map_option (\<lambda>free. (if free then Some virt else None, p)) (paging_is_range_free pm virt (virt + count * 4096) p)
      else
        map_option (\<lambda>virt. (Some virt, p\<lparr>next_alloc_virt := virt + count * 4096\<rparr>)) (find_virt pm count p (next_alloc_virt p)))"

definition paging_alloc_pages :: "vmm_pagemap \<Rightarrow> u64 \<Rightarrow> u64 \<Rightarrow> u64 \<Rightarrow> paging \<Rightarrow> (u64 \<times> paging) outcome" where
  "paging_alloc_pages pm count flags preferred_virt p =
     (if count = 0 then Done (0, p)
      else case alloc_place pm count preferred_virt p of
        None \<Rightarrow> Hang
      | Some (None, p0) \<Rightarrow> Done (0, p0)
      | Some (Some virt, p0) \<Rightarrow>
          and_then (on_vmm (pmm_alloc_zero count) p0) (\<lambda>(mem, p1).
            if mem = 0 then Done (0, p1)
            else
              and_then (paging_map_range pm virt (of_nat (virt_to_phys (vm_pmm (pa_vmm p1)) mem)) count flags p1) (\<lambda>(okay, p2).
                if okay then Done (virt, p2)
                else and_then (pmm_free mem count (vm_pmm (pa_vmm p2))) (\<lambda>s. Done (0, p2\<lparr>pa_vmm := (pa_vmm p2)\<lparr>vm_pmm := s\<rparr>\<rparr>)))))"

definition paging_free_pages :: "vmm_pagemap \<Rightarrow> u64 \<Rightarrow> u64 \<Rightarrow> paging \<Rightarrow> paging outcome" where
  "paging_free_pages pm virt_addr count p =
     (if virt_addr = 0 \<or> count = 0 then Done p
      else and_then (paging_unmap_range pm virt_addr count p) (\<lambda>(_, p1). Done p1))"

end
