(* ===== verification/Spec2Isabelle.thy ===== *)
theory Spec2Isabelle
  imports Buddy_Properties Flock Kmutex Msgq Semset_Correct Pipe_Correct Vma_Properties Pagecache_Properties Vmm_Properties Paging
begin

text \<open>
  Cervus, a kernel for x86-64.
\<close>

end
